(* ===== verification/Prelude.thy ===== *)
theory Prelude
  imports Main "HOL-Library.Char_ord" "HOL-Library.List_Lexorder" "HOL-Library.Product_Lexorder"
    "HOL-Library.Word" "HOL-Library.Multiset"
begin

text \<open>
  The shared layer of the development: the integer and string types of the scheduler, the
  errors that its functions raise, a model of the ordered \<open>std::map\<close> container as a
  key-sorted association list, and generic lemmas on lists and relations.

  \<^item> \<open>ContextID\<close> and \<open>Seq\<close> are \<open>int64_t\<close> in \<^verbatim>\<open>Common.h\<close>. The code only compares them and
    counts them up from zero, so they are modelled as \<open>int\<close>; the single place where the
    width is visible, the bound \<open>INT64_MAX\<close> of \<open>traverseExecutive\<close>, is kept as a constant.
  \<^item> \<open>std::string\<close> compares as a sequence of unsigned bytes, which is the lexicographic
    order of \<^theory_text>\<open>Char_ord\<close> and \<^theory_text>\<open>List_Lexorder\<close>.
\<close>

named_theorems std_map_simps \<open>equations of the ordered-map operations\<close>
named_theorems inv_intros \<open>preservation of component invariants\<close>

type_synonym ContextID = int
type_synonym Seq = int

text \<open>\<open>h256\<close>, the framework's 32-byte hash value.\<close>

type_synonym h256 = "256 word"

definition INT64_MAX :: int where
  "INT64_MAX = 9223372036854775807"

subsection \<open>Error codes\<close>

text \<open>The enumeration \<open>SchedulerError\<close>; its first constant is -70000, the others count up.\<close>

datatype SchedulerError =
    UnknownError | InvalidStatus | InvalidBlockNumber | InvalidBlocks | NextBlockError
  | PrewriteBlockError | CommitError | RollbackError | UnexpectedKeyLockError | BatchError
  | DMTError | DAGError

fun errorCode :: "SchedulerError \<Rightarrow> int" where
  "errorCode UnknownError = - 70000"
| "errorCode InvalidStatus = - 69999"
| "errorCode InvalidBlockNumber = - 69998"
| "errorCode InvalidBlocks = - 69997"
| "errorCode NextBlockError = - 69996"
| "errorCode PrewriteBlockError = - 69995"
| "errorCode CommitError = - 69994"
| "errorCode RollbackError = - 69993"
| "errorCode UnexpectedKeyLockError = - 69992"
| "errorCode BatchError = - 69991"
| "errorCode DMTError = - 69990"
| "errorCode DAGError = - 69989"

lemma errorCode_inj: "errorCode a = errorCode b \<longleftrightarrow> a = b"
  by (cases a; cases b) simp_all

text \<open>
  What can leave a function other than by returning: a C++ exception (the scheduler's own
  error codes and the library exceptions the code can trigger) or a step whose behaviour the
  language leaves undefined. The latter are values of the model too, so that a theorem can
  say that they do not happen.
\<close>

datatype exn =
    Throw SchedulerError            \<comment> \<open>\<open>BOOST_THROW_EXCEPTION(BCOS_ERROR(code, ...))\<close>\<close>
  | ThrowCode int                   \<comment> \<open>a \<open>BCOS_ERROR\<close> with a literal code\<close>
  | ThrowException string           \<comment> \<open>\<open>bcos::Exception\<close>\<close>
  | BadVariantAccess                \<comment> \<open>\<open>std::get\<close> of the wrong alternative\<close>
  | BadLexicalCast                  \<comment> \<open>\<open>boost::lexical_cast\<close>\<close>
  | NullDereference                 \<comment> \<open>undefined: call through a null pointer\<close>
  | OutOfRange                      \<comment> \<open>undefined: index past the end\<close>
  | EmptyStackPop                   \<comment> \<open>undefined: \<open>std::stack::pop\<close> on an empty stack\<close>
  | EmptyQueueTop                   \<comment> \<open>undefined: \<open>std::priority_queue::top\<close> on an empty queue\<close>
  | EmptyListFront                  \<comment> \<open>undefined: \<open>std::list::front\<close> of an empty list\<close>
  | PastTheEnd                      \<comment> \<open>undefined: dereference of \<open>std::list::end\<close>\<close>

subsection \<open>Ordered maps\<close>

text \<open>
  A \<open>std::map\<close> is the list of its nodes in key order. \<open>map_emplace\<close> is \<open>emplace\<close> (and
  \<open>insert\<close> of a node): it leaves the map alone when the key is present.
\<close>

definition sorted_map :: "('k::linorder \<times> 'v) list \<Rightarrow> bool" where
  "sorted_map m \<longleftrightarrow> sorted_wrt (<) (map fst m)"

fun map_emplace :: "'k::linorder \<Rightarrow> 'v \<Rightarrow> ('k \<times> 'v) list \<Rightarrow> ('k \<times> 'v) list" where
  "map_emplace k v [] = [(k, v)]"
| "map_emplace k v ((k', v') # m) =
     (if k < k' then (k, v) # (k', v') # m
      else if k = k' then (k', v') # m
      else (k', v') # map_emplace k v m)"

fun map_assign :: "'k \<Rightarrow> 'v \<Rightarrow> ('k \<times> 'v) list \<Rightarrow> ('k \<times> 'v) list" where
  "map_assign k v [] = []"
| "map_assign k v ((k', v') # m) =
     (if k = k' then (k', v) # m else (k', v') # map_assign k v m)"

lemma sorted_map_Nil [simp]: "sorted_map []"
  by (simp add: sorted_map_def)

lemma sorted_map_Cons [simp]:
  "sorted_map ((k, v) # m) \<longleftrightarrow> (\<forall>k' \<in> fst ` set m. k < k') \<and> sorted_map m"
  by (auto simp: sorted_map_def)

lemma sorted_map_append:
  "sorted_map (m @ n) \<longleftrightarrow>
     sorted_map m \<and> sorted_map n \<and> (\<forall>a \<in> fst ` set m. \<forall>b \<in> fst ` set n. a < b)"
  by (auto simp: sorted_map_def sorted_wrt_append)

lemma sorted_map_distinct: "sorted_map m \<Longrightarrow> distinct (map fst m)"
  by (simp add: sorted_map_def strict_sorted_iff)

lemma keys_map_emplace [simp]: "fst ` set (map_emplace k v m) = insert k (fst ` set m)"
  by (induction k v m rule: map_emplace.induct) auto

lemma sorted_map_emplace [intro]: "sorted_map m \<Longrightarrow> sorted_map (map_emplace k v m)"
proof (induction k v m rule: map_emplace.induct)
  case (2 k v k' v' m)
  then show ?case by (cases "k < k'") (auto dest: less_trans)
qed simp

lemma set_map_emplace:
  "sorted_map m \<Longrightarrow>
     set (map_emplace k v m) = (if k \<in> fst ` set m then set m else insert (k, v) (set m))"
  by (induction k v m rule: map_emplace.induct) (auto simp: rev_image_eqI)

lemma mset_map_emplace:
  "k \<notin> fst ` set m \<Longrightarrow> mset (map_emplace k v m) = add_mset (k, v) (mset m)"
  by (induction k v m rule: map_emplace.induct) auto

lemma length_map_emplace:
  "sorted_map m \<Longrightarrow>
     length (map_emplace k v m) = (if k \<in> fst ` set m then length m else Suc (length m))"
  by (induction k v m rule: map_emplace.induct) auto

lemma map_of_emplace [std_map_simps]:
  "sorted_map m \<Longrightarrow>
     map_of (map_emplace k v m) = (if k \<in> dom (map_of m) then map_of m else (map_of m)(k \<mapsto> v))"
  by (induction k v m rule: map_emplace.induct)
     (auto simp: fun_eq_iff domIff dest!: map_of_SomeD)

lemma map_fst_assign [simp]: "map fst (map_assign k v m) = map fst m"
  by (induction k v m rule: map_assign.induct) auto

lemma sorted_map_assign [simp]: "sorted_map (map_assign k v m) = sorted_map m"
  by (simp add: sorted_map_def)

lemma map_of_assign [std_map_simps]:
  "map_of (map_assign k v m) = (if k \<in> dom (map_of m) then (map_of m)(k \<mapsto> v) else map_of m)"
  by (induction k v m rule: map_assign.induct) (auto simp: fun_eq_iff domIff)

lemma map_assign_commute:
  "k \<noteq> k' \<Longrightarrow> map_assign k v (map_assign k' v' m) = map_assign k' v' (map_assign k v m)"
  by (induction k v m rule: map_assign.induct) auto

subsection \<open>Lists and relations\<close>

lemma length_filter_all: "length xs = length (filter P xs) \<longleftrightarrow> (\<forall>x \<in> set xs. P x)"
  by (metis filter_True length_filter_less less_irrefl)

text \<open>A finite set whose elements all have a successor inside it leads into a cycle.\<close>

lemma finite_successors_cycle:
  assumes fin: "finite H" and step: "\<And>c. c \<in> H \<Longrightarrow> \<exists>d \<in> H. (c, d) \<in> W" and c: "c \<in> H"
  shows "\<exists>d. (c, d) \<in> W\<^sup>* \<and> (d, d) \<in> W\<^sup>+"
proof (rule ccontr)
  assume no: "\<not> ?thesis"
  define R where "R = {(a, b) \<in> W. a \<in> H \<and> b \<in> H \<and> (c, a) \<in> W\<^sup>*}"
  have sub: "R \<subseteq> W" by (auto simp: R_def)
  have "acyclic R"
  proof (rule acyclicI, intro allI notI)
    fix x assume x: "(x, x) \<in> R\<^sup>+"
    then have "(c, x) \<in> W\<^sup>*" by (auto simp: R_def elim: converse_tranclE)
    moreover from x sub have "(x, x) \<in> W\<^sup>+" by (meson trancl_mono_subset subsetD)
    ultimately show False using no by blast
  qed
  moreover have "finite R"
    by (rule finite_subset [of _ "H \<times> H"]) (auto simp: R_def fin)
  ultimately have wf: "wf (R\<inverse>)" by (simp add: finite_acyclic_wf_converse)
  have "(c, x) \<in> W\<^sup>* \<Longrightarrow> x \<in> H \<Longrightarrow> False" for x
    using wf
  proof (induction x rule: wf_induct_rule)
    case (less x)
    from step [OF less.prems(2)] obtain d where "d \<in> H" and "(x, d) \<in> W" by blast
    with less.prems less.IH [of d] show ?case
      by (auto simp: R_def intro: rtrancl_into_rtrancl)
  qed
  with c show False by blast
qed

end
