(* ===== verification/Deadlock_Search.thy ===== *)
theory Deadlock_Search
  imports Prelude
begin

text \<open>
  The depth-first search behind \<open>GraphKeyLocks::detectDeadLock\<close>. The code hands a visitor, an
  associative colour map and a terminator to \<open>boost::depth_first_visit\<close>; this theory holds the
  search as that function is documented (colours white, gray and black, an explicit stack of
  partially scanned vertices, the \<open>back_edge\<close> event on an edge into a gray vertex, and no
  scanning of a vertex on whose discovery the terminator answers true), together with
  the code's visitor, which sets a flag on a back edge, and its terminator, which returns that
  flag. The result is that the flag is raised exactly if a cycle can be reached.
\<close>

datatype color = White | Gray | Black

definition succs :: "('v \<times> 'v) list \<Rightarrow> 'v \<Rightarrow> 'v list" where
  "succs es u = map snd (filter (\<lambda>e. fst e = u) es)"

lemma set_succs [simp]: "set (succs es u) = set es `` {u}"
  by (force simp: succs_def)

text \<open>
  \<open>dfv_loop es stack color backEdge\<close>: the stack holds the gray vertices with the targets of
  their out-edges that are still to be examined, the most recently discovered vertex first.
\<close>

function dfv_loop ::
  "('v \<times> 'v) list \<Rightarrow> ('v \<times> 'v list) list \<Rightarrow> ('v \<Rightarrow> color) \<Rightarrow> bool \<Rightarrow> bool"
where
  "dfv_loop es [] col backEdge = backEdge"
| "dfv_loop es ((u, []) # st) col backEdge = dfv_loop es st (col(u := Black)) backEdge"
| "dfv_loop es ((u, v # vs) # st) col backEdge =
     (case col v of
        White \<Rightarrow> dfv_loop es ((v, if backEdge then [] else succs es v) # (u, vs) # st)
                   (col(v := Gray)) backEdge
      | Gray \<Rightarrow> dfv_loop es ((u, vs) # st) col True
      | Black \<Rightarrow> dfv_loop es ((u, vs) # st) col backEdge)"
  by pat_completeness auto

text \<open>
  The loop ends: discovering a vertex uses up one of the white vertices that can still be met,
  and every other step shortens what is left on the stack.
\<close>

definition pending_targets :: "('v \<times> 'v) list \<Rightarrow> ('v \<times> 'v list) list \<Rightarrow> 'v set" where
  "pending_targets es st = snd ` set es \<union> (\<Union>p \<in> set st. set (snd p))"

definition white_left :: "('v \<times> 'v) list \<Rightarrow> ('v \<times> 'v list) list \<Rightarrow> ('v \<Rightarrow> color) \<Rightarrow> nat" where
  "white_left es st col = card {v \<in> pending_targets es st. col v = White}"

definition stack_work :: "('v \<times> 'v list) list \<Rightarrow> nat" where
  "stack_work st = sum_list (map (\<lambda>p. Suc (length (snd p))) st)"

lemma finite_pending_targets [simp]: "finite (pending_targets es st)"
  by (simp add: pending_targets_def)

lemma white_left_mono:
  assumes "pending_targets es st' \<subseteq> pending_targets es st"
    and "\<And>v. col' v = White \<Longrightarrow> col v = White"
  shows "white_left es st' col' \<le> white_left es st col"
  unfolding white_left_def using assms by (intro card_mono) auto

lemma white_left_discover:
  assumes "pending_targets es st' \<subseteq> pending_targets es st"
    and "v \<in> pending_targets es st" and "col v = White"
  shows "white_left es st' (col(v := Gray)) < white_left es st col"
  unfolding white_left_def using assms
  by (intro psubset_card_mono) auto

lemma pending_targets_simps:
  "pending_targets es ((u, vs) # st) = set vs \<union> pending_targets es st"
  "snd ` set es \<subseteq> pending_targets es st"
  by (auto simp: pending_targets_def)

lemma dfv_measure:
  assumes "white_left es st' col' < white_left es st col \<or>
    white_left es st' col' \<le> white_left es st col \<and> stack_work st' < stack_work st"
  shows "((es, st', col', b'), (es, st, col, b)) \<in>
    measures [\<lambda>(es, st, col, b). white_left es st col, \<lambda>(es, st, col, b). stack_work st]"
  using assms by auto

termination dfv_loop
proof (relation "measures [\<lambda>(es, st, col, b). white_left es st col,
    \<lambda>(es, st, col, b). stack_work st]", goal_cases)
  case 1 show ?case by simp
next
  case (2 es u st col b)
  show ?case
    by (intro dfv_measure disjI2 conjI white_left_mono)
       (auto simp: pending_targets_simps stack_work_def split: if_splits)
next
  case (3 es u v vs st col b)
  show ?case
    by (intro dfv_measure disjI1 white_left_discover)
       (use 3 pending_targets_simps(2) [of es st] in \<open>auto simp: pending_targets_simps(1)\<close>)
next
  case (4 es u v vs st col b)
  show ?case
    by (intro dfv_measure disjI2 conjI white_left_mono)
       (auto simp: pending_targets_simps stack_work_def)
next
  case (5 es u v vs st col b)
  show ?case
    by (intro dfv_measure disjI2 conjI white_left_mono)
       (auto simp: pending_targets_simps stack_work_def)
qed

definition depth_first_visit :: "('v \<times> 'v) list \<Rightarrow> 'v \<Rightarrow> bool" where
  "depth_first_visit es u = dfv_loop es [(u, succs es u)] ((\<lambda>_. White)(u := Gray)) False"

text \<open>The specification: some cycle can be reached from \<open>u\<close>.\<close>

definition reaches_cycle :: "('v \<times> 'v) set \<Rightarrow> 'v \<Rightarrow> bool" where
  "reaches_cycle E u \<longleftrightarrow> (\<exists>v. (u, v) \<in> E\<^sup>* \<and> (v, v) \<in> E\<^sup>+)"

subsection \<open>A reported back edge closes a cycle\<close>

fun stack_ok :: "('v \<times> 'v) list \<Rightarrow> ('v \<times> 'v list) list \<Rightarrow> bool" where
  "stack_ok es [] = True"
| "stack_ok es ((u, vs) # st) =
     (set vs \<subseteq> set es `` {u} \<and> (st = [] \<or> (fst (hd st), u) \<in> set es) \<and> stack_ok es st)"

lemma stack_ok_path:
  "stack_ok es ((u, vs) # st) \<Longrightarrow> v \<in> fst ` set ((u, vs) # st) \<Longrightarrow> (v, u) \<in> (set es)\<^sup>*"
proof (induction st arbitrary: u vs)
  case Nil
  then show ?case by simp
next
  case (Cons p st)
  obtain w ws where p: "p = (w, ws)" by (cases p)
  show ?case
  proof (cases "v = u")
    case False
    with Cons.prems p have "(v, w) \<in> (set es)\<^sup>*"
      by (intro Cons.IH [of w ws]) auto
    moreover from Cons.prems p have "(w, u) \<in> set es" by simp
    ultimately show ?thesis by (rule rtrancl_into_rtrancl)
  qed simp
qed

definition dfv_sound_inv ::
  "('v \<times> 'v) list \<Rightarrow> 'v \<Rightarrow> ('v \<times> 'v list) list \<Rightarrow> ('v \<Rightarrow> color) \<Rightarrow> bool \<Rightarrow> bool"
where
  "dfv_sound_inv es r st col b \<longleftrightarrow>
     stack_ok es st \<and> (st \<noteq> [] \<longrightarrow> fst (last st) = r) \<and>
     (\<forall>v. col v = Gray \<longrightarrow> v \<in> fst ` set st) \<and> (b \<longrightarrow> reaches_cycle (set es) r)"

lemma back_edge_cycle:
  assumes inv: "dfv_sound_inv es r ((u, v # vs) # st) col b" and gray: "col v = Gray"
  shows "reaches_cycle (set es) r"
proof -
  let ?st = "(u, v # vs) # st"
  from inv have ok: "stack_ok es ?st" and last: "fst (last ?st) = r"
    and "\<forall>v. col v = Gray \<longrightarrow> v \<in> fst ` set ?st"
    by (auto simp: dfv_sound_inv_def)
  with gray have "v \<in> fst ` set ?st" by blast
  with ok have vu: "(v, u) \<in> (set es)\<^sup>*" by (rule stack_ok_path)
  from ok have uv: "(u, v) \<in> set es" by simp
  from last have "r \<in> fst ` set ?st" by (metis last_in_set list.distinct(1) imageI)
  with ok have "(r, u) \<in> (set es)\<^sup>*" by (rule stack_ok_path)
  with uv have "(r, v) \<in> (set es)\<^sup>*" by (meson rtrancl.rtrancl_into_rtrancl)
  moreover from vu uv have "(v, v) \<in> (set es)\<^sup>+" by (rule rtrancl_into_trancl1)
  ultimately show ?thesis by (auto simp: reaches_cycle_def)
qed

lemma dfv_loop_sound:
  "dfv_sound_inv es r st col b \<Longrightarrow> dfv_loop es st col b \<Longrightarrow> reaches_cycle (set es) r"
proof (induction es st col b rule: dfv_loop.induct)
  case (1 es col b)
  then show ?case by (simp add: dfv_sound_inv_def)
next
  case (2 es u st col b)
  from "2.prems"(1) have "dfv_sound_inv es r st (col(u := Black)) b"
    by (auto simp: dfv_sound_inv_def split: if_splits)
  then show ?case
    by (rule "2.IH") (use "2.prems"(2) in \<open>simp add: fun_upd_def\<close>)
next
  case (3 es u v vs st col b)
  show ?case
  proof (cases "col v")
    case White
    with "3.prems"(1) have "dfv_sound_inv es r ((v, if b then [] else succs es v) # (u, vs) # st)
      (col(v := Gray)) b"
      by (auto simp: dfv_sound_inv_def split: if_splits)
    then show ?thesis
      by (rule "3.IH"(1) [OF White]) (use "3.prems"(2) White in \<open>simp add: fun_upd_def\<close>)
  next
    case Gray
    with "3.prems"(1) show ?thesis by (rule back_edge_cycle)
  next
    case Black
    with "3.prems"(1) have "dfv_sound_inv es r ((u, vs) # st) col b"
      by (auto simp: dfv_sound_inv_def split: if_splits)
    then show ?thesis
      by (rule "3.IH"(3) [OF Black]) (use "3.prems"(2) Black in simp)
  qed
qed

subsection \<open>Without a back edge nothing reachable lies on a cycle\<close>

fun covered :: "('v \<times> 'v) list \<Rightarrow> ('v \<Rightarrow> color) \<Rightarrow> 'v set \<Rightarrow> ('v \<times> 'v list) list \<Rightarrow> bool" where
  "covered es col X [] = True"
| "covered es col X ((u, vs) # st) =
     (set es `` {u} \<subseteq> {v. col v = Black} \<union> set vs \<union> X \<and> covered es col {u} st)"

definition black_closed :: "('v \<times> 'v) list \<Rightarrow> ('v \<Rightarrow> color) \<Rightarrow> bool" where
  "black_closed es col \<longleftrightarrow>
     (\<forall>v w. col v = Black \<longrightarrow> (v, w) \<in> set es \<longrightarrow> col w = Black) \<and>
     (\<forall>v. col v = Black \<longrightarrow> (v, v) \<notin> (set es)\<^sup>+)"

definition dfv_complete_inv ::
  "('v \<times> 'v) list \<Rightarrow> 'v \<Rightarrow> ('v \<times> 'v list) list \<Rightarrow> ('v \<Rightarrow> color) \<Rightarrow> bool"
where
  "dfv_complete_inv es r st col \<longleftrightarrow>
     covered es col {} st \<and> black_closed es col \<and> distinct (map fst st) \<and>
     (\<forall>v. col v = Gray \<longleftrightarrow> v \<in> fst ` set st) \<and> col r \<noteq> White"

lemma covered_weaken:
  "covered es col X st \<Longrightarrow>
     {v. col v = Black} \<union> X \<subseteq> {v. col' v = Black} \<union> Y \<Longrightarrow>
     (\<And>v. col v = Black \<Longrightarrow> col' v = Black) \<Longrightarrow> covered es col' Y st"
  by (induction es col X st arbitrary: Y rule: covered.induct) auto

lemma black_closed_reach:
  assumes "black_closed es col" and "(v, w) \<in> (set es)\<^sup>*" and "col v = Black"
  shows "col w = Black"
  using assms(2,3) by (induction rule: rtrancl_induct) (use assms(1) in \<open>auto simp: black_closed_def\<close>)

lemma black_closed_finish:
  assumes closed: "black_closed es col" and succ: "\<And>w. (u, w) \<in> set es \<Longrightarrow> col w = Black"
    and "col u \<noteq> Black"
  shows "black_closed es (col(u := Black))"
proof -
  have "(u, u) \<notin> (set es)\<^sup>+"
  proof
    assume "(u, u) \<in> (set es)\<^sup>+"
    then obtain w where "(u, w) \<in> set es" and "(w, u) \<in> (set es)\<^sup>*"
      by (meson tranclD)
    with succ closed have "col u = Black" by (blast intro: black_closed_reach)
    with \<open>col u \<noteq> Black\<close> show False by simp
  qed
  with closed succ show ?thesis by (auto simp: black_closed_def)
qed

lemma dfv_loop_flag: "dfv_loop es st col True"
  by (induction es st col "True" rule: dfv_loop.induct) (auto split: color.splits)

lemma dfv_complete_finish:
  assumes "dfv_complete_inv es r ((u, []) # st) col"
  shows "dfv_complete_inv es r st (col(u := Black))"
proof -
  from assms have succ: "\<And>w. (u, w) \<in> set es \<Longrightarrow> col w = Black" and "col u = Gray"
    and cov: "covered es col {u} st" and closed: "black_closed es col"
    by (auto simp: dfv_complete_inv_def)
  from closed succ have "black_closed es (col(u := Black))"
    by (rule black_closed_finish) (simp_all add: \<open>col u = Gray\<close>)
  moreover from cov have "covered es (col(u := Black)) {} st"
    by (rule covered_weaken) auto
  ultimately show ?thesis
    using assms by (auto simp: dfv_complete_inv_def)
qed

lemma dfv_complete_discover:
  assumes "dfv_complete_inv es r ((u, v # vs) # st) col" and "col v = White"
  shows "dfv_complete_inv es r ((v, succs es v) # (u, vs) # st) (col(v := Gray))"
proof -
  have black: "{w. (col(v := Gray)) w = Black} = {w. col w = Black}"
    using assms(2) by auto
  from assms(1) have "covered es (col(v := Gray)) {u} st"
    by (auto simp: dfv_complete_inv_def assms(2) elim!: covered_weaken)
  moreover from assms(1) have "set es `` {u} \<subseteq> {w. col w = Black} \<union> set vs \<union> {v}"
    by (auto simp: dfv_complete_inv_def)
  moreover from assms have "black_closed es (col(v := Gray))"
    by (auto simp: dfv_complete_inv_def black_closed_def)
  moreover from assms have "col u = Gray" and "v \<notin> fst ` set st"
    by (auto simp: dfv_complete_inv_def)
  moreover from this assms(2) have "v \<noteq> u" by auto
  ultimately show ?thesis
    using assms black by (auto simp: dfv_complete_inv_def)
qed

lemma dfv_loop_complete:
  "dfv_complete_inv es r st col \<Longrightarrow> \<not> b \<Longrightarrow> \<not> dfv_loop es st col b \<Longrightarrow>
     \<not> reaches_cycle (set es) r"
proof (induction es st col b rule: dfv_loop.induct)
  case (1 es col b)
  then have closed: "black_closed es col" and "col r = Black"
    using color.exhaust by (auto simp: dfv_complete_inv_def)
  then have "col v = Black" if "(r, v) \<in> (set es)\<^sup>*" for v
    using that by (blast intro: black_closed_reach)
  with closed show ?case
    by (auto simp: reaches_cycle_def black_closed_def)
next
  case (2 es u st col b)
  from dfv_complete_finish [OF "2.prems"(1)] show ?case
    by (rule "2.IH") (use "2.prems"(2,3) in \<open>simp_all add: fun_upd_def\<close>)
next
  case (3 es u v vs st col b)
  show ?case
  proof (cases "col v")
    case White
    with "3.prems" have "dfv_complete_inv es r ((v, if b then [] else succs es v) # (u, vs) # st)
      (col(v := Gray))"
      by (simp add: dfv_complete_discover)
    then show ?thesis
      by (rule "3.IH"(1) [OF White]) (use "3.prems"(2,3) White in \<open>simp_all add: fun_upd_def\<close>)
  next
    case Gray
    with 3 show ?thesis by (simp add: dfv_loop_flag)
  next
    case Black
    with "3.prems"(1) have "dfv_complete_inv es r ((u, vs) # st) col"
      by (auto simp: dfv_complete_inv_def)
    with 3 Black show ?thesis by simp
  qed
qed

theorem depth_first_visit_iff: "depth_first_visit es u \<longleftrightarrow> reaches_cycle (set es) u"
proof
  assume "depth_first_visit es u"
  then show "reaches_cycle (set es) u"
    unfolding depth_first_visit_def
    by (rule dfv_loop_sound [rotated]) (auto simp: dfv_sound_inv_def split: if_splits)
next
  assume "reaches_cycle (set es) u"
  then show "depth_first_visit es u"
    unfolding depth_first_visit_def
    by (rule contrapos_pp, intro dfv_loop_complete)
       (auto simp: dfv_complete_inv_def black_closed_def split: if_splits)
qed

end
