(* ===== verification/Graph_Key_Locks.thy ===== *)
theory Graph_Key_Locks
  imports Deadlock_Search
begin

text \<open>
  The key-lock manager of \<^verbatim>\<open>GraphKeyLocks.h\<close> and \<^verbatim>\<open>GraphKeyLocks.cpp\<close>. Its state is a directed
  graph over contexts and (contract, key) pairs: an edge from a key to a context says that the
  context owns the key, an edge from a context to a key that it waits for it; every edge
  carries the call sequence number that made it.

  The Boost adjacency list is modelled by the list of its edges. Boost enumerates edges in an
  order that depends on node addresses; no result of the class depends on that order, and the
  characterisations below mention the set of edges only. A vertex descriptor is identified
  with the vertex it was created for, since \<open>m_vertexes\<close> holds one descriptor per vertex.
\<close>

subsection \<open>Vertices\<close>

type_synonym KeyLock = "string \<times> string"

datatype vertex = ContextVertex ContextID | KeyVertex string string

text \<open>\<open>std::variant\<close> orders by alternative first, then by value.\<close>

instantiation vertex :: linorder
begin

fun less_vertex :: "vertex \<Rightarrow> vertex \<Rightarrow> bool" where
  "less_vertex (ContextVertex a) (ContextVertex b) = (a < b)"
| "less_vertex (ContextVertex _) (KeyVertex _ _) = True"
| "less_vertex (KeyVertex _ _) (ContextVertex _) = False"
| "less_vertex (KeyVertex a b) (KeyVertex c d) = ((a, b) < (c, d))"

definition less_eq_vertex :: "vertex \<Rightarrow> vertex \<Rightarrow> bool" where
  "less_eq_vertex v w \<longleftrightarrow> v < w \<or> v = w"

instance
proof
  fix x y z :: vertex
  show "x < y \<longleftrightarrow> x \<le> y \<and> \<not> y \<le> x"
    by (cases x; cases y) (auto simp: less_eq_vertex_def)
  show "x \<le> x" by (simp add: less_eq_vertex_def)
  show "x \<le> z" if "x \<le> y" "y \<le> z"
    using that by (cases x; cases y; cases z) (auto simp: less_eq_vertex_def)
  show "x = y" if "x \<le> y" "y \<le> x"
    using that by (cases x; cases y) (auto simp: less_eq_vertex_def)
  show "x \<le> y \<or> y \<le> x"
    by (cases x; cases y) (auto simp: less_eq_vertex_def)
qed

end

text \<open>The heterogeneous comparisons between a stored vertex and a \<open>KeyLockView\<close>.\<close>

fun vertex_eq_view :: "vertex \<Rightarrow> KeyLock \<Rightarrow> bool" where
  "vertex_eq_view (ContextVertex _) rhs = False"
| "vertex_eq_view (KeyVertex c k) rhs = ((c, k) = rhs)"

fun vertex_less_view :: "vertex \<Rightarrow> KeyLock \<Rightarrow> bool" where
  "vertex_less_view (ContextVertex _) rhs = True"
| "vertex_less_view (KeyVertex c k) rhs = ((c, k) < rhs)"

fun view_less_vertex :: "KeyLock \<Rightarrow> vertex \<Rightarrow> bool" where
  "view_less_vertex lhs (ContextVertex _) = False"
| "view_less_vertex lhs (KeyVertex c k) = (lhs < (c, k))"

lemma view_comparisons:
  "vertex_eq_view v (c, k) \<longleftrightarrow> v = KeyVertex c k"
  "vertex_less_view v (c, k) \<longleftrightarrow> v < KeyVertex c k"
  "view_less_vertex (c, k) v \<longleftrightarrow> KeyVertex c k < v"
  by (cases v; auto)+

subsection \<open>The graph and its primitive operations\<close>

type_synonym edge = "vertex \<times> vertex \<times> Seq"

record GraphKeyLocks =
  m_vertexes :: "vertex list"
  m_edges :: "edge list"

definition empty_locks :: GraphKeyLocks where
  "empty_locks = \<lparr>m_vertexes = [], m_edges = []\<rparr>"

definition touchContext :: "ContextID \<Rightarrow> GraphKeyLocks \<Rightarrow> GraphKeyLocks" where
  "touchContext contextID g =
     g\<lparr>m_vertexes := insort_insert (ContextVertex contextID) (m_vertexes g)\<rparr>"

definition touchKeyLock :: "KeyLock \<Rightarrow> GraphKeyLocks \<Rightarrow> GraphKeyLocks" where
  "touchKeyLock view g =
     (let it = dropWhile (\<lambda>v. vertex_less_view v view) (m_vertexes g) in
      if it \<noteq> [] \<and> vertex_eq_view (hd it) view then g
      else g\<lparr>m_vertexes :=
             insort_insert (KeyVertex (fst view) (snd view)) (m_vertexes g)\<rparr>)"

definition out_edges :: "vertex \<Rightarrow> GraphKeyLocks \<Rightarrow> edge list" where
  "out_edges v g = filter (\<lambda>(s, t, q). s = v) (m_edges g)"

definition in_edges :: "vertex \<Rightarrow> GraphKeyLocks \<Rightarrow> edge list" where
  "in_edges v g = filter (\<lambda>(s, t, q). t = v) (m_edges g)"

definition edge_range :: "vertex \<Rightarrow> vertex \<Rightarrow> GraphKeyLocks \<Rightarrow> edge list" where
  "edge_range source target g = filter (\<lambda>(s, t, q). s = source \<and> t = target) (m_edges g)"

definition addEdge :: "vertex \<Rightarrow> vertex \<Rightarrow> Seq \<Rightarrow> GraphKeyLocks \<Rightarrow> GraphKeyLocks" where
  "addEdge source target seq g =
     (let exists = list_ex (\<lambda>(s, t, edgeSeq). edgeSeq = seq) (edge_range source target g) in
      if \<not> exists then g\<lparr>m_edges := m_edges g @ [(source, target, seq)]\<rparr> else g)"

definition removeEdge :: "vertex \<Rightarrow> vertex \<Rightarrow> Seq \<Rightarrow> GraphKeyLocks \<Rightarrow> GraphKeyLocks" where
  "removeEdge source target seq g =
     (case filter (\<lambda>(s, t, edgeSeq). edgeSeq = seq) (edge_range source target g) of
        [] \<Rightarrow> g
      | e # _ \<Rightarrow> g\<lparr>m_edges := remove1 e (m_edges g)\<rparr>)"

text \<open>\<open>boost::remove_edge(u, v, graph)\<close> removes every parallel edge from \<open>u\<close> to \<open>v\<close>.\<close>

definition remove_edges_between :: "vertex \<Rightarrow> vertex \<Rightarrow> GraphKeyLocks \<Rightarrow> GraphKeyLocks" where
  "remove_edges_between u v g = g\<lparr>m_edges := filter (\<lambda>(s, t, q). \<not> (s = u \<and> t = v)) (m_edges g)\<rparr>"

subsection \<open>Acquiring and releasing\<close>

text \<open>The scan of a key's owners: \<open>std::get<0>\<close> throws on a vertex that is not a context.\<close>

fun heldByOther :: "ContextID \<Rightarrow> vertex list \<Rightarrow> exn + bool" where
  "heldByOther contextID [] = Inr False"
| "heldByOther contextID (ContextVertex c # vs) =
     (if c \<noteq> contextID then Inr True else heldByOther contextID vs)"
| "heldByOther contextID (KeyVertex _ _ # vs) = Inl BadVariantAccess"

definition acquireKeyLock ::
  "string \<Rightarrow> string \<Rightarrow> ContextID \<Rightarrow> Seq \<Rightarrow> GraphKeyLocks \<Rightarrow> (exn + bool) \<times> GraphKeyLocks"
where
  "acquireKeyLock contract key contextID seq g =
     (let g = touchContext contextID (touchKeyLock (contract, key) g);
          keyVertex = KeyVertex contract key;
          contextVertex = ContextVertex contextID
      in case heldByOther contextID (map (\<lambda>(s, t, q). t) (out_edges keyVertex g)) of
           Inl e \<Rightarrow> (Inl e, g)
         | Inr True \<Rightarrow> (Inr False, addEdge contextVertex keyVertex seq g)
         | Inr False \<Rightarrow>
             (Inr True,
              addEdge keyVertex contextVertex seq
                (remove_edges_between contextVertex keyVertex g)))"

fun batchAcquireKeyLock ::
  "string \<Rightarrow> string list \<Rightarrow> ContextID \<Rightarrow> Seq \<Rightarrow> GraphKeyLocks \<Rightarrow> (exn + bool) \<times> GraphKeyLocks"
where
  "batchAcquireKeyLock contract [] contextID seq g = (Inr True, g)"
| "batchAcquireKeyLock contract (it # keys) contextID seq g =
     (case acquireKeyLock contract it contextID seq g of
        (Inl e, g') \<Rightarrow> (Inl e, g')
      | (Inr False, g') \<Rightarrow> (Inl (Throw UnexpectedKeyLockError), g')
      | (Inr True, g') \<Rightarrow> batchAcquireKeyLock contract keys contextID seq g')"

fun notHoldingKey :: "string \<Rightarrow> ContextID \<Rightarrow> edge \<Rightarrow> string option" where
  "notHoldingKey contract excludeContextID (KeyVertex c k, ContextVertex d, q) =
     (if d \<noteq> excludeContextID \<and> c = contract then Some k else None)"
| "notHoldingKey contract excludeContextID _ = None"

definition getKeyLocksNotHoldingByContext ::
  "string \<Rightarrow> ContextID \<Rightarrow> GraphKeyLocks \<Rightarrow> string list"
where
  "getKeyLocksNotHoldingByContext contract excludeContextID g =
     sorted_list_of_set (set (List.map_filter (notHoldingKey contract excludeContextID) (m_edges g)))"

text \<open>
  The lambda \<open>edgeRemoveFunc\<close>: walk a range of edges (here given by a predicate), remove those
  with the sequence number, and tell whether all of the range went.
\<close>

definition edgeRemoveFunc ::
  "Seq \<Rightarrow> (edge \<Rightarrow> bool) \<Rightarrow> GraphKeyLocks \<Rightarrow> bool \<times> GraphKeyLocks"
where
  "edgeRemoveFunc seq inRange g =
     (let range = filter inRange (m_edges g);
          total = length range;
          removed = length (filter (\<lambda>(s, t, edgeSeq). edgeSeq = seq) range)
      in (total = removed,
          g\<lparr>m_edges := filter (\<lambda>e. \<not> (inRange e \<and> snd (snd e) = seq)) (m_edges g)\<rparr>))"

definition releaseKeyLocks :: "ContextID \<Rightarrow> Seq \<Rightarrow> GraphKeyLocks \<Rightarrow> GraphKeyLocks" where
  "releaseKeyLocks contextID seq g =
     (let vertex = ContextVertex contextID;
          g = touchContext contextID g;
          (clearedIn, g) = edgeRemoveFunc seq (\<lambda>(s, t, q). t = vertex) g;
          (clearedOut, g) = edgeRemoveFunc seq (\<lambda>(s, t, q). s = vertex) g
      in if clearedIn \<and> clearedOut then g\<lparr>m_vertexes := remove1 vertex (m_vertexes g)\<rparr> else g)"

definition detectDeadLock :: "ContextID \<Rightarrow> GraphKeyLocks \<Rightarrow> bool" where
  "detectDeadLock contextID g =
     (if ContextVertex contextID \<notin> set (m_vertexes g) then False
      else if length (in_edges (ContextVertex contextID) g) = 0 then False
      else depth_first_visit (map (\<lambda>(s, t, q). (s, t)) (m_edges g)) (ContextVertex contextID))"

subsection \<open>Lookup by view and by vertex agree\<close>

lemma dropWhile_less_hd:
  assumes "sorted_wrt (<) (xs :: 'a::linorder list)"
  shows "(dropWhile (\<lambda>v. v < k) xs \<noteq> [] \<and> hd (dropWhile (\<lambda>v. v < k) xs) = k) \<longleftrightarrow> k \<in> set xs"
  using assms by (induction xs) auto

lemma touchKeyLock_eq:
  assumes "sorted_wrt (<) (m_vertexes g)"
  shows "touchKeyLock (c, k) g =
    g\<lparr>m_vertexes := insort_insert (KeyVertex c k) (m_vertexes g)\<rparr>"
  using dropWhile_less_hd [OF assms, of "KeyVertex c k"]
  by (simp add: touchKeyLock_def Let_def view_comparisons insort_insert_key_def)

lemma m_edges_touch [simp]:
  "m_edges (touchContext c g) = m_edges g" "m_edges (touchKeyLock v g) = m_edges g"
  by (simp_all add: touchContext_def touchKeyLock_def Let_def)

subsection \<open>Effect of the primitives on the set of edges\<close>

lemma m_vertexes_edge_ops [simp]:
  "m_vertexes (addEdge s t q g) = m_vertexes g"
  "m_vertexes (remove_edges_between s t g) = m_vertexes g"
  "m_vertexes (removeEdge s t q g) = m_vertexes g"
  by (simp_all add: addEdge_def remove_edges_between_def removeEdge_def Let_def split: list.splits)

lemma addEdge_edges: 
  "m_edges (addEdge s t q g) =
     (if (s, t, q) \<in> set (m_edges g) then m_edges g else m_edges g @ [(s, t, q)])"
  by (auto simp: addEdge_def edge_range_def list_ex_iff Let_def)

lemma set_addEdge [simp]: "set (m_edges (addEdge s t q g)) = insert (s, t, q) (set (m_edges g))"
  by (auto simp: addEdge_edges)

lemma set_remove_edges_between [simp]:
  "set (m_edges (remove_edges_between u v g)) = {(s, t, q) \<in> set (m_edges g). \<not> (s = u \<and> t = v)}"
  by (auto simp: remove_edges_between_def)

lemma set_removeEdge:
  assumes "distinct (m_edges g)"
  shows "set (m_edges (removeEdge s t q g)) = set (m_edges g) - {(s, t, q)}"
proof (cases "filter (\<lambda>(x, y, r). r = q) (edge_range s t g)")
  case Nil
  then have "(s, t, q) \<notin> set (m_edges g)"
    by (auto simp: edge_range_def filter_empty_conv)
  with Nil show ?thesis by (simp add: removeEdge_def)
next
  case (Cons e es)
  then have "e \<in> set (filter (\<lambda>(x, y, r). r = q) (edge_range s t g))" by simp
  then have "e = (s, t, q)" by (auto simp: edge_range_def)
  with Cons assms show ?thesis by (simp add: removeEdge_def)
qed

subsection \<open>The lock table: an abstract specification\<close>

text \<open>
  What the class promises is a table of owned and of requested keys, each entry with the
  context and the sequence number it belongs to.
\<close>

record lock_table =
  held :: "(KeyLock \<times> ContextID \<times> Seq) set"
  wait :: "(KeyLock \<times> ContextID \<times> Seq) set"

definition spec_acquire ::
  "KeyLock \<Rightarrow> ContextID \<Rightarrow> Seq \<Rightarrow> lock_table \<Rightarrow> bool \<times> lock_table"
where
  "spec_acquire k c q t =
     (if \<exists>d r. (k, d, r) \<in> held t \<and> d \<noteq> c
      then (False, t\<lparr>wait := insert (k, c, q) (wait t)\<rparr>)
      else (True, t\<lparr>held := insert (k, c, q) (held t), wait := wait t - {k} \<times> {c} \<times> UNIV\<rparr>))"

definition spec_release :: "ContextID \<Rightarrow> Seq \<Rightarrow> lock_table \<Rightarrow> lock_table" where
  "spec_release c q t =
     t\<lparr>held := held t - UNIV \<times> {c} \<times> {q}, wait := wait t - UNIV \<times> {c} \<times> {q}\<rparr>"

definition lock_table_of :: "GraphKeyLocks \<Rightarrow> lock_table" where
  "lock_table_of g =
     \<lparr>held = {((a, b), c, q). (KeyVertex a b, ContextVertex c, q) \<in> set (m_edges g)},
      wait = {((a, b), c, q). (ContextVertex c, KeyVertex a b, q) \<in> set (m_edges g)}\<rparr>"

subsection \<open>The invariant\<close>

fun bipartite_edge :: "edge \<Rightarrow> bool" where
  "bipartite_edge (KeyVertex _ _, ContextVertex _, _) = True"
| "bipartite_edge (ContextVertex _, KeyVertex _ _, _) = True"
| "bipartite_edge _ = False"

definition exclusive :: "lock_table \<Rightarrow> bool" where
  "exclusive t \<longleftrightarrow>
     (\<forall>k c d q r. (k, c, q) \<in> held t \<longrightarrow> (k, d, r) \<in> held t \<longrightarrow> c = d) \<and>
     (\<forall>k c q r. (k, c, q) \<in> held t \<longrightarrow> (k, c, r) \<notin> wait t)"

definition kl_inv :: "GraphKeyLocks \<Rightarrow> bool" where
  "kl_inv g \<longleftrightarrow>
     sorted_wrt (<) (m_vertexes g) \<and> distinct (m_edges g) \<and>
     (\<forall>(s, t, q) \<in> set (m_edges g).
        bipartite_edge (s, t, q) \<and> s \<in> set (m_vertexes g) \<and> t \<in> set (m_vertexes g)) \<and>
     exclusive (lock_table_of g)"

lemma kl_inv_empty [inv_intros]: "kl_inv empty_locks"
  by (simp add: kl_inv_def empty_locks_def lock_table_of_def exclusive_def)

lemma kl_inv_sorted: "kl_inv g \<Longrightarrow> sorted_wrt (<) (m_vertexes g)"
  by (simp add: kl_inv_def)

lemma kl_inv_exclusive: "kl_inv g \<Longrightarrow> exclusive (lock_table_of g)"
  by (simp add: kl_inv_def)

lemma bipartite_edge_cases:
  assumes "bipartite_edge (s, t, q)"
  obtains a b c where "s = KeyVertex a b" "t = ContextVertex c"
    | a b c where "s = ContextVertex c" "t = KeyVertex a b"
  using assms by (cases s; cases t) auto

lemma kl_inv_edge:
  assumes "kl_inv g" "(s, t, q) \<in> set (m_edges g)"
  shows "bipartite_edge (s, t, q)" "s \<in> set (m_vertexes g)" "t \<in> set (m_vertexes g)"
  using assms by (auto simp: kl_inv_def)

lemma sorted_insort_insert_less:
  "sorted_wrt (<) (xs :: 'a::linorder list) \<Longrightarrow> sorted_wrt (<) (insort_insert x xs)"
  by (simp add: strict_sorted_iff sorted_insort_insert distinct_insort_insert)

text \<open>Under the invariant every out-edge of a key leads to a context, so the scan never throws.\<close>

lemma heldByOther_contexts:
  "(\<And>v. v \<in> set vs \<Longrightarrow> \<exists>c. v = ContextVertex c) \<Longrightarrow>
     heldByOther x vs = Inr (\<exists>c. ContextVertex c \<in> set vs \<and> c \<noteq> x)"
proof (induction x vs rule: heldByOther.induct)
  case (2 x c vs)
  then show ?case by (cases "c = x") auto
next
  case (3 x a b vs)
  from "3.prems" [of "KeyVertex a b"] show ?case by simp
qed simp

lemma heldByOther_out_edges:
  assumes "kl_inv g"
  shows "heldByOther x (map (\<lambda>(s, t, q). t) (out_edges (KeyVertex a b) g)) =
    Inr (\<exists>d r. ((a, b), d, r) \<in> held (lock_table_of g) \<and> d \<noteq> x)"
proof -
  have "\<exists>c. v = ContextVertex c" if "v \<in> set (map (\<lambda>(s, t, q). t) (out_edges (KeyVertex a b) g))" for v
    using that kl_inv_edge(1) [OF assms]
    by (fastforce simp: out_edges_def elim: bipartite_edge.elims)
  then show ?thesis
    by (subst heldByOther_contexts) (force simp: out_edges_def lock_table_of_def)+
qed

subsection \<open>Acquire and release refine the specification\<close>

definition touched :: "string \<Rightarrow> string \<Rightarrow> ContextID \<Rightarrow> GraphKeyLocks \<Rightarrow> GraphKeyLocks" where
  "touched a b c g = touchContext c (touchKeyLock (a, b) g)"

lemma touched_edges [simp]: "m_edges (touched a b c g) = m_edges g"
  by (simp add: touched_def)

lemma touched_vertexes:
  "kl_inv g \<Longrightarrow>
     m_vertexes (touched a b c g) =
       insort_insert (ContextVertex c) (insort_insert (KeyVertex a b) (m_vertexes g))"
  by (simp add: touched_def touchContext_def touchKeyLock_eq kl_inv_sorted)

lemma lock_table_cong: "m_edges g = m_edges g' \<Longrightarrow> lock_table_of g = lock_table_of g'"
  by (simp add: lock_table_of_def)

lemma kl_inv_touched: "kl_inv g \<Longrightarrow> kl_inv (touched a b c g)"
  using lock_table_cong [of "touched a b c g" g]
  by (auto simp: kl_inv_def touched_vertexes set_insort_insert intro!: sorted_insort_insert_less)

lemma kl_invI_edges:
  assumes "kl_inv g" and "m_vertexes g' = m_vertexes g" and "distinct (m_edges g')"
    and "\<And>s t q. (s, t, q) \<in> set (m_edges g') \<Longrightarrow> (s, t, q) \<notin> set (m_edges g) \<Longrightarrow>
           bipartite_edge (s, t, q) \<and> s \<in> set (m_vertexes g) \<and> t \<in> set (m_vertexes g)"
    and "exclusive (lock_table_of g')"
  shows "kl_inv g'"
  using assms unfolding kl_inv_def by (auto split: prod.splits) blast+

lemma exclusive_acquire: "exclusive t \<Longrightarrow> exclusive (snd (spec_acquire k c q t))"
  by (auto simp: spec_acquire_def exclusive_def) blast+

lemma exclusive_mono: "exclusive t \<Longrightarrow> held t' \<subseteq> held t \<Longrightarrow> wait t' \<subseteq> wait t \<Longrightarrow> exclusive t'"
  unfolding exclusive_def by (meson subsetD)

lemma exclusive_release: "exclusive t \<Longrightarrow> exclusive (spec_release c q t)"
  by (rule exclusive_mono) (auto simp: spec_release_def)

lemma acquireKeyLock_unfold:
  assumes "kl_inv g"
  shows "acquireKeyLock a b c q g =
    (if \<exists>d r. ((a, b), d, r) \<in> held (lock_table_of g) \<and> d \<noteq> c
     then (Inr False, addEdge (ContextVertex c) (KeyVertex a b) q (touched a b c g))
     else (Inr True, addEdge (KeyVertex a b) (ContextVertex c) q
             (remove_edges_between (ContextVertex c) (KeyVertex a b) (touched a b c g))))"
proof -
  let ?other = "\<exists>d r. ((a, b), d, r) \<in> held (lock_table_of g) \<and> d \<noteq> c"
  have "heldByOther c (map (\<lambda>(s, t, q). t) (out_edges (KeyVertex a b) (touched a b c g))) =
      Inr ?other"
    using heldByOther_out_edges [OF kl_inv_touched [OF assms], of c a b a b c]
      lock_table_cong [of "touched a b c g" g] by simp
  then show ?thesis
    by (cases ?other) (simp_all only: acquireKeyLock_def Let_def touched_def sum.case bool.case
        if_True if_False)
qed

lemma acquireKeyLock_refines:
  assumes "kl_inv g"
  shows "fst (acquireKeyLock a b c q g) = Inr (fst (spec_acquire (a, b) c q (lock_table_of g)))"
    and "lock_table_of (snd (acquireKeyLock a b c q g)) =
      snd (spec_acquire (a, b) c q (lock_table_of g))"
  by (auto simp: acquireKeyLock_unfold [OF assms] spec_acquire_def lock_table_of_def)

lemma distinct_addEdge: "distinct (m_edges g) \<Longrightarrow> distinct (m_edges (addEdge s t q g))"
  by (auto simp: addEdge_edges)

lemma distinct_remove_edges_between:
  "distinct (m_edges g) \<Longrightarrow> distinct (m_edges (remove_edges_between s t g))"
  by (simp add: remove_edges_between_def)

lemma kl_inv_acquire [inv_intros]:
  assumes "kl_inv g"
  shows "kl_inv (snd (acquireKeyLock a b c q g))"
proof (rule kl_invI_edges)
  show touched: "kl_inv (touched a b c g)" using assms by (rule kl_inv_touched)
  show "m_vertexes (snd (acquireKeyLock a b c q g)) = m_vertexes (touched a b c g)"
    by (simp add: acquireKeyLock_unfold [OF assms])
  from touched have "distinct (m_edges (touched a b c g))" by (simp add: kl_inv_def)
  then show "distinct (m_edges (snd (acquireKeyLock a b c q g)))"
    by (simp add: acquireKeyLock_unfold [OF assms] distinct_addEdge distinct_remove_edges_between
        del: touched_edges)
  show "exclusive (lock_table_of (snd (acquireKeyLock a b c q g)))"
    using assms by (simp add: acquireKeyLock_refines exclusive_acquire kl_inv_def)
  show "bipartite_edge (s, t, r) \<and> s \<in> set (m_vertexes (touched a b c g)) \<and>
      t \<in> set (m_vertexes (touched a b c g))"
    if "(s, t, r) \<in> set (m_edges (snd (acquireKeyLock a b c q g)))"
      "(s, t, r) \<notin> set (m_edges (touched a b c g))" for s t r
    using that
    by (auto simp: acquireKeyLock_unfold [OF assms] touched_vertexes [OF assms] set_insort_insert
        split: if_splits)
qed

lemma releaseKeyLocks_edges:
  "m_edges (releaseKeyLocks c q g) =
     filter (\<lambda>(s, t, r). \<not> ((s = ContextVertex c \<or> t = ContextVertex c) \<and> r = q)) (m_edges g)"
  by (auto simp: releaseKeyLocks_def edgeRemoveFunc_def Let_def case_prod_beta
      intro!: filter_cong)

lemma releaseKeyLocks_refines:
  "lock_table_of (releaseKeyLocks c q g) = spec_release c q (lock_table_of g)"
  by (auto simp: lock_table_of_def releaseKeyLocks_edges spec_release_def)

text \<open>A range loses all its edges exactly if every edge in it has the released number.\<close>

lemma edgeRemoveFunc_cleared:
  "fst (edgeRemoveFunc q P g) \<longleftrightarrow> (\<forall>(s, t, r) \<in> set (m_edges g). P (s, t, r) \<longrightarrow> r = q)"
  by (auto simp: edgeRemoveFunc_def Let_def length_filter_all)

definition uses_context :: "ContextID \<Rightarrow> edge \<Rightarrow> bool" where
  "uses_context c = (\<lambda>(s, t, r). s = ContextVertex c \<or> t = ContextVertex c)"

text \<open>The context's vertex goes exactly when no edge of the context is left.\<close>

lemma releaseKeyLocks_vertexes:
  assumes "kl_inv g"
  shows "m_vertexes (releaseKeyLocks c q g) =
    (if \<exists>e \<in> set (m_edges (releaseKeyLocks c q g)). uses_context c e
     then insort_insert (ContextVertex c) (m_vertexes g)
     else remove1 (ContextVertex c) (insort_insert (ContextVertex c) (m_vertexes g)))"
proof -
  let ?v = "ContextVertex c" and ?g = "touchContext c g"
  let ?in = "\<lambda>(s, t, q). t = ?v" and ?out = "\<lambda>(s, t, q). s = ?v"
  let ?g' = "snd (edgeRemoveFunc q ?in ?g)"
  have no_loop: "(?v, ?v, r) \<notin> set (m_edges g)" for r
    using kl_inv_edge(1) [OF assms, of ?v ?v r] by auto
  have "fst (edgeRemoveFunc q ?in ?g) \<and> fst (edgeRemoveFunc q ?out ?g') \<longleftrightarrow>
      \<not> (\<exists>e \<in> set (m_edges (releaseKeyLocks c q g)). uses_context c e)"
    unfolding edgeRemoveFunc_cleared using no_loop
    by (fastforce simp: edgeRemoveFunc_def Let_def releaseKeyLocks_edges uses_context_def)
  then show ?thesis
    by (auto simp: releaseKeyLocks_def Let_def case_prod_beta)
       (simp_all add: edgeRemoveFunc_def touchContext_def Let_def)
qed

lemma kl_inv_release [inv_intros]:
  assumes "kl_inv g"
  shows "kl_inv (releaseKeyLocks c q g)"
proof -
  let ?g = "releaseKeyLocks c q g" and ?vs = "insort_insert (ContextVertex c) (m_vertexes g)"
  have sorted: "sorted_wrt (<) ?vs"
    using assms by (simp add: sorted_insort_insert_less kl_inv_sorted)
  have vs: "set (remove1 (ContextVertex c) ?vs) = set ?vs - {ContextVertex c}"
    using sorted by (simp add: strict_sorted_iff set_remove1_eq)
  have "sorted_wrt (<) (m_vertexes ?g)"
    using sorted by (simp add: releaseKeyLocks_vertexes [OF assms] strict_sorted_iff sorted_remove1)
  moreover have "distinct (m_edges ?g)" and "exclusive (lock_table_of ?g)"
    using assms
    by (simp_all add: releaseKeyLocks_edges kl_inv_def releaseKeyLocks_refines exclusive_release)
  moreover have "bipartite_edge (s, t, r) \<and> s \<in> set (m_vertexes ?g) \<and> t \<in> set (m_vertexes ?g)"
    if e: "(s, t, r) \<in> set (m_edges ?g)" for s t r
  proof -
    from e have "(s, t, r) \<in> set (m_edges g)" by (simp add: releaseKeyLocks_edges)
    note old = kl_inv_edge [OF assms this]
    show ?thesis
    proof (cases "\<exists>e \<in> set (m_edges ?g). uses_context c e")
      case True
      then have "m_vertexes ?g = ?vs" by (simp add: releaseKeyLocks_vertexes [OF assms])
      with old show ?thesis by (simp add: set_insort_insert)
    next
      case False
      then have "m_vertexes ?g = remove1 (ContextVertex c) ?vs"
        by (simp add: releaseKeyLocks_vertexes [OF assms])
      moreover from False e have "s \<noteq> ContextVertex c" "t \<noteq> ContextVertex c"
        by (fastforce simp: uses_context_def)+
      ultimately show ?thesis using old vs by (simp add: set_insort_insert)
    qed
  qed
  ultimately show ?thesis by (auto simp: kl_inv_def)
qed

lemma batchAcquire_inv [inv_intros]:
  "kl_inv g \<Longrightarrow> kl_inv (snd (batchAcquireKeyLock a ks c q g))"
proof (induction a ks c q g rule: batchAcquireKeyLock.induct)
  case (2 a k ks c q g)
  have "kl_inv (snd (acquireKeyLock a k c q g))"
    using "2.prems" by (rule kl_inv_acquire)
  then show ?case
    using "2.IH" by (auto split: prod.splits sum.splits bool.splits)
qed simp

text \<open>The keys that are reported for a context: those of the contract that another one owns.\<close>

lemma set_getKeyLocksNotHolding:
  "set (getKeyLocksNotHoldingByContext a c g) =
     {b. \<exists>d r. ((a, b), d, r) \<in> held (lock_table_of g) \<and> d \<noteq> c}"
proof -
  have "notHoldingKey a c e = Some b \<longleftrightarrow>
      (\<exists>d r. e = (KeyVertex a b, ContextVertex d, r) \<and> d \<noteq> c)" for e b
    by (cases "(a, c, e)" rule: notHoldingKey.cases) auto
  then show ?thesis
    by (force simp: getKeyLocksNotHoldingByContext_def lock_table_of_def map_filter_def)
qed

lemma getKeyLocksNotHolding_sorted:
  "sorted_wrt (<) (getKeyLocksNotHoldingByContext a c g)"
  by (simp add: getKeyLocksNotHoldingByContext_def strict_sorted_iff)

subsection \<open>The interface that the block executive relies on\<close>

locale key_lock_manager =
  fixes acquire :: "string \<Rightarrow> string \<Rightarrow> ContextID \<Rightarrow> Seq \<Rightarrow> 's \<Rightarrow> (exn + bool) \<times> 's"
    and release :: "ContextID \<Rightarrow> Seq \<Rightarrow> 's \<Rightarrow> 's"
    and foreign_keys :: "string \<Rightarrow> ContextID \<Rightarrow> 's \<Rightarrow> string list"
    and table :: "'s \<Rightarrow> lock_table"
    and inv :: "'s \<Rightarrow> bool"
  assumes acquire_result: "inv s \<Longrightarrow> fst (acquire a b c q s) = Inr (fst (spec_acquire (a, b) c q (table s)))"
    and acquire_table: "inv s \<Longrightarrow> table (snd (acquire a b c q s)) = snd (spec_acquire (a, b) c q (table s))"
    and release_table: "inv s \<Longrightarrow> table (release c q s) = spec_release c q (table s)"
    and foreign_keys_table:
      "set (foreign_keys a c s) = {b. \<exists>d r. ((a, b), d, r) \<in> held (table s) \<and> d \<noteq> c}"
    and inv_acquire: "inv s \<Longrightarrow> inv (snd (acquire a b c q s))"
    and inv_release: "inv s \<Longrightarrow> inv (release c q s)"
    and inv_exclusive: "inv s \<Longrightarrow> exclusive (table s)"
begin

lemma acquire_iff_not_foreign:
  "inv s \<Longrightarrow> fst (acquire a b c q s) = Inr (b \<notin> set (foreign_keys a c s))"
  by (auto simp: acquire_result spec_acquire_def foreign_keys_table)

lemma acquired_is_held:
  assumes "inv s" and "fst (acquire a b c q s) = Inr True"
  shows "((a, b), c, q) \<in> held (table (snd (acquire a b c q s)))"
  using assms by (auto simp: acquire_result acquire_table spec_acquire_def split: if_splits)

lemma held_excludes_others:
  assumes "inv s" and "((a, b), c, q) \<in> held (table s)" and "d \<noteq> c"
  shows "fst (acquire a b d r s) = Inr False"
  using assms by (auto simp: acquire_result spec_acquire_def)

lemma acquire_keeps_held:
  assumes "inv s" and "e \<in> held (table s)"
  shows "e \<in> held (table (snd (acquire a b c q s)))"
  using assms by (auto simp: acquire_table spec_acquire_def)

lemma release_keeps_other_seq:
  assumes "inv s" and "(k, c, q) \<in> held (table s)" and "(c, q) \<noteq> (d, r)"
  shows "(k, c, q) \<in> held (table (release d r s))"
  using assms by (auto simp: release_table spec_release_def)

lemma release_forgets:
  assumes "inv s"
  shows "(k, c, q) \<notin> held (table (release c q s))" "(k, c, q) \<notin> wait (table (release c q s))"
  using assms by (auto simp: release_table spec_release_def)

lemma acquire_after_last_release:
  assumes "inv s" and "\<And>d r. ((a, b), d, r) \<in> held (table s) \<Longrightarrow> d = c \<and> r = q"
  shows "fst (acquire a b d p (release c q s)) = Inr True"
  using assms by (auto simp: acquire_result inv_release release_table spec_release_def spec_acquire_def)

end

interpretation kl: key_lock_manager acquireKeyLock releaseKeyLocks
  getKeyLocksNotHoldingByContext lock_table_of kl_inv
  by unfold_locales
     (auto simp: acquireKeyLock_refines releaseKeyLocks_refines set_getKeyLocksNotHolding
       kl_inv_acquire kl_inv_release kl_inv_exclusive)

lemma batchAcquireKeyLock_result:
  "kl_inv g \<Longrightarrow>
     fst (batchAcquireKeyLock a ks c q g) =
       (if set ks \<inter> set (getKeyLocksNotHoldingByContext a c g) = {} then Inr True
        else Inl (Throw UnexpectedKeyLockError))"
proof (induction a ks c q g rule: batchAcquireKeyLock.induct)
  case (2 a k ks c q g)
  let ?foreign = "\<lambda>g. set (getKeyLocksNotHoldingByContext a c g)"
  obtain g' where eq: "acquireKeyLock a k c q g = (Inr (k \<notin> ?foreign g), g')"
    using kl.acquire_iff_not_foreign [OF "2.prems"] by (metis prod.collapse)
  then have g': "g' = snd (acquireKeyLock a k c q g)" by simp
  have "kl_inv g'" unfolding g' using "2.prems" by (rule kl_inv_acquire)
  moreover have "?foreign g' = ?foreign g"
    using "2.prems" unfolding g'
    by (auto simp: kl.foreign_keys_table kl.acquire_table spec_acquire_def)
  ultimately show ?case
    using "2.IH" [OF eq [symmetric]] by (cases "k \<in> ?foreign g") (simp_all add: eq)
qed simp

subsection \<open>Dead locks\<close>

definition waits_for :: "lock_table \<Rightarrow> (ContextID \<times> ContextID) set" where
  "waits_for t = {(c, d). \<exists>k q r. (k, c, q) \<in> wait t \<and> (k, d, r) \<in> held t}"

definition holders :: "lock_table \<Rightarrow> ContextID set" where
  "holders t = {c. \<exists>k q. (k, c, q) \<in> held t}"

definition arcs :: "GraphKeyLocks \<Rightarrow> (vertex \<times> vertex) set" where
  "arcs g = set (map (\<lambda>(s, t, q). (s, t)) (m_edges g))"

lemma arcs_table:
  "(KeyVertex a b, ContextVertex c) \<in> arcs g \<longleftrightarrow> (\<exists>q. ((a, b), c, q) \<in> held (lock_table_of g))"
  "(ContextVertex c, KeyVertex a b) \<in> arcs g \<longleftrightarrow> (\<exists>q. ((a, b), c, q) \<in> wait (lock_table_of g))"
  by (force simp: arcs_def lock_table_of_def)+

lemma arcs_bipartite:
  assumes "kl_inv g"
  shows "(ContextVertex c, ContextVertex d) \<notin> arcs g"
    and "(KeyVertex a b, KeyVertex a' b') \<notin> arcs g"
  using kl_inv_edge(1) [OF assms] by (force simp: arcs_def)+

text \<open>A path in the graph that starts at a context is a path of the wait-for relation.\<close>

fun wait_path :: "GraphKeyLocks \<Rightarrow> ContextID \<Rightarrow> vertex \<Rightarrow> bool" where
  "wait_path g c (ContextVertex d) = ((c, d) \<in> (waits_for (lock_table_of g))\<^sup>*)"
| "wait_path g c (KeyVertex a b) =
     (\<exists>d. (c, d) \<in> (waits_for (lock_table_of g))\<^sup>* \<and> (ContextVertex d, KeyVertex a b) \<in> arcs g)"

lemma wait_path_step:
  assumes "kl_inv g" and "wait_path g c v" and "(v, w) \<in> arcs g"
  shows "wait_path g c w"
proof (cases v)
  case (ContextVertex d)
  then show ?thesis
    using assms by (cases w) (auto simp: arcs_bipartite)
next
  case (KeyVertex a b)
  with assms obtain d e where "w = ContextVertex e" and cd: "(c, d) \<in> (waits_for (lock_table_of g))\<^sup>*"
    and "(ContextVertex d, KeyVertex a b) \<in> arcs g" "(KeyVertex a b, ContextVertex e) \<in> arcs g"
    by (cases w) (auto simp: arcs_bipartite)
  moreover from this have "(d, e) \<in> waits_for (lock_table_of g)"
    by (auto simp: arcs_table waits_for_def)
  ultimately show ?thesis by (simp add: rtrancl_into_rtrancl)
qed

lemma arcs_path:
  assumes "kl_inv g" and "(ContextVertex c, v) \<in> (arcs g)\<^sup>*"
  shows "wait_path g c v"
  using assms(2) by (induction rule: rtrancl_induct) (auto intro: wait_path_step [OF assms(1)])

lemma arcs_cycle:
  assumes "kl_inv g" and "(ContextVertex c, ContextVertex d) \<in> (arcs g)\<^sup>+"
  shows "(c, d) \<in> (waits_for (lock_table_of g))\<^sup>+"
proof -
  from assms(2) obtain v where "(ContextVertex c, v) \<in> (arcs g)\<^sup>*" and v: "(v, ContextVertex d) \<in> arcs g"
    by (meson tranclD2)
  then have "wait_path g c v" by (intro arcs_path assms(1))
  with v obtain a b e where "v = KeyVertex a b" and ce: "(c, e) \<in> (waits_for (lock_table_of g))\<^sup>*"
    and "(ContextVertex e, KeyVertex a b) \<in> arcs g"
    by (cases v) (auto simp: arcs_bipartite [OF assms(1)])
  with v have "(e, d) \<in> waits_for (lock_table_of g)"
    by (auto simp: arcs_table waits_for_def)
  with ce show ?thesis by (rule rtrancl_into_trancl1)
qed

lemma waits_for_arcs:
  assumes "(c, d) \<in> waits_for (lock_table_of g)"
  shows "(ContextVertex c, ContextVertex d) \<in> (arcs g)\<^sup>+"
proof -
  from assms obtain a b where "(ContextVertex c, KeyVertex a b) \<in> arcs g"
    and "(KeyVertex a b, ContextVertex d) \<in> arcs g"
    by (auto simp: waits_for_def arcs_table)
  then show ?thesis by (meson trancl.intros)
qed

lemma waits_for_arcs_trancl:
  "(c, d) \<in> (waits_for (lock_table_of g))\<^sup>+ \<Longrightarrow> (ContextVertex c, ContextVertex d) \<in> (arcs g)\<^sup>+"
  by (induction rule: trancl_induct) (auto intro: waits_for_arcs trancl_trans)

lemma reaches_cycle_arcs:
  assumes "kl_inv g"
  shows "reaches_cycle (arcs g) (ContextVertex c) \<longleftrightarrow>
    reaches_cycle (waits_for (lock_table_of g)) c"
proof
  assume "reaches_cycle (arcs g) (ContextVertex c)"
  then obtain v where cv: "(ContextVertex c, v) \<in> (arcs g)\<^sup>*" and vv: "(v, v) \<in> (arcs g)\<^sup>+"
    by (auto simp: reaches_cycle_def)
  show "reaches_cycle (waits_for (lock_table_of g)) c"
  proof (cases v)
    case (ContextVertex d)
    with cv vv assms arcs_path [of g c v] show ?thesis
      by (auto simp: reaches_cycle_def dest: arcs_cycle)
  next
    case (KeyVertex a b)
    from vv obtain w where w: "(v, w) \<in> arcs g" "(w, v) \<in> (arcs g)\<^sup>*" by (meson tranclD)
    with KeyVertex obtain d where d: "w = ContextVertex d"
      by (cases w) (auto simp: arcs_bipartite [OF assms])
    from w have "(w, w) \<in> (arcs g)\<^sup>+" by (meson rtrancl_into_trancl1)
    moreover from cv w(1) have "(ContextVertex c, w) \<in> (arcs g)\<^sup>*" by (rule rtrancl_into_rtrancl)
    ultimately show ?thesis
      using d assms arcs_path [of g c w] by (auto simp: reaches_cycle_def dest: arcs_cycle)
  qed
next
  assume "reaches_cycle (waits_for (lock_table_of g)) c"
  then obtain d where "(c, d) \<in> (waits_for (lock_table_of g))\<^sup>*"
    and dd: "(d, d) \<in> (waits_for (lock_table_of g))\<^sup>+"
    by (auto simp: reaches_cycle_def)
  then have "(ContextVertex c, ContextVertex d) \<in> (arcs g)\<^sup>*"
    by (metis rtranclD rtrancl.rtrancl_refl trancl_into_rtrancl waits_for_arcs_trancl)
  with waits_for_arcs_trancl [OF dd] show "reaches_cycle (arcs g) (ContextVertex c)"
    by (auto simp: reaches_cycle_def)
qed

lemma in_degree_holders:
  assumes "kl_inv g"
  shows "length (in_edges (ContextVertex c) g) \<noteq> 0 \<longleftrightarrow> c \<in> holders (lock_table_of g)"
proof -
  have "in_edges (ContextVertex c) g \<noteq> [] \<longleftrightarrow> (\<exists>v. (v, ContextVertex c) \<in> arcs g)"
    by (force simp: in_edges_def arcs_def filter_empty_conv)
  also have "\<dots> \<longleftrightarrow> (\<exists>a b. (KeyVertex a b, ContextVertex c) \<in> arcs g)"
    using arcs_bipartite(1) [OF assms] by (metis vertex.exhaust)
  finally show ?thesis by (auto simp: holders_def arcs_table)
qed

lemma detectDeadLock_iff:
  assumes "kl_inv g"
  shows "detectDeadLock c g \<longleftrightarrow>
    c \<in> holders (lock_table_of g) \<and> reaches_cycle (waits_for (lock_table_of g)) c"
proof -
  have "ContextVertex c \<in> set (m_vertexes g)" if "c \<in> holders (lock_table_of g)"
    using that kl_inv_edge(3) [OF assms] by (auto simp: holders_def lock_table_of_def)
  moreover have "depth_first_visit (map (\<lambda>(s, t, q). (s, t)) (m_edges g)) (ContextVertex c) \<longleftrightarrow>
      reaches_cycle (waits_for (lock_table_of g)) c"
    using reaches_cycle_arcs [OF assms] by (simp add: depth_first_visit_iff arcs_def)
  ultimately show ?thesis
    using in_degree_holders [OF assms, of c] by (auto simp: detectDeadLock_def)
qed

lemma finite_holders: "finite (holders (lock_table_of g))"
proof (rule finite_subset)
  show "holders (lock_table_of g) \<subseteq> (\<lambda>(s, t, q). case t of ContextVertex c \<Rightarrow> c) ` set (m_edges g)"
    by (force simp: holders_def lock_table_of_def)
qed simp

lemma blocked_holders_detected:
  assumes "kl_inv g" and "c \<in> holders (lock_table_of g)"
    and blocked: "\<And>d. d \<in> holders (lock_table_of g) \<Longrightarrow>
           \<exists>e. (d, e) \<in> waits_for (lock_table_of g)"
  shows "detectDeadLock c g"
proof -
  let ?W = "waits_for (lock_table_of g)" and ?H = "holders (lock_table_of g)"
  have "\<exists>e \<in> ?H. (d, e) \<in> ?W" if "d \<in> ?H" for d
    using blocked [OF that] by (auto simp: waits_for_def holders_def)
  with finite_holders assms(2) have "reaches_cycle ?W c"
    unfolding reaches_cycle_def by (metis finite_successors_cycle)
  with assms show ?thesis by (simp add: detectDeadLock_iff)
qed

subsection \<open>Reachable lock graphs\<close>

text \<open>Everything the public methods can build from the empty graph, in any order of calls.\<close>

inductive lock_reachable :: "GraphKeyLocks \<Rightarrow> bool" where
  start: "lock_reachable empty_locks"
| acquire: "lock_reachable g \<Longrightarrow> lock_reachable (snd (acquireKeyLock a b c q g))"
| batch: "lock_reachable g \<Longrightarrow> lock_reachable (snd (batchAcquireKeyLock a ks c q g))"
| release: "lock_reachable g \<Longrightarrow> lock_reachable (releaseKeyLocks c q g)"

lemma lock_reachable_inv: "lock_reachable g \<Longrightarrow> kl_inv g"
  by (induction rule: lock_reachable.induct) (auto intro: inv_intros)

text \<open>The same calls as data, to speak about what happens between two of them.\<close>

datatype lock_op =
    Acquire string string ContextID Seq
  | BatchAcquire string "string list" ContextID Seq
  | Release ContextID Seq

fun run_op :: "lock_op \<Rightarrow> GraphKeyLocks \<Rightarrow> GraphKeyLocks" where
  "run_op (Acquire a b c q) g = snd (acquireKeyLock a b c q g)"
| "run_op (BatchAcquire a ks c q) g = snd (batchAcquireKeyLock a ks c q g)"
| "run_op (Release c q) g = releaseKeyLocks c q g"

lemma lock_reachable_run_op: "lock_reachable g \<Longrightarrow> lock_reachable (run_op x g)"
  by (cases x) (auto intro: lock_reachable.intros)

lemma lock_reachable_run_ops: "lock_reachable g \<Longrightarrow> lock_reachable (fold run_op xs g)"
  by (induction xs arbitrary: g) (auto intro: lock_reachable_run_op)

lemma batch_keeps_held:
  "kl_inv g \<Longrightarrow> e \<in> held (lock_table_of g) \<Longrightarrow>
     e \<in> held (lock_table_of (snd (batchAcquireKeyLock a ks c q g)))"
proof (induction a ks c q g rule: batchAcquireKeyLock.induct)
  case (2 a k ks c q g)
  obtain r g' where eq: "acquireKeyLock a k c q g = (r, g')" by fastforce
  with kl_inv_acquire [OF "2.prems"(1), of a k c q] kl.acquire_keeps_held [OF "2.prems", of a k c q]
  have "kl_inv g'" and "e \<in> held (lock_table_of g')" by simp_all
  then show ?case
    using "2.IH" [OF eq [symmetric]] by (auto simp: eq split: sum.splits bool.splits)
qed simp

lemma run_op_keeps_held:
  assumes "lock_reachable g" and "(k, c, q) \<in> held (lock_table_of g)" and "x \<noteq> Release c q"
  shows "(k, c, q) \<in> held (lock_table_of (run_op x g))"
  using assms lock_reachable_inv [OF assms(1)]
  by (cases x) (auto intro: kl.acquire_keeps_held batch_keeps_held kl.release_keeps_other_seq)

lemma run_ops_keep_held:
  assumes "lock_reachable g" and "(k, c, q) \<in> held (lock_table_of g)" and "Release c q \<notin> set xs"
  shows "(k, c, q) \<in> held (lock_table_of (fold run_op xs g))"
  using assms
proof (induction xs arbitrary: g)
  case (Cons x xs)
  then have "(k, c, q) \<in> held (lock_table_of (run_op x g))"
    by (intro run_op_keeps_held) auto
  with Cons show ?case by (simp add: lock_reachable_run_op)
qed simp

subsection \<open>Properties\<close>

text \<open>
  The dead-lock scenario of the unit tests: context 1000 owns \<open>key1\<close> and waits for \<open>key2\<close>,
  context 1001 owns \<open>key2\<close> and waits for \<open>key1\<close>.
\<close>

definition deadlock_graph :: GraphKeyLocks where
  "deadlock_graph =
     snd (acquireKeyLock ''contract1'' ''key1'' 1001 2
     (snd (acquireKeyLock ''contract1'' ''key2'' 1000 2
     (snd (acquireKeyLock ''contract1'' ''key2'' 1001 1
     (snd (acquireKeyLock ''contract1'' ''key1'' 1000 1 empty_locks)))))))"

lemma deadlock_graph_reachable: "lock_reachable deadlock_graph"
  unfolding deadlock_graph_def by (intro lock_reachable.intros)

lemma deadlock_graph_edges:
  "m_edges deadlock_graph =
     [(KeyVertex ''contract1'' ''key1'', ContextVertex 1000, 1),
      (KeyVertex ''contract1'' ''key2'', ContextVertex 1001, 1),
      (ContextVertex 1000, KeyVertex ''contract1'' ''key2'', 2),
      (ContextVertex 1001, KeyVertex ''contract1'' ''key1'', 2)]"
  by code_simp

lemma deadlock_graph_table:
  "lock_table_of deadlock_graph =
     \<lparr>held = {((''contract1'', ''key1''), 1000, 1), ((''contract1'', ''key2''), 1001, 1)},
      wait = {((''contract1'', ''key2''), 1000, 2), ((''contract1'', ''key1''), 1001, 2)}\<rparr>"
  by (auto simp: lock_table_of_def deadlock_graph_edges)

text \<open>
  (C11) \<open>acquireKeyLock\<close> implements the lock table: it succeeds exactly if no other context owns
  the key, then records the ownership and drops the caller's pending requests for the key;
  otherwise it records a request. It never throws on a graph built by the class itself.
\<close>

theorem acquireKeyLock_refinement:
  assumes "lock_reachable g"
  shows "fst (acquireKeyLock a b c q g) = Inr (fst (spec_acquire (a, b) c q (lock_table_of g))) \<and>
    lock_table_of (snd (acquireKeyLock a b c q g)) = snd (spec_acquire (a, b) c q (lock_table_of g))"
  using lock_reachable_inv [OF assms] by (simp add: acquireKeyLock_refines)

theorem acquireKeyLock_refinement_witness:
  "lock_reachable deadlock_graph \<and>
   fst (acquireKeyLock ''contract1'' ''key1'' 7 0 deadlock_graph) = Inr False"
  using acquireKeyLock_refinement [OF deadlock_graph_reachable, of "''contract1''" "''key1''" 7 0]
  by (auto simp: deadlock_graph_reachable deadlock_graph_table spec_acquire_def)

text \<open>
  (C12) \<open>releaseKeyLocks\<close> removes exactly the owned and the requested entries of the context with
  that sequence number, and it removes the context's vertex exactly when nothing of the
  context is left in the table.
\<close>

theorem releaseKeyLocks_refinement:
  assumes "lock_reachable g"
  shows "lock_table_of (releaseKeyLocks c q g) = spec_release c q (lock_table_of g) \<and>
    (ContextVertex c \<in> set (m_vertexes (releaseKeyLocks c q g)) \<longleftrightarrow>
     (\<exists>k r. (k, c, r) \<in> held (spec_release c q (lock_table_of g)) \<union>
                         wait (spec_release c q (lock_table_of g))))"
proof -
  let ?g = "releaseKeyLocks c q g"
  have inv: "kl_inv g" "kl_inv ?g"
    using lock_reachable_inv [OF assms] by (auto intro: kl_inv_release)
  have "(\<exists>e \<in> set (m_edges ?g). uses_context c e) \<longleftrightarrow>
      (\<exists>k r. (k, c, r) \<in> held (lock_table_of ?g) \<union> wait (lock_table_of ?g))"
    using kl_inv_edge(1) [OF inv(2)]
    by (force simp: uses_context_def lock_table_of_def elim!: bipartite_edge_cases)
  moreover have "sorted_wrt (<) (insort_insert (ContextVertex c) (m_vertexes g))"
    using inv(1) by (simp add: sorted_insort_insert_less kl_inv_sorted)
  ultimately show ?thesis
    by (auto simp: releaseKeyLocks_refines releaseKeyLocks_vertexes [OF inv(1)] set_insort_insert
        strict_sorted_iff)
qed

theorem releaseKeyLocks_refinement_witness:
  "lock_reachable deadlock_graph \<and>
   held (lock_table_of (releaseKeyLocks 1000 1 deadlock_graph)) =
     {((''contract1'', ''key2''), 1001, 1)}"
  using releaseKeyLocks_refinement [OF deadlock_graph_reachable, of 1000 1]
  by (auto simp: deadlock_graph_reachable deadlock_graph_table spec_release_def)

text \<open>
  (C8) Mutual exclusion over time: once a context has acquired a key, no other context
  can acquire it, whatever sequence of calls happens in between, as long as that acquisition
  is not released.
\<close>

theorem lock_held_until_released:
  assumes "lock_reachable g" and "fst (acquireKeyLock a b c q g) = Inr True"
    and "Release c q \<notin> set xs" and "d \<noteq> c"
  shows "fst (acquireKeyLock a b d r (fold run_op xs (snd (acquireKeyLock a b c q g)))) = Inr False"
proof -
  let ?g = "snd (acquireKeyLock a b c q g)"
  have reach: "lock_reachable ?g" using assms(1) by (rule lock_reachable.acquire)
  have "((a, b), c, q) \<in> held (lock_table_of ?g)"
    using lock_reachable_inv [OF assms(1)] assms(2) by (rule kl.acquired_is_held)
  with reach have "((a, b), c, q) \<in> held (lock_table_of (fold run_op xs ?g))"
    using assms(3) by (rule run_ops_keep_held)
  with lock_reachable_inv [OF lock_reachable_run_ops [OF reach]] show ?thesis
    using assms(4) by (rule kl.held_excludes_others)
qed

theorem lock_held_until_released_witness:
  "fst (acquireKeyLock ''c'' ''k'' 2 0
     (fold run_op [Acquire ''c'' ''k'' 1 1, Release 1 1, Acquire ''c'' ''k'' 3 0]
       (snd (acquireKeyLock ''c'' ''k'' 1 0 empty_locks)))) = Inr False"
  by (rule lock_held_until_released) (simp_all add: lock_reachable.start, code_simp)

text \<open>
  (C13) The keys reported to an executor for a contract are exactly the keys of that contract
  that the context could not acquire, in ascending order and without repetition.
\<close>

theorem reported_keys_are_blocked_keys:
  assumes "lock_reachable g"
  shows "(b \<in> set (getKeyLocksNotHoldingByContext a c g) \<longleftrightarrow>
      fst (acquireKeyLock a b c q g) = Inr False) \<and>
    sorted_wrt (<) (getKeyLocksNotHoldingByContext a c g)"
  using kl.acquire_iff_not_foreign [OF lock_reachable_inv [OF assms]]
  by (simp_all add: getKeyLocksNotHolding_sorted)

theorem reported_keys_are_blocked_keys_witness:
  "lock_reachable deadlock_graph \<and>
   fst (acquireKeyLock ''contract1'' ''key1'' 1001 9 deadlock_graph) = Inr False"
proof -
  have "''key1'' \<in> set (getKeyLocksNotHoldingByContext ''contract1'' 1001 deadlock_graph)"
    by (simp add: set_getKeyLocksNotHolding deadlock_graph_table)
  with reported_keys_are_blocked_keys [OF deadlock_graph_reachable] deadlock_graph_reachable
  show ?thesis by blast
qed

text \<open>
  (C14) \<open>batchAcquireKeyLock\<close> returns true if no requested key is owned by another context and
  throws \<open>UnexpectedKeyLockError\<close> otherwise; it has no other outcome.
\<close>

theorem batchAcquireKeyLock_outcome:
  assumes "lock_reachable g"
  shows "fst (batchAcquireKeyLock a ks c q g) =
    (if \<exists>b \<in> set ks. \<exists>d r. ((a, b), d, r) \<in> held (lock_table_of g) \<and> d \<noteq> c
     then Inl (Throw UnexpectedKeyLockError) else Inr True)"
  using batchAcquireKeyLock_result [OF lock_reachable_inv [OF assms], of a ks c q]
  by (auto simp: set_getKeyLocksNotHolding)

theorem batchAcquireKeyLock_outcome_witness:
  "lock_reachable deadlock_graph \<and>
   fst (batchAcquireKeyLock ''contract1'' [''key3'', ''key1''] 1001 3 deadlock_graph) =
     Inl (Throw UnexpectedKeyLockError)"
  using batchAcquireKeyLock_outcome [OF deadlock_graph_reachable,
      of "''contract1''" "[''key3'', ''key1'']" 1001 3]
  by (simp add: deadlock_graph_reachable deadlock_graph_table)

text \<open>
  (C9) \<open>detectDeadLock\<close> answers true exactly if the context owns a key and, following the
  relation "waits for a key that is owned by", one gets from it to a cycle.
\<close>

theorem detectDeadLock_correct:
  assumes "lock_reachable g"
  shows "detectDeadLock c g \<longleftrightarrow>
    (\<exists>k q. (k, c, q) \<in> held (lock_table_of g)) \<and>
    (\<exists>d. (c, d) \<in> (waits_for (lock_table_of g))\<^sup>* \<and> (d, d) \<in> (waits_for (lock_table_of g))\<^sup>+)"
  using detectDeadLock_iff [OF lock_reachable_inv [OF assms]]
  by (simp add: holders_def reaches_cycle_def)

theorem detectDeadLock_correct_witness:
  "lock_reachable deadlock_graph \<and>
   (\<exists>d. (1000, d) \<in> (waits_for (lock_table_of deadlock_graph))\<^sup>* \<and>
        (d, d) \<in> (waits_for (lock_table_of deadlock_graph))\<^sup>+)"
proof -
  have "detectDeadLock 1000 deadlock_graph" by code_simp
  with detectDeadLock_correct [OF deadlock_graph_reachable, of 1000] deadlock_graph_reachable
  show ?thesis by blast
qed

text \<open>
  (C10) If every context that owns a key also waits for a key owned by some context, the
  search reports a dead lock at each of them: a round in which no lock owner can proceed is
  always broken up.
\<close>

theorem deadlock_always_detected:
  assumes "lock_reachable g" and "(k, c, q) \<in> held (lock_table_of g)"
    and "\<And>k d q. (k, d, q) \<in> held (lock_table_of g) \<Longrightarrow>
           \<exists>k' e q' r'. (k', d, q') \<in> wait (lock_table_of g) \<and> (k', e, r') \<in> held (lock_table_of g)"
  shows "detectDeadLock c g"
proof (rule blocked_holders_detected)
  show "kl_inv g" using assms(1) by (rule lock_reachable_inv)
  show "c \<in> holders (lock_table_of g)" using assms(2) unfolding holders_def by blast
  show "\<exists>e. (d, e) \<in> waits_for (lock_table_of g)" if "d \<in> holders (lock_table_of g)" for d
    using that assms(3) by (fastforce simp: holders_def waits_for_def)
qed

theorem deadlock_always_detected_witness: "detectDeadLock 1001 deadlock_graph"
  by (rule deadlock_always_detected [OF deadlock_graph_reachable, of "(''contract1'', ''key2'')" _ 1])
     (auto simp: deadlock_graph_table)

end
