(* ===== verification/Executor_Manager.thy ===== *)
theory Executor_Manager
  imports Prelude
begin

text \<open>
  The executor manager of \<^verbatim>\<open>ExecutorManager.h\<close> and \<^verbatim>\<open>ExecutorManager.cpp\<close>: executors are
  registered under names, and every contract is bound, on its first dispatch, to the executor
  with the fewest contracts.

  An \<open>ExecutorInfo\<close> is shared by the two maps and the priority queue through shared pointers;
  the model keeps the pointed-to records in a store indexed by addresses. \<open>std::set\<close> and the
  keys of \<open>std::unordered_map\<close> are lists; the hash map's iteration order is the list order.

  \<open>std::priority_queue\<close> promises that \<open>top\<close> is a greatest element of the comparator, here an
  element with the fewest contracts, and leaves ties open. The choice is a parameter
  \<open>pq_top\<close> of the model, with that promise as the locale \<open>priority_queue_top\<close>.
\<close>

subsection \<open>State\<close>

type_synonym ExecutorPtr = nat

record ExecutorInfo =
  name :: string
  executor :: ExecutorPtr
  contracts :: "string list"

record ExecutorManager =
  infos :: "nat \<Rightarrow> ExecutorInfo"
  next_info :: nat
  m_contract2ExecutorInfo :: "string \<rightharpoonup> nat"
  m_name2Executors :: "(string \<times> nat) list"
  m_executorPriorityQueue :: "nat list"

definition empty_manager :: ExecutorManager where
  "empty_manager =
     \<lparr>infos = (\<lambda>_. \<lparr>name = '''', executor = 0, contracts = []\<rparr>), next_info = 0,
      m_contract2ExecutorInfo = Map.empty, m_name2Executors = [], m_executorPriorityQueue = []\<rparr>"

text \<open>\<open>ExecutorInfoComp\<close>: the queue's order puts an element below one with fewer contracts.\<close>

definition load :: "ExecutorManager \<Rightarrow> nat \<Rightarrow> nat" where
  "load m i = length (contracts (infos m i))"

definition ExecutorInfoComp :: "ExecutorManager \<Rightarrow> nat \<Rightarrow> nat \<Rightarrow> bool" where
  "ExecutorInfoComp m lhs rhs \<longleftrightarrow> load m lhs > load m rhs"

subsection \<open>Operations\<close>

definition addExecutor ::
  "string \<Rightarrow> ExecutorPtr \<Rightarrow> ExecutorManager \<Rightarrow> (exn + unit) \<times> ExecutorManager"
where
  "addExecutor nm ex m =
     (let i = next_info m;
          executorInfo = \<lparr>name = nm, executor = ex, contracts = []\<rparr>
      in if nm \<in> fst ` set (m_name2Executors m)
         then (Inl (ThrowException ''Executor already exists''), m)
         else (Inr (),
               m\<lparr>infos := (infos m)(i := executorInfo), next_info := Suc i,
                 m_name2Executors := m_name2Executors m @ [(nm, i)],
                 m_executorPriorityQueue := m_executorPriorityQueue m @ [i]\<rparr>))"

text \<open>The part of \<open>dispatchExecutor\<close> that runs under \<open>m_mutex\<close>.\<close>

definition dispatchLocked ::
  "((nat \<Rightarrow> nat \<Rightarrow> bool) \<Rightarrow> nat list \<Rightarrow> nat) \<Rightarrow> string \<Rightarrow> ExecutorManager \<Rightarrow>
     (exn + ExecutorPtr) \<times> ExecutorManager"
where
  "dispatchLocked pq_top contract m =
     (if m_executorPriorityQueue m = [] then (Inl EmptyQueueTop, m)
      else
        let i = pq_top (ExecutorInfoComp m) (m_executorPriorityQueue m);
            m = m\<lparr>m_executorPriorityQueue := remove1 i (m_executorPriorityQueue m)\<rparr>;
            info = infos m i
        in if contract \<in> set (contracts info) then (Inl (ThrowCode (-1)), m)
           else (Inr (executor info),
                 m\<lparr>infos := (infos m)(i := info\<lparr>contracts := insort_insert contract (contracts info)\<rparr>),
                   m_executorPriorityQueue := m_executorPriorityQueue m @ [i],
                   m_contract2ExecutorInfo :=
                     (case m_contract2ExecutorInfo m contract of
                        None \<Rightarrow> (m_contract2ExecutorInfo m)(contract \<mapsto> i)
                      | Some _ \<Rightarrow> m_contract2ExecutorInfo m)\<rparr>))"

text \<open>
  The whole method, run by one thread at a time; \<open>Inr None\<close> is the null pointer. The
  \<open>try_to_lock\<close> loop ends with the first round, since nobody else holds the mutex.
\<close>

definition dispatchExecutor ::
  "((nat \<Rightarrow> nat \<Rightarrow> bool) \<Rightarrow> nat list \<Rightarrow> nat) \<Rightarrow> string \<Rightarrow> ExecutorManager \<Rightarrow>
     (exn + ExecutorPtr option) \<times> ExecutorManager"
where
  "dispatchExecutor pq_top contract m =
     (if m_name2Executors m = [] then (Inr None, m)
      else case m_contract2ExecutorInfo m contract of
             Some i \<Rightarrow> (Inr (Some (executor (infos m i))), m)
           | None \<Rightarrow>
               (case dispatchLocked pq_top contract m of
                  (Inl e, m') \<Rightarrow> (Inl e, m')
                | (Inr ex, m') \<Rightarrow> (Inr (Some ex), m')))"

fun eraseContracts :: "string list \<Rightarrow> (string \<rightharpoonup> nat) \<Rightarrow> (exn + unit) \<times> (string \<rightharpoonup> nat)" where
  "eraseContracts [] cm = (Inr (), cm)"
| "eraseContracts (c # cs) cm =
     (if cm c = None then (Inl (ThrowException ''Can't find contract in container''), cm)
      else eraseContracts cs (cm(c := None)))"

definition removeExecutor :: "string \<Rightarrow> ExecutorManager \<Rightarrow> (exn + unit) \<times> ExecutorManager" where
  "removeExecutor nm m =
     (case map_of (m_name2Executors m) nm of
        None \<Rightarrow> (Inl (ThrowCode (-1)), m)
      | Some i \<Rightarrow>
          (case eraseContracts (contracts (infos m i)) (m_contract2ExecutorInfo m) of
             (Inl e, cm) \<Rightarrow> (Inl e, m\<lparr>m_contract2ExecutorInfo := cm\<rparr>)
           | (Inr _, cm) \<Rightarrow>
               (let names = filter (\<lambda>(n, _). n \<noteq> nm) (m_name2Executors m)
                in (Inr (), m\<lparr>m_contract2ExecutorInfo := cm, m_name2Executors := names,
                              m_executorPriorityQueue := map snd names\<rparr>))))"

definition manager_size :: "ExecutorManager \<Rightarrow> nat" where
  "manager_size m = length (m_name2Executors m)"

text \<open>The range \<open>begin() ... end()\<close>.\<close>

definition executorView :: "ExecutorManager \<Rightarrow> ExecutorPtr list" where
  "executorView m = map (\<lambda>(_, i). executor (infos m i)) (m_name2Executors m)"

subsection \<open>The priority queue's promise\<close>

locale priority_queue_top =
  fixes pq_top :: "(nat \<Rightarrow> nat \<Rightarrow> bool) \<Rightarrow> nat list \<Rightarrow> nat"
  assumes top_mem: "irreflp cmp \<Longrightarrow> transp cmp \<Longrightarrow> q \<noteq> [] \<Longrightarrow> pq_top cmp q \<in> set q"
    and top_greatest: "irreflp cmp \<Longrightarrow> transp cmp \<Longrightarrow> j \<in> set q \<Longrightarrow> \<not> cmp (pq_top cmp q) j"

text \<open>A conforming queue: the leftmost among the greatest elements.\<close>

definition leftmost_top :: "(nat \<Rightarrow> nat \<Rightarrow> bool) \<Rightarrow> nat list \<Rightarrow> nat" where
  "leftmost_top cmp q = hd (filter (\<lambda>i. list_all (\<lambda>j. \<not> cmp i j) q) q)"

lemma ex_greatest:
  fixes cmp :: "nat \<Rightarrow> nat \<Rightarrow> bool"
  assumes "irreflp cmp" and "transp cmp" and "q \<noteq> []"
  shows "\<exists>i \<in> set q. \<forall>j \<in> set q. \<not> cmp i j"
  using assms(3)
proof (induction q rule: list_nonempty_induct)
  case (single x)
  then show ?case using assms(1) by (simp add: irreflpD)
next
  case (cons x xs)
  then obtain i where i: "i \<in> set xs" "\<forall>j \<in> set xs. \<not> cmp i j" by blast
  show ?case
  proof (cases "cmp i x")
    case True
    with i have "\<forall>j \<in> set xs. \<not> cmp x j" using assms(2) by (meson transpD)
    with assms(1) show ?thesis by (auto dest: irreflpD)
  next
    case False
    with i show ?thesis by auto
  qed
qed

lemma leftmost_top_greatest:
  assumes "irreflp cmp" and "transp cmp" and "q \<noteq> []"
  shows "leftmost_top cmp q \<in> set q \<and> (\<forall>j \<in> set q. \<not> cmp (leftmost_top cmp q) j)"
proof -
  let ?f = "filter (\<lambda>i. list_all (\<lambda>j. \<not> cmp i j) q) q"
  have "?f \<noteq> []"
    using ex_greatest [OF assms] by (auto simp: filter_empty_conv list_all_iff)
  then have "hd ?f \<in> set ?f" by (rule hd_in_set)
  then show ?thesis by (auto simp: leftmost_top_def list_all_iff)
qed

interpretation leftmost: priority_queue_top leftmost_top
proof
  fix cmp :: "nat \<Rightarrow> nat \<Rightarrow> bool" and q :: "nat list" and j :: nat
  assume cmp: "irreflp cmp" "transp cmp"
  show "leftmost_top cmp q \<in> set q" if "q \<noteq> []"
    using leftmost_top_greatest [OF cmp that] by blast
  show "\<not> cmp (leftmost_top cmp q) j" if "j \<in> set q"
    using leftmost_top_greatest [OF cmp, of q] that by (metis empty_iff empty_set)
qed

lemma ExecutorInfoComp_order: "irreflp (ExecutorInfoComp m)" "transp (ExecutorInfoComp m)"
  by (auto simp: ExecutorInfoComp_def intro!: irreflpI transpI)

subsection \<open>The invariant\<close>

definition registered :: "ExecutorManager \<Rightarrow> nat set" where
  "registered m = snd ` set (m_name2Executors m)"

definition em_inv :: "ExecutorManager \<Rightarrow> bool" where
  "em_inv m \<longleftrightarrow>
     distinct (map fst (m_name2Executors m)) \<and> distinct (map snd (m_name2Executors m)) \<and>
     (\<forall>(n, i) \<in> set (m_name2Executors m). i < next_info m \<and> name (infos m i) = n) \<and>
     mset (m_executorPriorityQueue m) = mset (map snd (m_name2Executors m)) \<and>
     (\<forall>i. sorted_wrt (<) (contracts (infos m i))) \<and>
     (\<forall>c i. m_contract2ExecutorInfo m c = Some i \<longleftrightarrow>
        i \<in> registered m \<and> c \<in> set (contracts (infos m i)))"

lemma em_inv_empty [inv_intros]: "em_inv empty_manager"
  by (simp add: em_inv_def empty_manager_def registered_def)

lemma em_invD:
  assumes "em_inv m"
  shows "distinct (map fst (m_name2Executors m))" "distinct (map snd (m_name2Executors m))"
    and "set (m_executorPriorityQueue m) = registered m"
    and "distinct (m_executorPriorityQueue m)"
    and "m_contract2ExecutorInfo m c = Some i \<longleftrightarrow> i \<in> registered m \<and> c \<in> set (contracts (infos m i))"
    and "i \<in> registered m \<Longrightarrow> i < next_info m"
    and "sorted_wrt (<) (contracts (infos m i))"
proof -
  have mset: "mset (m_executorPriorityQueue m) = mset (map snd (m_name2Executors m))"
    using assms by (simp add: em_inv_def)
  show "set (m_executorPriorityQueue m) = registered m"
    using mset_eq_setD [OF mset] by (simp add: registered_def)
  show "distinct (m_executorPriorityQueue m)"
    using assms mset_eq_imp_distinct_iff [OF mset] by (simp add: em_inv_def)
qed (use assms in \<open>auto simp: em_inv_def registered_def\<close>)

text \<open>A contract that is bound to no executor is in no registered executor's set.\<close>

lemma unbound_not_in_contracts:
  assumes "em_inv m" and "m_contract2ExecutorInfo m c = None" and "i \<in> registered m"
  shows "c \<notin> set (contracts (infos m i))"
  using em_invD(5) [OF assms(1), of c i] assms(2,3) by auto

lemma addExecutor_inv [inv_intros]:
  assumes "em_inv m"
  shows "em_inv (snd (addExecutor nm ex m))"
proof (cases "nm \<in> fst ` set (m_name2Executors m)")
  case True
  with assms show ?thesis by (simp add: addExecutor_def Let_def)
next
  case False
  let ?m = "snd (addExecutor nm ex m)"
  have fresh: "next_info m \<notin> registered m" using em_invD(6) [OF assms] by blast
  have reg: "registered ?m = insert (next_info m) (registered m)"
    using False by (simp add: addExecutor_def Let_def registered_def)
  have "m_contract2ExecutorInfo ?m c = Some i \<longleftrightarrow> i \<in> registered ?m \<and> c \<in> set (contracts (infos ?m i))"
    for c i
    using em_invD(5) [OF assms, of c i] False fresh
    by (auto simp: reg) (auto simp: addExecutor_def Let_def split: if_splits)
  moreover have "distinct (map snd (m_name2Executors m @ [(nm, next_info m)]))"
    using em_invD(2) [OF assms] fresh by (auto simp: registered_def)
  ultimately show ?thesis
    using assms False fresh
    unfolding em_inv_def
    by (auto simp: addExecutor_def Let_def registered_def)
qed

subsection \<open>Dispatch\<close>

text \<open>The state after binding contract \<open>c\<close> to the executor at \<open>i\<close>.\<close>

definition bind_contract :: "string \<Rightarrow> nat \<Rightarrow> ExecutorManager \<Rightarrow> ExecutorManager" where
  "bind_contract c i m =
     m\<lparr>infos := (infos m)(i := (infos m i)\<lparr>contracts := insort_insert c (contracts (infos m i))\<rparr>),
       m_executorPriorityQueue := remove1 i (m_executorPriorityQueue m) @ [i],
       m_contract2ExecutorInfo := (m_contract2ExecutorInfo m)(c \<mapsto> i)\<rparr>"

lemma bind_contract_simps [simp]:
  "m_name2Executors (bind_contract c i m) = m_name2Executors m"
  "registered (bind_contract c i m) = registered m"
  "m_contract2ExecutorInfo (bind_contract c i m) = (m_contract2ExecutorInfo m)(c \<mapsto> i)"
  "executor (infos (bind_contract c i m) j) = executor (infos m j)"
  "next_info (bind_contract c i m) = next_info m"
  by (simp_all add: bind_contract_def registered_def)

lemma load_bind_contract:
  assumes "em_inv m" and "c \<notin> set (contracts (infos m i))"
  shows "load (bind_contract c i m) j = (if j = i then Suc (load m i) else load m j)"
  using assms by (simp add: load_def bind_contract_def insort_insert_key_def)

lemma bind_contract_inv:
  assumes inv: "em_inv m" and i: "i \<in> registered m" and new: "m_contract2ExecutorInfo m c = None"
  shows "em_inv (bind_contract c i m)"
proof -
  let ?m = "bind_contract c i m"
  have "m_contract2ExecutorInfo ?m c' = Some j \<longleftrightarrow>
      j \<in> registered ?m \<and> c' \<in> set (contracts (infos ?m j))" for c' j
    using em_invD(5) [OF inv, of c' j] unbound_not_in_contracts [OF inv new, of j] i
    by (auto simp: bind_contract_def registered_def set_insort_insert)
  moreover have "sorted_wrt (<) (contracts (infos ?m j))" for j
    using em_invD(7) [OF inv, of j] em_invD(7) [OF inv, of i]
    by (simp add: bind_contract_def strict_sorted_iff sorted_insort_insert distinct_insort_insert)
  moreover have "mset (m_executorPriorityQueue ?m) = mset (m_executorPriorityQueue m)"
    using i em_invD(3) [OF inv] by (simp add: bind_contract_def)
  ultimately show ?thesis
    using inv by (auto simp: em_inv_def) (auto simp: bind_contract_def)
qed

context priority_queue_top
begin

lemma top_least_loaded:
  assumes "em_inv m" and "m_name2Executors m \<noteq> []"
  defines "i \<equiv> pq_top (ExecutorInfoComp m) (m_executorPriorityQueue m)"
  shows "i \<in> registered m" and "j \<in> registered m \<Longrightarrow> load m i \<le> load m j"
proof -
  have "m_executorPriorityQueue m \<noteq> []"
    using em_invD(3) [OF assms(1)] assms(2) by (auto simp: registered_def)
  then show "i \<in> registered m"
    using top_mem [OF ExecutorInfoComp_order, of "m_executorPriorityQueue m" m]
      em_invD(3) [OF assms(1)] by (simp add: i_def)
  show "load m i \<le> load m j" if "j \<in> registered m"
    using top_greatest [OF ExecutorInfoComp_order] em_invD(3) [OF assms(1)] that
    by (simp add: i_def ExecutorInfoComp_def not_less)
qed

lemma dispatchLocked_new:
  assumes inv: "em_inv m" and ne: "m_name2Executors m \<noteq> []" and new: "m_contract2ExecutorInfo m c = None"
  shows "\<exists>i \<in> registered m. (\<forall>j \<in> registered m. load m i \<le> load m j) \<and>
    dispatchLocked pq_top c m = (Inr (executor (infos m i)), bind_contract c i m)"
proof -
  let ?i = "pq_top (ExecutorInfoComp m) (m_executorPriorityQueue m)"
  have i: "?i \<in> registered m" using inv ne by (rule top_least_loaded)
  have "m_executorPriorityQueue m \<noteq> []" using i em_invD(3) [OF inv] by force
  moreover have "c \<notin> set (contracts (infos m ?i))"
    using inv new i by (rule unbound_not_in_contracts)
  ultimately have "dispatchLocked pq_top c m = (Inr (executor (infos m ?i)), bind_contract c ?i m)"
    using new by (simp add: dispatchLocked_def Let_def bind_contract_def)
  with i top_least_loaded(2) [OF inv ne] show ?thesis by blast
qed

lemma dispatch_new:
  assumes "em_inv m" and "m_name2Executors m \<noteq> []" and "m_contract2ExecutorInfo m c = None"
  obtains i where "i \<in> registered m" and "\<And>j. j \<in> registered m \<Longrightarrow> load m i \<le> load m j"
    and "dispatchExecutor pq_top c m = (Inr (Some (executor (infos m i))), bind_contract c i m)"
  using dispatchLocked_new [OF assms] assms(2,3) by (auto simp: dispatchExecutor_def)

lemma dispatch_bound:
  assumes "em_inv m" and "m_contract2ExecutorInfo m c = Some i"
  shows "dispatchExecutor pq_top c m = (Inr (Some (executor (infos m i))), m)"
proof -
  have "i \<in> registered m" using em_invD(5) [OF assms(1)] assms(2) by simp
  then have "m_name2Executors m \<noteq> []" by (auto simp: registered_def)
  with assms(2) show ?thesis by (simp add: dispatchExecutor_def)
qed

lemma dispatch_cases:
  assumes "em_inv m" and "m_name2Executors m \<noteq> []"
  obtains (bound) i where "m_contract2ExecutorInfo m c = Some i"
      and "dispatchExecutor pq_top c m = (Inr (Some (executor (infos m i))), m)"
    | (new) i where "m_contract2ExecutorInfo m c = None" and "i \<in> registered m"
      and "\<And>j. j \<in> registered m \<Longrightarrow> load m i \<le> load m j"
      and "dispatchExecutor pq_top c m = (Inr (Some (executor (infos m i))), bind_contract c i m)"
proof (cases "m_contract2ExecutorInfo m c")
  case None
  from assms None show ?thesis by (rule dispatch_new) (rule new [OF None])
next
  case (Some i)
  with dispatch_bound [OF assms(1)] show ?thesis by (intro bound) auto
qed

lemma dispatch_empty: "m_name2Executors m = [] \<Longrightarrow> dispatchExecutor pq_top c m = (Inr None, m)"
  by (simp add: dispatchExecutor_def)

lemma dispatch_inv:
  assumes "em_inv m"
  shows "em_inv (snd (dispatchExecutor pq_top c m))"
proof (cases "m_name2Executors m = []")
  case True
  with assms show ?thesis by (simp add: dispatch_empty)
next
  case False
  with assms show ?thesis
    by (cases rule: dispatch_cases [where c = c]) (use assms bind_contract_inv in auto)
qed

lemma dispatch_names [simp]:
  assumes "em_inv m"
  shows "m_name2Executors (snd (dispatchExecutor pq_top c m)) = m_name2Executors m"
proof (cases "m_name2Executors m = []")
  case False
  with assms show ?thesis by (cases rule: dispatch_cases [where c = c]) auto
qed (simp add: dispatch_empty)

end

subsection \<open>Removal\<close>

lemma eraseContracts_all:
  "distinct cs \<Longrightarrow> (\<forall>c \<in> set cs. cm c \<noteq> None) \<Longrightarrow>
     eraseContracts cs cm = (Inr (), cm |` (- set cs))"
proof (induction cs arbitrary: cm)
  case (Cons c cs)
  have "eraseContracts cs (cm(c := None)) = (Inr (), (cm(c := None)) |` (- set cs))"
    by (rule Cons.IH) (use Cons.prems in auto)
  moreover have "(cm(c := None)) |` (- set cs) = cm |` (- set (c # cs))"
    by (auto simp: restrict_map_def fun_eq_iff)
  ultimately show ?case
    using Cons.prems by (simp del: fun_upd_apply)
qed (simp add: restrict_map_def)

lemma removeExecutor_known:
  assumes inv: "em_inv m" and i: "map_of (m_name2Executors m) nm = Some i"
  shows "removeExecutor nm m =
    (Inr (), m\<lparr>m_contract2ExecutorInfo := m_contract2ExecutorInfo m |` (- set (contracts (infos m i))),
       m_name2Executors := filter (\<lambda>(n, _). n \<noteq> nm) (m_name2Executors m),
       m_executorPriorityQueue := map snd (filter (\<lambda>(n, _). n \<noteq> nm) (m_name2Executors m))\<rparr>)"
proof -
  from i have reg: "i \<in> registered m" by (force simp: registered_def dest: map_of_SomeD)
  have "distinct (contracts (infos m i))"
    using em_invD(7) [OF inv, of i] by (simp add: strict_sorted_iff)
  moreover have "\<forall>c \<in> set (contracts (infos m i)). m_contract2ExecutorInfo m c \<noteq> None"
    using em_invD(5) [OF inv] reg by fastforce
  ultimately have "eraseContracts (contracts (infos m i)) (m_contract2ExecutorInfo m) =
      (Inr (), m_contract2ExecutorInfo m |` (- set (contracts (infos m i))))"
    by (rule eraseContracts_all)
  with i show ?thesis by (simp add: removeExecutor_def Let_def)
qed

lemma registered_remove:
  assumes inv: "em_inv m" and i: "map_of (m_name2Executors m) nm = Some i"
  shows "registered (snd (removeExecutor nm m)) = registered m - {i}"
proof -
  have "(n, j) \<in> set (m_name2Executors m) \<Longrightarrow> n \<noteq> nm \<longleftrightarrow> j \<noteq> i" for n j
    using i em_invD(1,2) [OF inv]
    by (metis eq_key_imp_eq_value map_of_SomeD distinct_map inj_onD snd_conv fst_conv prod.inject)
  then show ?thesis
    by (force simp: removeExecutor_known [OF assms] registered_def)
qed

lemma removeExecutor_inv [inv_intros]:
  assumes "em_inv m"
  shows "em_inv (snd (removeExecutor nm m))"
proof (cases "map_of (m_name2Executors m) nm")
  case None
  with assms show ?thesis by (simp add: removeExecutor_def)
next
  case (Some i)
  let ?m = "snd (removeExecutor nm m)"
  note reg = registered_remove [OF assms Some] and eq = removeExecutor_known [OF assms Some]
  have infos: "infos ?m = infos m" by (simp add: eq)
  have "j \<in> registered m \<Longrightarrow> c \<in> set (contracts (infos m i)) \<Longrightarrow> c \<in> set (contracts (infos m j)) \<Longrightarrow> j = i"
    for c j
    using em_invD(5) [OF assms, of c i] em_invD(5) [OF assms, of c j] map_of_SomeD [OF Some]
    by (force simp: registered_def)
  then have "m_contract2ExecutorInfo ?m c = Some j \<longleftrightarrow> j \<in> registered ?m \<and> c \<in> set (contracts (infos ?m j))"
    for c j
    using em_invD(5) [OF assms, of c j] unfolding reg infos
    by (auto simp: eq restrict_map_def)
  moreover have "distinct (map fst (m_name2Executors ?m))" "distinct (map snd (m_name2Executors ?m))"
    using em_invD(1,2) [OF assms] by (simp_all add: eq distinct_map_filter)
  moreover have "\<forall>(n, j) \<in> set (m_name2Executors ?m). j < next_info ?m \<and> name (infos ?m j) = n"
    using assms by (auto simp: eq em_inv_def)
  moreover have "mset (m_executorPriorityQueue ?m) = mset (map snd (m_name2Executors ?m))"
    by (simp add: eq)
  moreover have "\<forall>j. sorted_wrt (<) (contracts (infos ?m j))"
    using em_invD(7) [OF assms] by (simp add: infos)
  ultimately show ?thesis unfolding em_inv_def by blast
qed

subsection \<open>Sequences of calls\<close>

datatype manager_op = AddExecutor string ExecutorPtr | Dispatch string | RemoveExecutor string

fun run_manager ::
  "((nat \<Rightarrow> nat \<Rightarrow> bool) \<Rightarrow> nat list \<Rightarrow> nat) \<Rightarrow> manager_op \<Rightarrow> ExecutorManager \<Rightarrow> ExecutorManager"
where
  "run_manager pq_top (AddExecutor nm ex) m = snd (addExecutor nm ex m)"
| "run_manager pq_top (Dispatch c) m = snd (dispatchExecutor pq_top c m)"
| "run_manager pq_top (RemoveExecutor nm) m = snd (removeExecutor nm m)"

context priority_queue_top
begin

lemma run_manager_inv: "em_inv m \<Longrightarrow> em_inv (run_manager pq_top x m)"
  by (cases x) (auto intro: inv_intros dispatch_inv)

lemma run_managers_inv: "em_inv m \<Longrightarrow> em_inv (fold (run_manager pq_top) xs m)"
  by (induction xs arbitrary: m) (auto intro: run_manager_inv)

text \<open>A binding survives every call but the removal of its executor.\<close>

lemma binding_kept:
  assumes inv: "em_inv m" and bound: "m_contract2ExecutorInfo m c = Some i"
    and keep: "x \<noteq> RemoveExecutor (name (infos m i))"
  shows "m_contract2ExecutorInfo (run_manager pq_top x m) c = Some i \<and>
    executor (infos (run_manager pq_top x m) i) = executor (infos m i) \<and>
    name (infos (run_manager pq_top x m) i) = name (infos m i)"
proof -
  have i: "i \<in> registered m" "c \<in> set (contracts (infos m i))"
    using em_invD(5) [OF inv] bound by auto
  then have ne: "m_name2Executors m \<noteq> []" by (auto simp: registered_def)
  show ?thesis
  proof (cases x)
    case (AddExecutor nm ex)
    with bound em_invD(6) [OF inv i(1)] show ?thesis by (auto simp: addExecutor_def Let_def)
  next
    case (Dispatch c')
    from inv ne show ?thesis
    proof (cases rule: dispatch_cases [where c = c'])
      case (new j)
      with bound Dispatch show ?thesis by (auto simp: bind_contract_def)
    qed (use bound Dispatch in auto)
  next
    case (RemoveExecutor nm)
    show ?thesis
    proof (cases "map_of (m_name2Executors m) nm")
      case None
      with RemoveExecutor bound show ?thesis by (simp add: removeExecutor_def)
    next
      case (Some j)
      then have "name (infos m j) = nm"
        using inv by (auto simp: em_inv_def dest!: map_of_SomeD)
      with keep RemoveExecutor have "j \<noteq> i" by auto
      moreover from Some have "j \<in> registered m"
        by (force simp: registered_def dest: map_of_SomeD)
      ultimately have "c \<notin> set (contracts (infos m j))"
        using em_invD(5) [OF inv, of c j] bound by auto
      with bound RemoveExecutor show ?thesis
        by (simp add: removeExecutor_known [OF inv Some] restrict_map_def)
    qed
  qed
qed

lemma bindings_kept:
  assumes "em_inv m" and "m_contract2ExecutorInfo m c = Some i"
    and "RemoveExecutor (name (infos m i)) \<notin> set xs"
  shows "m_contract2ExecutorInfo (fold (run_manager pq_top) xs m) c = Some i \<and>
    executor (infos (fold (run_manager pq_top) xs m) i) = executor (infos m i)"
  using assms
proof (induction xs arbitrary: m)
  case (Cons x xs)
  let ?m = "run_manager pq_top x m"
  have "m_contract2ExecutorInfo ?m c = Some i" "executor (infos ?m i) = executor (infos m i)"
    "name (infos ?m i) = name (infos m i)"
    using binding_kept [OF Cons.prems(1,2), of x] Cons.prems(3) by auto
  with Cons.IH [of ?m] Cons.prems run_manager_inv show ?case by auto
qed simp

lemma dispatch_outcome:
  assumes inv: "em_inv m" and ne: "m_name2Executors m \<noteq> []"
  shows "\<exists>i m'. dispatchExecutor pq_top c m = (Inr (Some (executor (infos m i))), m') \<and>
    i \<in> registered m \<and> m_contract2ExecutorInfo m' c = Some i \<and>
    (m_contract2ExecutorInfo m c = None \<longrightarrow> (\<forall>j \<in> registered m. load m i \<le> load m j))"
  using inv ne
proof (cases rule: dispatch_cases [where c = c])
  case (bound i)
  with em_invD(5) [OF inv, of c i] show ?thesis by auto
qed auto

lemma dispatch_returns_bound:
  assumes inv: "em_inv m" and "dispatchExecutor pq_top c m = (Inr (Some ex), m')"
    and "m_contract2ExecutorInfo m' c = Some i"
  shows "executor (infos m' i) = ex"
proof (cases "m_name2Executors m = []")
  case True
  with assms(2) show ?thesis by (simp add: dispatch_empty)
next
  case False
  with inv show ?thesis
    by (cases rule: dispatch_cases [where c = c]) (use assms(2,3) in auto)
qed

lemma dispatch_again:
  assumes "em_inv m" and "dispatchExecutor pq_top c m = (Inr (Some ex), m')"
    and "m_contract2ExecutorInfo m' c = Some i" and "RemoveExecutor (name (infos m' i)) \<notin> set ys"
  shows "fst (dispatchExecutor pq_top c (fold (run_manager pq_top) ys m')) = Inr (Some ex)"
proof -
  let ?m = "fold (run_manager pq_top) ys m'"
  have inv: "em_inv m'" using dispatch_inv [OF assms(1), of c] assms(2) by simp
  have "m_contract2ExecutorInfo ?m c = Some i" "executor (infos ?m i) = executor (infos m' i)"
    using bindings_kept [OF inv assms(3,4)] by auto
  moreover have "em_inv ?m" using inv by (rule run_managers_inv)
  ultimately show ?thesis
    using dispatch_bound dispatch_returns_bound [OF assms(1-3)] by simp
qed

text \<open>The locked section, entered after a lookup that found nothing at the time.\<close>

lemma dispatchLocked_stale:
  assumes inv: "em_inv m" and ne: "m_name2Executors m \<noteq> []"
    and new: "\<And>i. i \<in> registered m \<Longrightarrow> load m i = 0 \<Longrightarrow> c \<notin> set (contracts (infos m i))"
    and idle: "\<exists>i \<in> registered m. load m i = 0"
  shows "\<exists>i m'. i \<in> registered m \<and> load m i = 0 \<and>
    dispatchLocked pq_top c m = (Inr (executor (infos m i)), m')"
proof -
  let ?i = "pq_top (ExecutorInfoComp m) (m_executorPriorityQueue m)"
  have i: "?i \<in> registered m" using inv ne by (rule top_least_loaded)
  have zero: "load m ?i = 0" using idle top_least_loaded(2) [OF inv ne] by force
  have "m_executorPriorityQueue m \<noteq> []" using i em_invD(3) [OF inv] by force
  then have "\<exists>m'. dispatchLocked pq_top c m = (Inr (executor (infos m ?i)), m')"
    using new [OF i zero] by (simp add: dispatchLocked_def Let_def)
  with i zero show ?thesis by blast
qed

end

subsection \<open>Balance\<close>

definition balanced :: "ExecutorManager \<Rightarrow> bool" where
  "balanced m \<longleftrightarrow> (\<forall>i \<in> registered m. \<forall>j \<in> registered m. load m i \<le> Suc (load m j))"

context priority_queue_top
begin

lemma dispatch_balanced_step:
  assumes "em_inv m" and "balanced m"
  shows "balanced (snd (dispatchExecutor pq_top c m))"
proof (cases "m_name2Executors m = []")
  case True
  with assms show ?thesis by (simp add: dispatch_empty)
next
  case False
  with assms(1) show ?thesis
  proof (cases rule: dispatch_cases [where c = c])
    case (new i)
    have "c \<notin> set (contracts (infos m i))"
      using assms(1) new(1,2) by (rule unbound_not_in_contracts)
    note load = load_bind_contract [OF assms(1) this]
    show ?thesis
      using assms(2) new(2,3) by (auto simp: balanced_def new(4) load intro: le_SucI)
  qed (use assms in simp)
qed

lemma dispatches_balanced:
  "em_inv m \<Longrightarrow> balanced m \<Longrightarrow> balanced (fold (\<lambda>c m. snd (dispatchExecutor pq_top c m)) cs m)"
  by (induction cs arbitrary: m) (auto intro: dispatch_balanced_step dispatch_inv)

end

subsection \<open>Concurrent dispatch of one contract\<close>

text \<open>
  The lookup in \<open>m_contract2ExecutorInfo\<close> runs without the mutex, and the locked part does not
  look again. A thread that missed waits for the mutex; if \<open>try_to_lock\<close> fails it starts over.
\<close>

datatype dispatch_pc = Looking | Missed | Returned ExecutorPtr | Failed exn

inductive dispatch_step ::
  "((nat \<Rightarrow> nat \<Rightarrow> bool) \<Rightarrow> nat list \<Rightarrow> nat) \<Rightarrow> string \<Rightarrow>
   ExecutorManager \<times> (nat \<Rightarrow> dispatch_pc) \<Rightarrow> ExecutorManager \<times> (nat \<Rightarrow> dispatch_pc) \<Rightarrow> bool"
  for pq_top and c
where
  hit: "pcs t = Looking \<Longrightarrow> m_contract2ExecutorInfo m c = Some i \<Longrightarrow>
     dispatch_step pq_top c (m, pcs) (m, pcs(t := Returned (executor (infos m i))))"
| miss: "pcs t = Looking \<Longrightarrow> m_contract2ExecutorInfo m c = None \<Longrightarrow>
     dispatch_step pq_top c (m, pcs) (m, pcs(t := Missed))"
| lock_busy: "pcs t = Missed \<Longrightarrow> dispatch_step pq_top c (m, pcs) (m, pcs(t := Looking))"
| locked: "pcs t = Missed \<Longrightarrow> dispatchLocked pq_top c m = (Inr ex, m') \<Longrightarrow>
     dispatch_step pq_top c (m, pcs) (m', pcs(t := Returned ex))"
| locked_throws: "pcs t = Missed \<Longrightarrow> dispatchLocked pq_top c m = (Inl e, m') \<Longrightarrow>
     dispatch_step pq_top c (m, pcs) (m', pcs(t := Failed e))"

subsection \<open>Properties\<close>

abbreviation manager_after ::
  "((nat \<Rightarrow> nat \<Rightarrow> bool) \<Rightarrow> nat list \<Rightarrow> nat) \<Rightarrow> manager_op list \<Rightarrow> ExecutorManager"
where
  "manager_after pq_top xs \<equiv> fold (run_manager pq_top) xs empty_manager"

lemma manager_after_inv: "priority_queue_top pq_top \<Longrightarrow> em_inv (manager_after pq_top xs)"
  by (simp add: priority_queue_top.run_managers_inv em_inv_empty)

text \<open>
  (C18) After any sequence of calls, \<open>dispatchExecutor\<close> returns the null pointer if no executor
  is registered and otherwise a registered executor; it does not throw. A contract that was not
  bound before goes to an executor with the fewest contracts.
\<close>

theorem dispatchExecutor_outcome:
  assumes "priority_queue_top pq_top" and "m = manager_after pq_top xs"
  shows "(if m_name2Executors m = [] then dispatchExecutor pq_top c m = (Inr None, m)
    else \<exists>i m'. dispatchExecutor pq_top c m = (Inr (Some (executor (infos m i))), m') \<and>
           i \<in> registered m \<and> m_contract2ExecutorInfo m' c = Some i \<and>
           (m_contract2ExecutorInfo m c = None \<longrightarrow> (\<forall>j \<in> registered m. load m i \<le> load m j)))"
  using priority_queue_top.dispatch_outcome [OF assms(1), of m c] manager_after_inv [OF assms(1)]
  by (simp add: assms(2) dispatchExecutor_def)

theorem dispatchExecutor_outcome_witness:
  "priority_queue_top leftmost_top \<and>
   (\<exists>i m'. dispatchExecutor leftmost_top ''c''
       (manager_after leftmost_top [AddExecutor ''a'' 7]) = (Inr (Some 7), m') \<and>
      m_contract2ExecutorInfo m' ''c'' = Some i)"
  using dispatchExecutor_outcome [OF leftmost.priority_queue_top_axioms refl,
      of "[AddExecutor ''a'' 7]" "''c''"] leftmost.priority_queue_top_axioms
  by (auto simp: addExecutor_def empty_manager_def registered_def)

text \<open>
  (C19) Dispatch is sticky: a contract that was dispatched once goes to the same executor after
  any further calls, as long as that executor is not removed.
\<close>

theorem dispatch_sticky:
  assumes "priority_queue_top pq_top"
    and "dispatchExecutor pq_top c (manager_after pq_top xs) = (Inr (Some ex), m)"
    and "m_contract2ExecutorInfo m c = Some i" and "RemoveExecutor (name (infos m i)) \<notin> set ys"
  shows "fst (dispatchExecutor pq_top c (fold (run_manager pq_top) ys m)) = Inr (Some ex)"
  using assms manager_after_inv [OF assms(1)] by (blast intro: priority_queue_top.dispatch_again)

lemma two_executors:
  "manager_after leftmost_top [AddExecutor ''a'' 7, AddExecutor ''b'' 8] =
     \<lparr>infos = ((infos empty_manager)(0 := \<lparr>name = ''a'', executor = 7, contracts = []\<rparr>,
        1 := \<lparr>name = ''b'', executor = 8, contracts = []\<rparr>)), next_info = 2,
      m_contract2ExecutorInfo = Map.empty, m_name2Executors = [(''a'', 0), (''b'', 1)],
      m_executorPriorityQueue = [0, 1]\<rparr>"
  by (simp add: addExecutor_def empty_manager_def numeral_2_eq_2)

theorem dispatch_sticky_witness:
  "\<exists>m. dispatchExecutor leftmost_top ''c''
       (manager_after leftmost_top [AddExecutor ''a'' 7, AddExecutor ''b'' 8]) = (Inr (Some 7), m) \<and>
     fst (dispatchExecutor leftmost_top ''c'' (fold (run_manager leftmost_top)
       [Dispatch ''d'', RemoveExecutor ''b'', AddExecutor ''e'' 9] m)) = Inr (Some 7)"
proof -
  let ?m = "manager_after leftmost_top [AddExecutor ''a'' 7, AddExecutor ''b'' 8]"
  let ?m' = "snd (dispatchExecutor leftmost_top ''c'' ?m)"
  have run: "dispatchExecutor leftmost_top ''c'' ?m = (Inr (Some 7), ?m')"
    and bound: "m_contract2ExecutorInfo ?m' ''c'' = Some 0" and name: "name (infos ?m' 0) = ''a''"
    unfolding two_executors
    by (simp_all add: dispatchExecutor_def dispatchLocked_def leftmost_top_def
        ExecutorInfoComp_def load_def)
  have "fst (dispatchExecutor leftmost_top ''c'' (fold (run_manager leftmost_top)
       [Dispatch ''d'', RemoveExecutor ''b'', AddExecutor ''e'' 9] ?m')) = Inr (Some 7)"
    by (rule dispatch_sticky [OF leftmost.priority_queue_top_axioms run bound]) (unfold name, simp)
  with run show ?thesis by (intro exI conjI)
qed

text \<open>
  (C20) Load balance: if every registered executor starts without contracts, then after
  dispatching any list of contracts the numbers of contracts of two executors differ by at
  most one.
\<close>

theorem dispatch_keeps_balance:
  assumes "priority_queue_top pq_top" and "m = manager_after pq_top xs"
    and "\<forall>i \<in> registered m. contracts (infos m i) = []"
    and "m' = fold (\<lambda>c m. snd (dispatchExecutor pq_top c m)) cs m"
    and "i \<in> registered m'" and "j \<in> registered m'"
  shows "load m' i \<le> load m' j + 1"
proof -
  have "em_inv m" using assms(1,2) manager_after_inv by simp
  moreover have "balanced m"
    using assms(3) by (simp add: balanced_def load_def)
  ultimately have "balanced m'"
    unfolding assms(4) using priority_queue_top.dispatches_balanced [OF assms(1)] by blast
  with assms(5,6) show ?thesis by (simp add: balanced_def)
qed

theorem dispatch_keeps_balance_witness:
  "load (fold (\<lambda>c m. snd (dispatchExecutor leftmost_top c m)) [''x'', ''y'', ''z'', ''x'']
     (manager_after leftmost_top [AddExecutor ''a'' 7, AddExecutor ''b'' 8])) 0 \<le>
   load (fold (\<lambda>c m. snd (dispatchExecutor leftmost_top c m)) [''x'', ''y'', ''z'', ''x'']
     (manager_after leftmost_top [AddExecutor ''a'' 7, AddExecutor ''b'' 8])) 1 + 1"
  unfolding two_executors
  by (rule dispatch_keeps_balance [OF leftmost.priority_queue_top_axioms
        two_executors [symmetric] _ refl])
     (simp_all add: registered_def dispatchExecutor_def dispatchLocked_def
        leftmost_top_def ExecutorInfoComp_def load_def insort_insert_key_def Let_def)

text \<open>
  (C21) \<open>removeExecutor\<close> of a registered name succeeds, unbinds exactly the contracts of that
  executor, keeps every other binding, and unregisters the name only; of an unknown name
  it throws and changes nothing. \<open>addExecutor\<close> of a name in use throws and changes nothing.
\<close>

theorem registration_effects:
  assumes "priority_queue_top pq_top" and "m = manager_after pq_top xs"
  shows "(case map_of (m_name2Executors m) nm of
      Some i \<Rightarrow> (\<exists>m'. removeExecutor nm m = (Inr (), m') \<and>
        (\<forall>c. m_contract2ExecutorInfo m' c =
               (if m_contract2ExecutorInfo m c = Some i then None else m_contract2ExecutorInfo m c)) \<and>
        fst ` set (m_name2Executors m') = fst ` set (m_name2Executors m) - {nm}) \<and>
        addExecutor nm ex m = (Inl (ThrowException ''Executor already exists''), m)
    | None \<Rightarrow> removeExecutor nm m = (Inl (ThrowCode (-1)), m) \<and>
        (\<exists>m'. addExecutor nm ex m = (Inr (), m') \<and>
          fst ` set (m_name2Executors m') = insert nm (fst ` set (m_name2Executors m)) \<and>
          m_contract2ExecutorInfo m' = m_contract2ExecutorInfo m))"
proof (cases "map_of (m_name2Executors m) nm")
  case None
  then have "nm \<notin> fst ` set (m_name2Executors m)" by (simp add: map_of_eq_None_iff)
  with None show ?thesis
    by (simp add: removeExecutor_def addExecutor_def Let_def)
next
  case (Some i)
  have inv: "em_inv m" using assms manager_after_inv by simp
  have reg: "i \<in> registered m" and nm: "nm \<in> fst ` set (m_name2Executors m)"
    using map_of_SomeD [OF Some] by (force simp: registered_def)+
  have "c \<in> set (contracts (infos m i)) \<longleftrightarrow> m_contract2ExecutorInfo m c = Some i" for c
    using em_invD(5) [OF inv, of c i] reg by simp
  with Some nm show ?thesis
    by (auto simp: removeExecutor_known [OF inv Some] restrict_map_def addExecutor_def Let_def
        image_iff split: if_splits)
qed

theorem registration_effects_witness:
  "\<exists>m'. removeExecutor ''a'' (manager_after leftmost_top [AddExecutor ''a'' 7, AddExecutor ''b'' 8]) =
     (Inr (), m') \<and> fst ` set (m_name2Executors m') = {''b''}"
  using registration_effects [OF leftmost.priority_queue_top_axioms two_executors [symmetric],
      of "''a''" 0]
  unfolding two_executors by (simp add: insert_Diff_if) blast

text \<open>
  (C22) The lookup and the locked section of \<open>dispatchExecutor\<close> are not one atomic step: with two
  idle executors, two threads that dispatch the same new contract can be given different
  executors.
\<close>

theorem dispatch_race:
  assumes "priority_queue_top pq_top"
  shows "\<exists>m pcs ex ex'. (dispatch_step pq_top c)\<^sup>*\<^sup>*
      (manager_after pq_top [AddExecutor ''a'' 1, AddExecutor ''b'' 2], \<lambda>_. Looking) (m, pcs) \<and>
    pcs 0 = Returned ex \<and> pcs 1 = Returned ex' \<and> ex \<noteq> ex'"
proof -
  define m where "m = manager_after pq_top [AddExecutor ''a'' 1, AddExecutor ''b'' 2]"
  let ?step = "dispatch_step pq_top c" and ?p = "(\<lambda>_. Looking)(0 := Missed, Suc 0 := Missed)"
  have inv: "em_inv m" unfolding m_def using assms by (rule manager_after_inv)
  have new: "m_contract2ExecutorInfo m c = None" and reg: "registered m = {0, 1}"
    and none: "contracts (infos m j) = []" and ne: "m_name2Executors m \<noteq> []"
    and ex: "executor (infos m 0) = 1" "executor (infos m 1) = 2" for j
    by (auto simp: m_def registered_def addExecutor_def empty_manager_def)
  obtain i where i: "i \<in> registered m"
    and d1: "dispatchLocked pq_top c m = (Inr (executor (infos m i)), bind_contract c i m)"
    using priority_queue_top.dispatchLocked_new [OF assms inv ne new] by blast
  let ?m1 = "bind_contract c i m"
  have inv1: "em_inv ?m1" using inv i new by (rule bind_contract_inv)
  have load1: "load ?m1 j = (if j = i then 1 else 0)" for j
    using load_bind_contract [OF inv, of c i j] none by (simp add: load_def)
  have "\<exists>j m2. j \<in> registered ?m1 \<and> load ?m1 j = 0 \<and>
    dispatchLocked pq_top c ?m1 = (Inr (executor (infos ?m1 j)), m2)"
    by (rule priority_queue_top.dispatchLocked_stale [OF assms inv1])
       (use ne i reg load1 in \<open>auto simp: load_def split: if_splits\<close>)
  then obtain j m2 where j: "j \<in> registered m" "j \<noteq> i"
    and d2: "dispatchLocked pq_top c ?m1 = (Inr (executor (infos m j)), m2)"
    using load1 by (auto split: if_splits)
  let ?ex = "executor (infos m i)" and ?ex' = "executor (infos m j)"
  have s1: "?step (m, \<lambda>_. Looking) (m, (\<lambda>_. Looking)(0 := Missed))"
    by (rule dispatch_step.miss) (simp_all only: new)
  have s2: "?step (m, (\<lambda>_. Looking)(0 := Missed)) (m, ?p)"
    by (rule dispatch_step.miss) (simp_all add: new)
  have s3: "?step (m, ?p) (?m1, ?p(0 := Returned ?ex))"
    by (rule dispatch_step.locked [OF _ d1]) simp
  have s4: "?step (?m1, ?p(0 := Returned ?ex)) (m2, ?p(0 := Returned ?ex, Suc 0 := Returned ?ex'))"
    by (rule dispatch_step.locked [OF _ d2]) simp
  have "?step\<^sup>*\<^sup>* (m, \<lambda>_. Looking) (m2, ?p(0 := Returned ?ex, Suc 0 := Returned ?ex'))"
    by (rule converse_rtranclp_into_rtranclp, rule s1, rule converse_rtranclp_into_rtranclp,
        rule s2, rule converse_rtranclp_into_rtranclp, rule s3, rule r_into_rtranclp, rule s4)
  moreover have "i = 0 \<and> j = 1 \<or> i = 1 \<and> j = 0"
    using i j unfolding reg by blast
  then have "?ex \<noteq> ?ex'" by (elim disjE conjE) (simp_all only: ex)
  ultimately show ?thesis unfolding m_def [symmetric]
    by (intro exI conjI) (assumption, simp_all)
qed

theorem dispatch_race_witness:
  "\<exists>m pcs ex ex'. (dispatch_step leftmost_top ''c'')\<^sup>*\<^sup>*
      (manager_after leftmost_top [AddExecutor ''a'' 1, AddExecutor ''b'' 2], \<lambda>_. Looking) (m, pcs) \<and>
    pcs 0 = Returned ex \<and> pcs 1 = Returned ex' \<and> ex \<noteq> ex'"
  using dispatch_race [OF leftmost.priority_queue_top_axioms] .

end
