(* ===== verification/Checksum_Address.thy ===== *)
theory Checksum_Address
  imports Prelude
begin

text \<open>
  Contract addresses: the mixed-case checksum of \<^verbatim>\<open>ChecksumAddress.h\<close> and the address
  functions \<open>newEVMAddress\<close> and \<open>preprocessAddress\<close> of \<^verbatim>\<open>BlockExecutive.cpp\<close>.

  A byte is a \<open>char\<close>. The hash function \<open>hash\<close> (a string to 32 bytes), the hexadecimal form
  \<open>hex\<close> of a hash value, \<open>toHexString\<close> and \<open>toBigEndian\<close> belong to the framework and are
  parameters. \<open>isdigit\<close>, \<open>toupper\<close> and \<open>to_lower\<close> are those of the C locale. An index past the
  end of a \<open>string_view\<close> is the error \<open>OutOfRange\<close>.
\<close>

subsection \<open>Characters\<close>

definition isdigit :: "char \<Rightarrow> bool" where
  "isdigit c \<longleftrightarrow> CHR ''0'' \<le> c \<and> c \<le> CHR ''9''"

definition toupper :: "char \<Rightarrow> char" where
  "toupper c = (if CHR ''a'' \<le> c \<and> c \<le> CHR ''z'' then char_of (of_char c - 32 :: nat) else c)"

definition tolower :: "char \<Rightarrow> char" where
  "tolower c = (if CHR ''A'' \<le> c \<and> c \<le> CHR ''Z'' then char_of (of_char c + 32 :: nat) else c)"

abbreviation to_lower :: "string \<Rightarrow> string" where
  "to_lower \<equiv> map tolower"

definition convertHexCharToInt :: "char \<Rightarrow> int" where
  "convertHexCharToInt byte =
     (if CHR ''0'' \<le> byte \<and> byte \<le> CHR ''9'' then of_char byte - 48
      else if CHR ''a'' \<le> byte \<and> byte \<le> CHR ''f'' then of_char byte - 97 + 10
      else if CHR ''A'' \<le> byte \<and> byte \<le> CHR ''F'' then of_char byte - 65 + 10
      else 0)"

subsection \<open>The checksum\<close>

text \<open>The loop of the first overload; the second argument is the hash text from index \<open>i\<close> on.\<close>

fun checksum_loop :: "string \<Rightarrow> string \<Rightarrow> exn + string" where
  "checksum_loop [] hs = Inr []"
| "checksum_loop (c # cs) hs =
     (if isdigit c then map_sum id ((#) c) (checksum_loop cs (tl hs))
      else case hs of
             [] \<Rightarrow> Inl OutOfRange
           | h # hs' \<Rightarrow>
               map_sum id ((#) (if convertHexCharToInt h \<ge> 8 then toupper c else c)) (checksum_loop cs hs'))"

definition toChecksumAddress :: "(string \<Rightarrow> string) \<Rightarrow> (string \<Rightarrow> string) \<Rightarrow> string \<Rightarrow> exn + string" where
  "toChecksumAddress hash hex hexAddress =
     (let a = to_lower hexAddress in checksum_loop a (hex (hash a)))"

definition toChecksumAddressFromBytes ::
  "(string \<Rightarrow> string) \<Rightarrow> (string \<Rightarrow> string) \<Rightarrow> (string \<Rightarrow> string) \<Rightarrow> string \<Rightarrow> exn + string"
where
  "toChecksumAddressFromBytes hash hex toHexString bytes = toChecksumAddress hash hex (toHexString bytes)"

subsection \<open>Contract addresses\<close>

definition digit_char :: "nat \<Rightarrow> char" where
  "digit_char d = char_of (48 + d)"

fun dec_nat :: "nat \<Rightarrow> string" where
  "dec_nat n = (if n < 10 then [digit_char n] else dec_nat (n div 10) @ [digit_char (n mod 10)])"

text \<open>\<open>boost::lexical_cast<std::string>\<close> of an integer.\<close>

definition lexical_cast_string :: "int \<Rightarrow> string" where
  "lexical_cast_string i =
     (if i < 0 then CHR ''-'' # dec_nat (nat (- i)) else dec_nat (nat i))"

text \<open>\<open>boost::algorithm::hex\<close> writes two upper-case digits per byte.\<close>

definition hex_digit :: "nat \<Rightarrow> char" where
  "hex_digit d = (if d < 10 then char_of (48 + d) else char_of (55 + d))"

definition boost_hex :: "string \<Rightarrow> string" where
  "boost_hex bs = concat (map (\<lambda>b. [hex_digit (of_char b div 16), hex_digit (of_char b mod 16)]) bs)"

definition create_preimage :: "int \<Rightarrow> ContextID \<Rightarrow> Seq \<Rightarrow> string" where
  "create_preimage blockNumber contextID seq =
     lexical_cast_string blockNumber @ ''_'' @ lexical_cast_string contextID @ ''_'' @
     lexical_cast_string seq"

definition newEVMAddress ::
  "(string \<Rightarrow> string) \<Rightarrow> (string \<Rightarrow> string) \<Rightarrow> int \<Rightarrow> ContextID \<Rightarrow> Seq \<Rightarrow> exn + string"
where
  "newEVMAddress hash hex blockNumber contextID seq =
     toChecksumAddress hash hex (boost_hex (take 20 (hash (create_preimage blockNumber contextID seq))))"

definition newEVMAddressSalt ::
  "(string \<Rightarrow> string) \<Rightarrow> (string \<Rightarrow> string) \<Rightarrow> (nat \<Rightarrow> string) \<Rightarrow> string \<Rightarrow> string \<Rightarrow> nat \<Rightarrow> exn + string"
where
  "newEVMAddressSalt hash hex toBigEndian sender init salt =
     toChecksumAddress hash hex
       (boost_hex (take 20 (hash (char_of (0xff :: nat) # sender @ toBigEndian salt @ hash init))))"

text \<open>\<open>address[1]\<close> is read only if \<open>address[0]\<close> is \<open>'0'\<close>.\<close>

definition preprocessAddress :: "string \<Rightarrow> exn + string" where
  "preprocessAddress address =
     (case address of
        [] \<Rightarrow> Inl OutOfRange
      | c # rest \<Rightarrow>
          if c = CHR ''0'' then
            (case rest of
               [] \<Rightarrow> Inl OutOfRange
             | d # out \<Rightarrow> Inr (to_lower (if d = CHR ''x'' then out else address)))
          else Inr (to_lower address))"

subsection \<open>Facts on characters\<close>

lemma char_le_iff: "c \<le> d \<longleftrightarrow> (of_char c :: nat) \<le> of_char d"
  by (simp add: less_eq_char_def)

lemmas char_case_defs = isdigit_def toupper_def tolower_def char_le_iff

lemma of_char_less [simp]: "(of_char c :: nat) < 256"
  by simp

lemma tolower_tolower [simp]: "tolower (tolower c) = tolower c"
  by (simp add: char_case_defs)

lemma tolower_toupper [simp]: "tolower (toupper c) = tolower c"
  by (auto simp: char_case_defs)

lemma tolower_isdigit [simp]: "isdigit (tolower c) = isdigit c"
  by (auto simp: char_case_defs)

subsection \<open>The checksum loop\<close>

text \<open>The checksum as a function of position: a letter is upper case iff its hash digit is 8 or more.\<close>

definition checksum_char :: "char \<Rightarrow> char \<Rightarrow> char" where
  "checksum_char c h = (if \<not> isdigit c \<and> convertHexCharToInt h \<ge> 8 then toupper c else c)"

lemma checksum_loop_map2:
  "length cs \<le> length hs \<Longrightarrow> checksum_loop cs hs = Inr (map2 checksum_char cs hs)"
proof (induction cs arbitrary: hs)
  case (Cons c cs)
  then show ?case by (cases hs) (auto simp: checksum_char_def)
qed simp

lemma tolower_checksum_char [simp]: "tolower (checksum_char c h) = tolower c"
  by (simp add: checksum_char_def)

lemma nth_map2_checksum:
  "i < length cs \<Longrightarrow> length cs \<le> length hs \<Longrightarrow>
     map2 checksum_char cs hs ! i = checksum_char (cs ! i) (hs ! i)"
  by simp

lemma to_lower_map2_checksum:
  "length cs \<le> length hs \<Longrightarrow> to_lower (map2 checksum_char cs hs) = to_lower cs"
proof (induction cs arbitrary: hs)
  case (Cons c cs)
  then show ?case by (cases hs) auto
qed simp

lemma to_lower_idem [simp]: "to_lower (to_lower xs) = to_lower xs"
  by simp

lemma toChecksumAddress_result:
  assumes "length a \<le> length (hex (hash (to_lower a)))"
  shows "toChecksumAddress hash hex a =
    Inr (map2 checksum_char (to_lower a) (hex (hash (to_lower a))))"
  using assms by (simp add: toChecksumAddress_def Let_def checksum_loop_map2)

lemma to_lower_checksum:
  assumes "length a \<le> length (hex (hash (to_lower a)))" and "toChecksumAddress hash hex a = Inr r"
  shows "to_lower r = to_lower a"
proof -
  have "r = map2 checksum_char (to_lower a) (hex (hash (to_lower a)))"
    using toChecksumAddress_result [where hash = hash and hex = hex, OF assms(1)] assms(2) by simp
  then show ?thesis
    using to_lower_map2_checksum [of "to_lower a" "hex (hash (to_lower a))"] assms(1) by simp
qed

subsection \<open>Printing of numbers\<close>

definition digits_val :: "string \<Rightarrow> nat" where
  "digits_val = foldl (\<lambda>a c. 10 * a + (of_char c - 48)) 0"

declare dec_nat.simps [simp del]

lemma of_char_digit_char: "d < 10 \<Longrightarrow> (of_char (digit_char d) :: nat) = 48 + d"
  by (simp add: digit_char_def)

lemma digits_val_dec_nat: "digits_val (dec_nat n) = n"
proof (induction n rule: dec_nat.induct)
  case (1 n)
  then show ?case
    by (cases "n < 10") (simp_all add: dec_nat.simps [of n] digits_val_def of_char_digit_char)
qed

lemma dec_nat_digits: "c \<in> set (dec_nat n) \<Longrightarrow> isdigit c"
proof (induction n rule: dec_nat.induct)
  case (1 n)
  have "isdigit (digit_char d)" if "d < 10" for d
    using of_char_digit_char [OF that] that by (simp add: char_case_defs)
  with 1 show ?case by (cases "n < 10") (auto simp: dec_nat.simps [of n])
qed

lemma not_isdigit_minus: "\<not> isdigit (CHR ''-'')"
  by (simp add: char_case_defs)

lemma lexical_cast_string_inj: "lexical_cast_string i = lexical_cast_string j \<longleftrightarrow> i = j"
proof
  assume eq: "lexical_cast_string i = lexical_cast_string j"
  have minus: "CHR ''-'' # xs \<noteq> dec_nat n" for xs n
    using dec_nat_digits [of "CHR ''-''" n] by (metis list.set_intros(1) not_isdigit_minus)
  have "dec_nat (nat \<bar>i\<bar>) = dec_nat (nat \<bar>j\<bar>)" "(i < 0) = (j < 0)"
    using eq minus minus [symmetric] by (auto simp: lexical_cast_string_def split: if_splits)
  then show "i = j" using digits_val_dec_nat by (metis abs_of_neg abs_of_nonneg eq_nat_nat_iff abs_ge_zero linorder_not_less neg_equal_iff_equal)
qed simp

lemma lexical_cast_string_no_underscore: "CHR ''_'' \<notin> set (lexical_cast_string i)"
  using dec_nat_digits by (fastforce simp: lexical_cast_string_def char_case_defs split: if_splits)

lemma split_at_separator:
  assumes "xs @ s # ys = xs' @ s # ys'" and "s \<notin> set xs" and "s \<notin> set xs'"
  shows "xs = xs' \<and> ys = ys'"
  using assms
proof (induction xs arbitrary: xs')
  case Nil
  then show ?case by (cases xs') auto
next
  case (Cons x xs)
  then show ?case by (cases xs') auto
qed

text \<open>The text that is hashed determines block, context and sequence number.\<close>

lemma create_preimage_inj:
  "create_preimage n c q = create_preimage n' c' q' \<longleftrightarrow> n = n' \<and> c = c' \<and> q = q'"
proof
  assume "create_preimage n c q = create_preimage n' c' q'"
  then have eq: "lexical_cast_string n @ CHR ''_'' # (lexical_cast_string c @ CHR ''_'' # lexical_cast_string q) =
      lexical_cast_string n' @ CHR ''_'' # (lexical_cast_string c' @ CHR ''_'' # lexical_cast_string q')"
    by (simp add: create_preimage_def)
  note fst = split_at_separator [OF eq lexical_cast_string_no_underscore lexical_cast_string_no_underscore]
  note snd = split_at_separator [OF fst [THEN conjunct2] lexical_cast_string_no_underscore
      lexical_cast_string_no_underscore]
  from fst snd show "n = n' \<and> c = c' \<and> q = q'" by (simp add: lexical_cast_string_inj)
qed simp

lemma tolower_hex_digit_inj:
  assumes "d < 16" and "e < 16" and "tolower (hex_digit d) = tolower (hex_digit e)"
  shows "d = e"
proof -
  have code: "(of_char (tolower (hex_digit d)) :: nat) = (if d < 10 then 48 + d else 87 + d)"
    if "d < 16" for d
    using that by (auto simp: hex_digit_def char_case_defs)
  have "(if d < 10 then 48 + d else 87 + d) = (if e < 10 then 48 + e else 87 + e)"
    by (rule trans [OF code [OF assms(1), symmetric]]) (unfold assms(3), rule code [OF assms(2)])
  with assms(1,2) show ?thesis by (simp split: if_splits)
qed

lemma boost_hex_Cons [simp]:
  "boost_hex (b # bs) = hex_digit (of_char b div 16) # hex_digit (of_char b mod 16) # boost_hex bs"
  by (simp add: boost_hex_def)

lemma length_boost_hex [simp]: "length (boost_hex bs) = 2 * length bs"
  by (induction bs) (auto simp: boost_hex_def)

lemma boost_hex_inj: "to_lower (boost_hex bs) = to_lower (boost_hex cs) \<Longrightarrow> bs = cs"
proof (induction bs arbitrary: cs)
  case Nil
  then show ?case by (cases cs) (auto simp: boost_hex_def)
next
  case (Cons b bs)
  from Cons.prems obtain c cs' where cs: "cs = c # cs'"
    by (cases cs) (auto simp: boost_hex_def)
  have "(of_char b :: nat) div 16 < 16" "(of_char c :: nat) div 16 < 16"
    using of_char_less [of b] of_char_less [of c] by (simp_all add: less_mult_imp_div_less)
  then have "(of_char b :: nat) div 16 = of_char c div 16" "(of_char b :: nat) mod 16 = of_char c mod 16"
    using Cons.prems by (auto simp: cs intro!: tolower_hex_digit_inj)
  then have "(of_char b :: nat) = of_char c" by (metis div_mult_mod_eq)
  then have "b = c" by simp
  with Cons cs show ?case by simp
qed

subsection \<open>Properties\<close>

text \<open>
  (C29) \<open>toChecksumAddress\<close> with a 64-digit hash text succeeds on every address of at most 64
  characters. Digits stay, a letter is upper case exactly if the digit of the hash at its
  position is 8 or more, and the result is the canonical spelling: it is a fixed point, and two
  spellings get the same result exactly if they differ in case only.
\<close>

theorem toChecksumAddress_canonical:
  assumes "\<And>x. length (hex (hash x)) = 64" and "length a \<le> 64" and "length b \<le> 64"
  shows "\<exists>r. toChecksumAddress hash hex a = Inr r \<and> length r = length a \<and>
    (\<forall>i < length a. r ! i =
       (let c = tolower (a ! i) in
        if \<not> isdigit c \<and> convertHexCharToInt (hex (hash (to_lower a)) ! i) \<ge> 8 then toupper c else c)) \<and>
    toChecksumAddress hash hex r = Inr r \<and>
    (toChecksumAddress hash hex b = Inr r \<longleftrightarrow> to_lower a = to_lower b)"
proof -
  let ?r = "map2 checksum_char (to_lower a) (hex (hash (to_lower a)))"
  have r: "toChecksumAddress hash hex a = Inr ?r"
    by (rule toChecksumAddress_result) (simp add: assms)
  have low: "to_lower ?r = to_lower a"
    by (rule to_lower_checksum [where hash = hash and hex = hex]) (simp_all add: assms r)
  have "toChecksumAddress hash hex ?r = Inr ?r"
    using r unfolding toChecksumAddress_def Let_def low .
  moreover have "toChecksumAddress hash hex b = Inr ?r \<longleftrightarrow> to_lower a = to_lower b"
  proof
    assume "toChecksumAddress hash hex b = Inr ?r"
    then have "to_lower ?r = to_lower b"
      by (intro to_lower_checksum [where hash = hash and hex = hex]) (simp_all add: assms)
    with low show "to_lower a = to_lower b" by simp
  next
    assume "to_lower a = to_lower b"
    with r show "toChecksumAddress hash hex b = Inr ?r" by (simp add: toChecksumAddress_def)
  qed
  moreover have "?r ! i = checksum_char (tolower (a ! i)) (hex (hash (to_lower a)) ! i)"
    if "i < length a" for i
    using nth_map2_checksum [of i "to_lower a" "hex (hash (to_lower a))"] that assms by simp
  ultimately show ?thesis
    using r assms(1,2)
    by (intro exI [of _ ?r]) (simp add: checksum_char_def [of "tolower _"] Let_def)
qed

theorem toChecksumAddress_canonical_witness:
  "\<exists>r. toChecksumAddress id (\<lambda>_. replicate 64 CHR ''9'') ''ab1F'' = Inr r \<and> length r = 4"
  using toChecksumAddress_canonical [of "\<lambda>_. replicate 64 CHR ''9''" id "''ab1F''" "''''"] by auto





end
