(* ===== verification/Commit_Status.thy ===== *)
theory Commit_Status
  imports Prelude
begin

text \<open>
  The fan-out protocols of \<^verbatim>\<open>BlockExecutive.cpp\<close>: \<open>batchNextBlock\<close>, \<open>batchGetHashes\<close>,
  \<open>batchBlockCommit\<close>, \<open>batchBlockRollback\<close> and the two-phase commit \<open>asyncCommit\<close>. Each sends a
  request to every executor (and to the storage) and counts the answers in a shared
  \<open>CommitStatus\<close>; the handler of an answer increments a counter and then runs
  \<open>checkAndCommit\<close>, which calls the caller's callback when all answers are in.

  There are two models. In the functions, the answers arrive one after the other, in any order,
  and each handler runs to its end before the next answer; the result is the list of calls of
  the callback. In the relation \<open>status_step\<close> the handlers of different executors run
  concurrently, the increment and the check being separate steps. An answer is its error flag;
  the answers themselves come from code outside this repository.
\<close>

unbundle bit_operations_syntax

subsection \<open>Counters\<close>

record CommitStatus =
  total :: nat
  success :: nat
  failed :: nat

definition new_status :: "nat \<Rightarrow> CommitStatus" where
  "new_status n = \<lparr>total = n, success = 0, failed = 0\<rparr>"

definition count_result :: "bool \<Rightarrow> CommitStatus \<Rightarrow> CommitStatus" where
  "count_result err s = (if err then s\<lparr>failed := failed s + 1\<rparr> else s\<lparr>success := success s + 1\<rparr>)"

text \<open>
  The common shape of the \<open>checkAndCommit\<close> closures: \<open>None\<close> if answers are missing, otherwise
  the callback's argument, an error code if some answer was an error.
\<close>

definition checkAndCommit :: "SchedulerError \<Rightarrow> CommitStatus \<Rightarrow> SchedulerError option option" where
  "checkAndCommit code s =
     (if success s + failed s < total s then None
      else if failed s > 0 then Some (Some code)
      else Some None)"

subsection \<open>The fan-outs, one answer after the other\<close>

text \<open>Handlers that count and check; the result is the list of callback calls.\<close>

fun handle_answers :: "SchedulerError \<Rightarrow> bool list \<Rightarrow> CommitStatus \<Rightarrow> SchedulerError option list" where
  "handle_answers code [] s = []"
| "handle_answers code (err # answers) s =
     (let s = count_result err s in
      case checkAndCommit code s of
        None \<Rightarrow> handle_answers code answers s
      | Some r \<Rightarrow> r # handle_answers code answers s)"

definition batchNextBlock :: "nat \<Rightarrow> bool list \<Rightarrow> SchedulerError option list" where
  "batchNextBlock executors answers = handle_answers UnknownError answers (new_status executors)"

fun handle_hashes :: "h256 option list \<Rightarrow> CommitStatus \<Rightarrow> h256 \<Rightarrow> (SchedulerError + h256) list" where
  "handle_hashes [] s totalHash = []"
| "handle_hashes (answer # answers) s totalHash =
     (let s = count_result (answer = None) s;
          totalHash = (case answer of None \<Rightarrow> totalHash | Some hash \<Rightarrow> totalHash XOR hash)
      in case checkAndCommit CommitError s of
           None \<Rightarrow> handle_hashes answers s totalHash
         | Some (Some e) \<Rightarrow> Inl e # handle_hashes answers s totalHash
         | Some None \<Rightarrow> Inr totalHash # handle_hashes answers s totalHash)"

definition batchGetHashes :: "nat \<Rightarrow> h256 option list \<Rightarrow> (SchedulerError + h256) list" where
  "batchGetHashes executors answers = handle_hashes answers (new_status executors) 0"

text \<open>The storage's handler counts its answer and then sends the requests to the executors.\<close>

definition batchBlockCommit :: "nat \<Rightarrow> bool \<Rightarrow> bool list \<Rightarrow> SchedulerError option list" where
  "batchBlockCommit executors storageError answers =
     handle_answers CommitError answers (count_result storageError (new_status (1 + executors)))"

text \<open>
  The storage's handler only counts, and runs concurrently with those of the executors.
\<close>

datatype rollback_answer = Storage bool | Executor bool

fun handle_rollback ::
  "rollback_answer list \<Rightarrow> CommitStatus \<Rightarrow> SchedulerError option list"
where
  "handle_rollback [] s = []"
| "handle_rollback (Storage err # answers) s = handle_rollback answers (count_result err s)"
| "handle_rollback (Executor err # answers) s =
     (let s = count_result err s in
      case checkAndCommit RollbackError s of
        None \<Rightarrow> handle_rollback answers s
      | Some r \<Rightarrow> r # handle_rollback answers s)"

definition batchBlockRollback :: "nat \<Rightarrow> rollback_answer list \<Rightarrow> SchedulerError option list" where
  "batchBlockRollback executors answers = handle_rollback answers (new_status (1 + executors))"

subsection \<open>Two-phase commit\<close>

record commit_answers =
  prewriteError :: bool
  prepareStorageError :: bool
  prepareErrors :: "bool list"
  commitStorageError :: bool
  commitErrors :: "bool list"
  rollbackAnswers :: "rollback_answer list"

text \<open>
  \<open>asyncCommit\<close>: the list of calls of its callback. The closure \<open>checkAndCommit\<close> of the prepare
  phase starts the roll-back or the commit; the callback handed to the roll-back does
  something only if there is an error.
\<close>

definition asyncCommit :: "nat \<Rightarrow> commit_answers \<Rightarrow> SchedulerError option list" where
  "asyncCommit executors a =
     (if prewriteError a then [Some PrewriteBlockError]
      else
        concat (map
          (\<lambda>prepared. case prepared of
             Some _ \<Rightarrow> filter (\<lambda>e. e \<noteq> None) (batchBlockRollback executors (rollbackAnswers a))
           | None \<Rightarrow> map (map_option (\<lambda>_. UnknownError))
                        (batchBlockCommit executors (commitStorageError a) (commitErrors a)))
          (handle_answers CommitError (prepareErrors a)
             (count_result (prepareStorageError a) (new_status (1 + executors))))))"

subsection \<open>Interleaved handlers\<close>

text \<open>
  How the storage takes part: not at all, as the first answer (\<open>batchBlockCommit\<close> and the prepare
  phase, whose executor requests are sent by its handler), or alongside the executors
  (\<open>batchBlockRollback\<close>).
\<close>

datatype storage_part = NoStorage | StorageFirst | StorageAlongside

text \<open>An executor's handler: waiting for the answer, counted, and returned from the check.\<close>

datatype handler_pc = Pending | Counted | Checked

record status_state =
  fan_status :: CommitStatus
  storageCounted :: bool
  handlers :: "nat \<Rightarrow> handler_pc"
  calls :: "SchedulerError option list"

record fan_out =
  fo_executors :: nat
  fo_storage :: storage_part
  fo_storageError :: bool
  fo_errors :: "nat \<Rightarrow> bool"
  fo_code :: SchedulerError

definition fan_out_total :: "fan_out \<Rightarrow> nat" where
  "fan_out_total f = (if fo_storage f = NoStorage then fo_executors f else 1 + fo_executors f)"

definition status_init :: "fan_out \<Rightarrow> status_state" where
  "status_init f =
     \<lparr>fan_status = new_status (fan_out_total f), storageCounted = False,
      handlers = (\<lambda>_. Pending), calls = []\<rparr>"

inductive status_step :: "fan_out \<Rightarrow> status_state \<Rightarrow> status_state \<Rightarrow> bool" for f where
  storage_count:
    "fo_storage f \<noteq> NoStorage \<Longrightarrow> \<not> storageCounted s \<Longrightarrow>
     status_step f s (s\<lparr>fan_status := count_result (fo_storageError f) (fan_status s), storageCounted := True\<rparr>)"
| executor_count:
    "i < fo_executors f \<Longrightarrow> handlers s i = Pending \<Longrightarrow>
     fo_storage f = StorageFirst \<longrightarrow> storageCounted s \<Longrightarrow>
     status_step f s
       (s\<lparr>fan_status := count_result (fo_errors f i) (fan_status s), handlers := (handlers s)(i := Counted)\<rparr>)"
| executor_check:
    "i < fo_executors f \<Longrightarrow> handlers s i = Counted \<Longrightarrow>
     status_step f s
       (s\<lparr>handlers := (handlers s)(i := Checked),
          calls := calls s @ (case checkAndCommit (fo_code f) (fan_status s) of None \<Rightarrow> [] | Some r \<Rightarrow> [r])\<rparr>)"

text \<open>All answers have arrived and all handlers have returned.\<close>

definition all_handled :: "fan_out \<Rightarrow> status_state \<Rightarrow> bool" where
  "all_handled f s \<longleftrightarrow>
     (\<forall>i < fo_executors f. handlers s i = Checked) \<and> (fo_storage f \<noteq> NoStorage \<longrightarrow> storageCounted s)"

definition any_error :: "fan_out \<Rightarrow> bool" where
  "any_error f \<longleftrightarrow> (\<exists>i < fo_executors f. fo_errors f i) \<or> (fo_storage f \<noteq> NoStorage \<and> fo_storageError f)"

subsection \<open>Facts on the sequential functions\<close>

lemma count_result_simps [simp]:
  "total (count_result err s) = total s"
  "success (count_result err s) + failed (count_result err s) = Suc (success s + failed s)"
  "failed (count_result err s) > 0 \<longleftrightarrow> err \<or> failed s > 0"
  by (simp_all add: count_result_def)

lemma new_status_simps [simp]:
  "total (new_status n) = n" "success (new_status n) = 0" "failed (new_status n) = 0"
  by (simp_all add: new_status_def)

lemma checkAndCommit_waiting: "success s + failed s < total s \<Longrightarrow> checkAndCommit c s = None"
  by (simp add: checkAndCommit_def)

lemma checkAndCommit_done:
  "total s \<le> success s + failed s \<Longrightarrow>
     checkAndCommit c s = Some (if failed s > 0 then Some c else None)"
  by (simp add: checkAndCommit_def)

lemma handle_answers_once:
  assumes "success s + failed s + length answers = total s" and "answers \<noteq> []"
  shows "handle_answers c answers s = [if failed s > 0 \<or> True \<in> set answers then Some c else None]"
  using assms
proof (induction answers arbitrary: s)
  case (Cons err answers)
  show ?case
  proof (cases "answers = []")
    case True
    with Cons.prems have "total s \<le> success (count_result err s) + failed (count_result err s)"
      by simp
    with True show ?thesis
      by (auto simp: Let_def checkAndCommit_done simp del: count_result_simps(2))
  next
    case False
    have "success (count_result err s) + failed (count_result err s) < total (count_result err s)"
      using Cons.prems(1) False by (cases answers) auto
    then have "checkAndCommit c (count_result err s) = None" by (rule checkAndCommit_waiting)
    moreover have "handle_answers c answers (count_result err s) =
        [if failed (count_result err s) > 0 \<or> True \<in> set answers then Some c else None]"
      by (rule Cons.IH) (use Cons.prems False in simp_all)
    ultimately show ?thesis by (auto simp: Let_def)
  qed
qed simp

lemma handle_hashes_once:
  assumes "success s + failed s + length answers = total s" and "answers \<noteq> []"
  shows "handle_hashes answers s h =
    [if failed s > 0 \<or> None \<in> set answers then Inl CommitError
     else Inr (fold (\<lambda>x y. y XOR x) (map the answers) h)]"
  using assms
proof (induction answers arbitrary: s h)
  case (Cons answer answers)
  let ?s = "count_result (answer = None) s"
  show ?case
  proof (cases "answers = []")
    case True
    with Cons.prems have "total s \<le> success ?s + failed ?s" by simp
    with True show ?thesis
      by (auto simp: Let_def checkAndCommit_done simp del: count_result_simps(2) split: option.splits)
  next
    case False
    have "success ?s + failed ?s < total ?s"
      using Cons.prems(1) False by (cases answers) auto
    then have "checkAndCommit CommitError ?s = None" by (rule checkAndCommit_waiting)
    moreover have "success ?s + failed ?s + length answers = total ?s" using Cons.prems by simp
    ultimately show ?thesis
      using Cons.IH [OF _ False, of ?s] by (auto simp: Let_def split: option.splits)
  qed
qed simp

text \<open>The hash of the state does not depend on the order of the answers.\<close>

lemma fold_xor_perm:
  fixes h :: h256
  assumes "mset xs = mset ys"
  shows "fold (\<lambda>x y. y XOR x) xs h = fold (\<lambda>x y. y XOR x) ys h"
proof -
  have "fold (\<lambda>x y. y XOR x) xs = fold (\<lambda>x y. y XOR x) ys"
    by (rule fold_multiset_equiv [OF _ assms]) (simp add: fun_eq_iff ac_simps)
  then show ?thesis by simp
qed

fun answer_error :: "rollback_answer \<Rightarrow> bool" where
  "answer_error (Storage err) = err"
| "answer_error (Executor err) = err"

fun from_storage :: "rollback_answer \<Rightarrow> bool" where
  "from_storage (Storage _) = True"
| "from_storage (Executor _) = False"

lemma handle_rollback_once:
  assumes "success s + failed s + length answers = total s" and "answers \<noteq> []"
  shows "handle_rollback answers s =
    (if from_storage (last answers) then []
     else [if failed s > 0 \<or> (\<exists>a \<in> set answers. answer_error a) then Some RollbackError else None])"
  using assms
proof (induction answers arbitrary: s)
  case (Cons a answers)
  let ?s = "count_result (answer_error a) s"
  show ?case
  proof (cases "answers = []")
    case True
    with Cons.prems have "total s \<le> success ?s + failed ?s" by simp
    with True show ?thesis
      by (cases a) (auto simp: Let_def checkAndCommit_done simp del: count_result_simps(2))
  next
    case False
    have "success ?s + failed ?s < total ?s"
      using Cons.prems(1) False by (cases answers) auto
    then have "checkAndCommit RollbackError ?s = None" by (rule checkAndCommit_waiting)
    moreover have "success ?s + failed ?s + length answers = total ?s" using Cons.prems by simp
    ultimately show ?thesis
      using Cons.IH [OF _ False, of ?s] False by (cases a) (auto simp: Let_def)
  qed
qed simp

lemma rollback_calls:
  assumes "mset answers = add_mset (Storage se) (mset (map Executor errs))"
  shows "batchBlockRollback (length errs) answers =
    (if from_storage (last answers) then []
     else [if se \<or> True \<in> set errs then Some RollbackError else None])"
proof -
  have "length answers = 1 + length errs"
    using assms by (metis mset.simps(2) size_mset length_Cons length_map plus_1_eq_Suc)
  moreover have "set answers = insert (Storage se) (Executor ` set errs)"
    using assms by (metis set_mset_add_mset_insert set_mset_mset list.set_map)
  ultimately show ?thesis
    unfolding batchBlockRollback_def
    by (subst handle_rollback_once) auto
qed

lemma batchGetHashes_perm:
  assumes "length answers = n" and "0 < n" and "mset answers' = mset answers"
  shows "batchGetHashes n answers' =
    [if None \<in> set answers then Inl CommitError
     else Inr (foldr (XOR) (map the answers) 0)]"
proof -
  have "length answers' = n" and set: "set answers' = set answers"
    using assms(1,3) by (metis size_mset, metis mset_eq_setD)
  then have "batchGetHashes n answers' =
      [if None \<in> set answers then Inl CommitError
       else Inr (fold (\<lambda>x y. y XOR x) (map the answers') 0)]"
    using assms(2) unfolding batchGetHashes_def by (subst handle_hashes_once) auto
  moreover have "fold (\<lambda>x y. y XOR x) (map the answers') 0 = fold (\<lambda>x y. y XOR x) (rev (map the answers)) 0"
    by (rule fold_xor_perm) (simp add: assms(3))
  moreover have "(\<lambda>x y. y XOR x) = ((XOR) :: h256 \<Rightarrow> _)" by (simp add: fun_eq_iff xor.commute)
  ultimately show ?thesis by (simp add: foldr_conv_fold)
qed

subsection \<open>Invariants of the interleaved handlers\<close>

definition counted :: "fan_out \<Rightarrow> status_state \<Rightarrow> nat set" where
  "counted f s = {i. i < fo_executors f \<and> handlers s i \<noteq> Pending}"

definition all_counted :: "fan_out \<Rightarrow> status_state \<Rightarrow> bool" where
  "all_counted f s \<longleftrightarrow> counted f s = {..<fo_executors f} \<and> (fo_storage f \<noteq> NoStorage \<longrightarrow> storageCounted s)"

definition status_inv :: "fan_out \<Rightarrow> status_state \<Rightarrow> bool" where
  "status_inv f s \<longleftrightarrow>
     total (fan_status s) = fan_out_total f \<and>
     success (fan_status s) + failed (fan_status s) =
       card (counted f s) + (if storageCounted s then 1 else 0) \<and>
     (failed (fan_status s) > 0 \<longleftrightarrow>
        (\<exists>i \<in> counted f s. fo_errors f i) \<or> (storageCounted s \<and> fo_storageError f)) \<and>
     (storageCounted s \<longrightarrow> fo_storage f \<noteq> NoStorage) \<and>
     (\<forall>r \<in> set (calls s). all_counted f s \<and> r = (if any_error f then Some (fo_code f) else None))"

lemma finite_counted [simp]: "finite (counted f s)"
  by (rule finite_subset [of _ "{..<fo_executors f}"]) (auto simp: counted_def)

lemma counted_subset: "counted f s \<subseteq> {..<fo_executors f}"
  by (auto simp: counted_def)

lemma card_counted_le: "card (counted f s) \<le> fo_executors f"
  using card_mono [OF _ counted_subset, of f s] by simp

lemma card_counted_all: "card (counted f s) = fo_executors f \<longleftrightarrow> counted f s = {..<fo_executors f}"
  using card_subset_eq [OF _ counted_subset, of f s] by (metis card_lessThan finite_lessThan)

text \<open>The check passes exactly when all answers are counted.\<close>

lemma check_passes_iff:
  assumes "status_inv f s"
  shows "total (fan_status s) \<le> success (fan_status s) + failed (fan_status s) \<longleftrightarrow> all_counted f s"
proof -
  note le = card_counted_le [of f s] and all = card_counted_all [of f s]
  have "total (fan_status s) \<le> success (fan_status s) + failed (fan_status s) \<longleftrightarrow>
      card (counted f s) = fo_executors f \<and> (fo_storage f \<noteq> NoStorage \<longrightarrow> storageCounted s)"
    using assms le unfolding status_inv_def fan_out_total_def by (simp split: if_splits) auto
  then show ?thesis by (simp add: all_counted_def all)
qed

lemma error_when_all_counted:
  assumes "status_inv f s" and "all_counted f s"
  shows "failed (fan_status s) > 0 \<longleftrightarrow> any_error f"
  using assms by (auto simp: status_inv_def all_counted_def any_error_def)

lemma no_call_before_all_counted: "status_inv f s \<Longrightarrow> \<not> all_counted f s \<Longrightarrow> calls s = []"
  by (cases "calls s") (auto simp: status_inv_def)

lemma status_inv_init: "status_inv f (status_init f)"
  by (simp add: status_inv_def status_init_def counted_def)

lemma status_inv_step:
  assumes "status_step f s t" and inv: "status_inv f s"
  shows "status_inv f t"
  using assms(1)
proof (cases rule: status_step.cases)
  case storage_count
  then have "counted f t = counted f s" by (simp add: counted_def)
  moreover from storage_count inv have "calls s = []"
    by (intro no_call_before_all_counted) (auto simp: all_counted_def)
  ultimately show ?thesis
    using storage_count inv by (auto simp: status_inv_def)
next
  case (executor_count i)
  then have new: "counted f t = insert i (counted f s)" "i \<notin> counted f s"
    by (auto simp: counted_def)
  moreover from executor_count inv have "calls s = []"
    by (intro no_call_before_all_counted) (auto simp: all_counted_def counted_def)
  ultimately show ?thesis
    using executor_count inv by (auto simp: status_inv_def)
next
  case (executor_check i)
  then have same: "counted f t = counted f s" by (auto simp: counted_def)
  then have all: "all_counted f t = all_counted f s" using executor_check by (simp add: all_counted_def)
  have keep: "fan_status t = fan_status s" "storageCounted t = storageCounted s"
    using executor_check by simp_all
  have "r \<in> set (calls s) \<or> (all_counted f s \<and> r = (if any_error f then Some (fo_code f) else None))"
    if "r \<in> set (calls t)" for r
    using that executor_check check_passes_iff [OF inv] error_when_all_counted [OF inv]
    by (auto simp: checkAndCommit_def split: if_splits)
  with inv show ?thesis unfolding status_inv_def same all keep by blast
qed

lemma status_inv_reachable:
  assumes "(status_step f)\<^sup>*\<^sup>* (status_init f) s"
  shows "status_inv f s"
  using assms by (induction rule: rtranclp_induct) (auto intro: status_inv_init status_inv_step)

text \<open>
  Unless the storage answers alongside, the last answer to be counted belongs to an executor,
  whose handler has yet to check.
\<close>

definition check_ahead :: "fan_out \<Rightarrow> status_state \<Rightarrow> bool" where
  "check_ahead f s \<longleftrightarrow>
     (fo_storage f = StorageFirst \<and> \<not> storageCounted s \<longrightarrow> counted f s = {}) \<and>
     (all_counted f s \<longrightarrow> calls s \<noteq> [] \<or> (\<exists>i < fo_executors f. handlers s i = Counted))"

lemma check_ahead_step:
  assumes "status_step f s t" and inv: "status_inv f s" and ahead: "check_ahead f s"
    and f: "fo_storage f \<noteq> StorageAlongside" "0 < fo_executors f"
  shows "check_ahead f t"
  using assms(1)
proof (cases rule: status_step.cases)
  case storage_count
  then have "counted f t = counted f s" by (simp add: counted_def)
  moreover have "counted f s = {}"
    using storage_count f ahead by (cases "fo_storage f") (auto simp: check_ahead_def)
  ultimately show ?thesis
    using f storage_count by (auto simp: check_ahead_def all_counted_def)
next
  case (executor_count i)
  then show ?thesis by (auto simp: check_ahead_def)
next
  case (executor_check i)
  then have "counted f t = counted f s" by (auto simp: counted_def)
  moreover from this executor_check have "all_counted f t = all_counted f s"
    by (simp add: all_counted_def)
  ultimately show ?thesis
    using executor_check ahead check_passes_iff [OF inv]
    by (auto simp: check_ahead_def checkAndCommit_def)
qed

lemma check_ahead_reachable:
  assumes "(status_step f)\<^sup>*\<^sup>* (status_init f) s"
    and "fo_storage f \<noteq> StorageAlongside" "0 < fo_executors f"
  shows "check_ahead f s"
  using assms(1)
proof (induction rule: rtranclp_induct)
  case base
  show ?case using assms(3)
    by (auto simp: check_ahead_def status_init_def counted_def all_counted_def)
next
  case (step s t)
  then show ?case
    using check_ahead_step status_inv_reachable assms(2,3) by blast
qed

subsection \<open>Properties\<close>

text \<open>
  (C23) In every interleaving of the handlers, the callback is called only after all answers have
  been counted, and its argument is the error exactly if some answer was an error.
\<close>

theorem fan_out_callback_sound:
  assumes "(status_step f)\<^sup>*\<^sup>* (status_init f) s" and "r \<in> set (calls s)"
  shows "(\<forall>i < fo_executors f. handlers s i \<noteq> Pending) \<and>
    (fo_storage f \<noteq> NoStorage \<longrightarrow> storageCounted s) \<and>
    success (fan_status s) + failed (fan_status s) = total (fan_status s) \<and>
    r = (if any_error f then Some (fo_code f) else None)"
proof -
  have inv: "status_inv f s" using assms(1) by (rule status_inv_reachable)
  with assms(2) have all: "all_counted f s" and r: "r = (if any_error f then Some (fo_code f) else None)"
    by (simp_all add: status_inv_def)
  have "success (fan_status s) + failed (fan_status s) \<le> total (fan_status s)"
    using inv card_counted_le [of f s] by (auto simp: status_inv_def fan_out_total_def)
  with all r check_passes_iff [OF inv] show ?thesis
    by (auto simp: all_counted_def counted_def)
qed

definition one_executor :: fan_out where
  "one_executor = \<lparr>fo_executors = 1, fo_storage = NoStorage, fo_storageError = False,
     fo_errors = (\<lambda>_. True), fo_code = UnknownError\<rparr>"

lemma one_executor_run:
  "\<exists>s. (status_step one_executor)\<^sup>*\<^sup>* (status_init one_executor) s \<and>
     calls s = [Some UnknownError] \<and> all_handled one_executor s"
proof -
  let ?f = one_executor and ?s = "status_init one_executor"
  let ?s1 = "?s\<lparr>fan_status := count_result (fo_errors ?f 0) (fan_status ?s),
                handlers := (handlers ?s)(0 := Counted)\<rparr>"
  let ?s2 = "?s1\<lparr>handlers := (handlers ?s1)(0 := Checked),
     calls := calls ?s1 @ (case checkAndCommit (fo_code ?f) (fan_status ?s1) of None \<Rightarrow> [] | Some r \<Rightarrow> [r])\<rparr>"
  have "status_step ?f ?s ?s1"
    by (rule executor_count) (simp_all add: one_executor_def status_init_def)
  moreover have "status_step ?f ?s1 ?s2"
    by (rule executor_check) (simp_all add: one_executor_def)
  ultimately have "(status_step ?f)\<^sup>*\<^sup>* ?s ?s2" by simp
  moreover have "calls ?s2 = [Some UnknownError]" "all_handled ?f ?s2"
    by (simp_all add: one_executor_def status_init_def fan_out_total_def checkAndCommit_def
        count_result_def new_status_def all_handled_def)
  ultimately show ?thesis by blast
qed

theorem fan_out_callback_sound_witness:
  "\<exists>s. (status_step one_executor)\<^sup>*\<^sup>* (status_init one_executor) s \<and>
     Some UnknownError \<in> set (calls s) \<and> (\<forall>i < 1. handlers s i \<noteq> Pending)"
proof -
  obtain s where s: "(status_step one_executor)\<^sup>*\<^sup>* (status_init one_executor) s"
    and c: "Some UnknownError \<in> set (calls s)"
    using one_executor_run by auto
  have "\<forall>i < fo_executors one_executor. handlers s i \<noteq> Pending"
    using fan_out_callback_sound [OF s c] by blast
  then have "\<forall>i < 1. handlers s i \<noteq> Pending" by (simp add: one_executor_def)
  with s c show ?thesis by blast
qed

text \<open>
  (C24) With at least one executor, and unless the storage answers alongside the executors, the
  callback has been called once all handlers have returned, whatever the interleaving.
\<close>

theorem fan_out_callback_delivered:
  assumes "(status_step f)\<^sup>*\<^sup>* (status_init f) s" and "0 < fo_executors f"
    and "fo_storage f \<noteq> StorageAlongside" and "all_handled f s"
  shows "calls s \<noteq> []"
proof -
  have "check_ahead f s" using assms(1,3,2) by (rule check_ahead_reachable)
  moreover have "all_counted f s"
    using assms(4) by (auto simp: all_handled_def all_counted_def counted_def)
  ultimately show ?thesis using assms(4) by (auto simp: check_ahead_def all_handled_def)
qed

theorem fan_out_callback_delivered_witness:
  "\<exists>s. (status_step one_executor)\<^sup>*\<^sup>* (status_init one_executor) s \<and>
     all_handled one_executor s \<and> calls s \<noteq> []"
proof -
  obtain s where s: "(status_step one_executor)\<^sup>*\<^sup>* (status_init one_executor) s"
    and a: "all_handled one_executor s"
    using one_executor_run by blast
  have "calls s \<noteq> []"
    by (rule fan_out_callback_delivered [OF s _ _ a]) (simp_all add: one_executor_def)
  with s a show ?thesis by blast
qed

definition two_executors_fan_out :: fan_out where
  "two_executors_fan_out = \<lparr>fo_executors = 2, fo_storage = NoStorage, fo_storageError = False,
     fo_errors = (\<lambda>_. False), fo_code = CommitError\<rparr>"

text \<open>
  (C25) Two executors whose handlers both count before either checks make the callback run twice:
  nothing in \<open>CommitStatus\<close> records that it has run.
\<close>

theorem fan_out_callback_twice:
  "\<exists>s. (status_step two_executors_fan_out)\<^sup>*\<^sup>* (status_init two_executors_fan_out) s \<and>
     calls s = [None, None]"
proof -
  let ?f = two_executors_fan_out and ?s = "status_init two_executors_fan_out"
  let ?count = "\<lambda>i s. s\<lparr>fan_status := count_result (fo_errors ?f i) (fan_status s),
                handlers := (handlers s)(i := Counted)\<rparr>"
  let ?check = "\<lambda>i s. s\<lparr>handlers := (handlers s)(i := Checked),
     calls := calls s @ (case checkAndCommit (fo_code ?f) (fan_status s) of None \<Rightarrow> [] | Some r \<Rightarrow> [r])\<rparr>"
  let ?s2 = "?count 1 (?count 0 ?s)"
  have "status_step ?f ?s (?count 0 ?s)" "status_step ?f (?count 0 ?s) ?s2"
    by (rule executor_count; simp add: two_executors_fan_out_def status_init_def)+
  moreover have "status_step ?f ?s2 (?check 0 ?s2)" "status_step ?f (?check 0 ?s2) (?check 1 (?check 0 ?s2))"
    by (rule executor_check; simp add: two_executors_fan_out_def status_init_def)+
  ultimately have "(status_step ?f)\<^sup>*\<^sup>* ?s (?check 1 (?check 0 ?s2))"
    by (meson converse_rtranclp_into_rtranclp r_into_rtranclp)
  moreover have "calls (?check 1 (?check 0 ?s2)) = [None, None]"
    by (simp add: two_executors_fan_out_def status_init_def fan_out_total_def checkAndCommit_def
        count_result_def new_status_def)
  ultimately show ?thesis by blast
qed

text \<open>
  (C27) Answers one at a time: with one answer of the storage and one of each executor, in any
  order, the roll-back calls its callback exactly once, with the error if there was one, unless
  the storage answers last; then, and with no executor, it never calls it.
\<close>

theorem batchBlockRollback_outcome:
  assumes "mset answers = add_mset (Storage se) (mset (map Executor errs))"
  shows "batchBlockRollback (length errs) answers =
    (if from_storage (last answers) then []
     else [if se \<or> True \<in> set errs then Some RollbackError else None])"
  using assms by (rule rollback_calls)

theorem batchBlockRollback_outcome_witness:
  "batchBlockRollback 1 [Executor False, Storage False] = []"
  using batchBlockRollback_outcome [of "[Executor False, Storage False]" False "[False]"]
  by (simp add: add_mset_commute)

text \<open>
  (C28) Answers one at a time: \<open>batchGetHashes\<close> calls its callback exactly once, with the
  exclusive-or of the executors' hashes, or with an error if an executor failed; the order
  of the answers does not matter.
\<close>

theorem batchGetHashes_outcome:
  assumes "length answers = n" and "0 < n" and "mset answers' = mset answers"
  shows "batchGetHashes n answers' =
    [if None \<in> set answers then Inl CommitError
     else Inr (foldr (XOR) (map the answers) 0)]"
  using assms by (rule batchGetHashes_perm)

theorem batchGetHashes_outcome_witness:
  "batchGetHashes 2 [Some 5, Some 3] = [Inr (foldr (XOR) (map the [Some 3, Some 5]) 0)]"
  using batchGetHashes_outcome [of "[Some 3, Some 5]" 2 "[Some 5, Some 3]"]
  by (simp add: add_mset_commute)

lemma asyncCommit_calls:
  assumes "0 < n" and "length (prepareErrors a) = n" and "length (commitErrors a) = n"
    and "mset (rollbackAnswers a) = add_mset (Storage se) (mset (map Executor errs))"
    and "length errs = n"
  shows "asyncCommit n a =
    (if prewriteError a then [Some PrewriteBlockError]
     else if prepareStorageError a \<or> True \<in> set (prepareErrors a) then
       (if \<not> from_storage (last (rollbackAnswers a)) \<and> (se \<or> True \<in> set errs)
        then [Some RollbackError] else [])
     else [if commitStorageError a \<or> True \<in> set (commitErrors a) then Some UnknownError else None])"
proof -
  have once: "handle_answers CommitError answers (count_result err (new_status (1 + n))) =
      [if err \<or> True \<in> set answers then Some CommitError else None]" if "length answers = n" for err answers
    using that assms(1) by (subst handle_answers_once) auto
  show ?thesis
    using rollback_calls [OF assms(4)] once [OF assms(2)] once [OF assms(3)] assms(5)
    by (auto simp: asyncCommit_def batchBlockCommit_def)
qed



end
