(* ===== verification/Executive_States.thy ===== *)
theory Executive_States
  imports Prelude
begin

text \<open>
  The execution messages, the per-transaction \<open>ExecutiveState\<close> and the traversal
  \<open>traverseExecutive\<close> of \<^verbatim>\<open>BlockExecutive.h\<close> and \<^verbatim>\<open>BlockExecutive.cpp\<close>.

  \<open>m_executiveStates\<close> is a \<open>std::map\<close> keyed by (contract, contextID), modelled as the list of its
  nodes in key order. A message is owned through a \<open>unique_ptr\<close>: the field \<open>message\<close> is \<open>None\<close>
  after it was moved to an executor. The traversal's callback is a function on the visited state
  and on the variables \<open>'s\<close> it captures; it may throw.

  The message record has the fields of the framework's \<open>ExecutionMessage\<close> that the scheduler
  reads or writes.
\<close>

subsection \<open>Messages and states\<close>

datatype MessageType =
  TXHASH | MESSAGE | FINISHED | KEY_LOCK | SEND_BACK | REVERT | REVERT_KEY_LOCK

record ExecutionMessage =
  msgType :: MessageType
  msgContextID :: ContextID
  msgSeq :: Seq
  transactionHash :: h256
  msgOrigin :: string
  msgFrom :: string
  msgTo :: string
  msgCreate :: bool
  msgDepth :: int
  gasAvailable :: int
  msgData :: string
  msgStaticCall :: bool
  createSalt :: "nat option"
  keyLocks :: "string list"
  keyLockAcquired :: string
  logEntries :: "string list"
  msgStatus :: int
  newEVMContractAddress :: string

record ExecutiveState =
  contextID :: ContextID
  callStack :: "Seq list"          \<comment> \<open>top of the stack first\<close>
  message :: "ExecutionMessage option"
  error :: bool
  currentSeq :: Seq
  enableDAG :: bool
  skip :: bool

definition new_state :: "ContextID \<Rightarrow> ExecutionMessage \<Rightarrow> bool \<Rightarrow> ExecutiveState" where
  "new_state ctx msg dag =
     \<lparr>contextID = ctx, callStack = [], message = Some msg, error = False, currentSeq = 0,
      enableDAG = dag, skip = False\<rparr>"

type_synonym state_key = "string \<times> ContextID"
type_synonym executive_states = "(state_key \<times> ExecutiveState) list"

subsection \<open>Traversal\<close>

datatype TraverseHint = PASS | DELETE | SKIP | UPDATE | END

type_synonym 's visitor = "ExecutiveState \<Rightarrow> 's \<Rightarrow> (exn + TraverseHint) \<times> ExecutiveState \<times> 's"

text \<open>
  The loop: \<open>before\<close> are the nodes in front of the iterator, the next argument the nodes from the
  iterator on, \<open>updateNodes\<close> the extracted nodes, last extracted first.
  \<open>upper_bound({contract, INT64_MAX})\<close> moves past the nodes whose key is not greater. The result
  is the outcome of the loop, the nodes left in the map, the extracted nodes and the captured
  variables.
\<close>

function traverse_loop ::
  "'s visitor \<Rightarrow> executive_states \<Rightarrow> executive_states \<Rightarrow> executive_states \<Rightarrow> 's \<Rightarrow>
     (exn + unit) \<times> executive_states \<times> executive_states \<times> 's"
where
  "traverse_loop visit before [] updateNodes s = (Inr (), before, updateNodes, s)"
| "traverse_loop visit before ((k, st) # rest) updateNodes s =
     (case visit st s of
        (Inl e, st', s') \<Rightarrow> (Inl e, before @ (k, st') # rest, updateNodes, s')
      | (Inr PASS, st', s') \<Rightarrow> traverse_loop visit (before @ [(k, st')]) rest updateNodes s'
      | (Inr DELETE, st', s') \<Rightarrow> traverse_loop visit before rest updateNodes s'
      | (Inr SKIP, st', s') \<Rightarrow>
          (let past = (\<lambda>(k', _). k' \<le> (fst k, INT64_MAX)) in
           traverse_loop visit (before @ (k, st') # takeWhile past rest) (dropWhile past rest) updateNodes s')
      | (Inr UPDATE, st', s') \<Rightarrow> traverse_loop visit before rest ((k, st') # updateNodes) s'
      | (Inr END, st', s') \<Rightarrow> (Inr (), before @ (k, st') # rest, updateNodes, s'))"
  by pat_completeness auto
termination
  by (relation "measure (\<lambda>(_, _, rest, _, _). length rest)")
     (auto simp: le_imp_less_Suc length_dropWhile_le)

text \<open>
  Re-insertion under the new key. \<open>insert\<close> of a node whose key is taken leaves the node with the
  caller, that is, the state would be dropped.
\<close>

fun reinsertNodes :: "executive_states \<Rightarrow> executive_states \<Rightarrow> (exn + unit) \<times> executive_states" where
  "reinsertNodes [] ms = (Inr (), ms)"
| "reinsertNodes ((_, st) # nodes) ms =
     (case message st of
        None \<Rightarrow> (Inl NullDereference, ms)
      | Some msg \<Rightarrow> reinsertNodes nodes (map_emplace (msgTo msg, contextID st) st ms))"

definition traverseExecutive ::
  "'s visitor \<Rightarrow> executive_states \<Rightarrow> 's \<Rightarrow> (exn + unit) \<times> executive_states \<times> 's"
where
  "traverseExecutive visit ms s =
     (case traverse_loop visit [] ms [] s of
        (Inl e, ms', updateNodes, s') \<Rightarrow> (Inl e, ms', s')
      | (Inr _, ms', updateNodes, s') \<Rightarrow>
          (case reinsertNodes updateNodes ms' of (r, ms'') \<Rightarrow> (r, ms'', s')))"

text \<open>What every visit keeps of the captured variables, the traversal keeps.\<close>

lemma traverse_loop_captured:
  assumes "\<And>st s. J s \<Longrightarrow> J (snd (snd (visit st s)))" and "J s"
  shows "J (snd (snd (snd (traverse_loop visit before rest upd s))))"
  using assms
proof (induction visit before rest upd s rule: traverse_loop.induct)
  case (2 visit before k st rest upd s)
  obtain r st' s' where v: "visit st s = (r, st', s')" by (cases "visit st s") auto
  with "2.prems" have s': "J s'" by (metis snd_conv)
  show ?case
  proof (cases r)
    case (Inl e)
    with v s' show ?thesis by simp
  next
    case (Inr h)
    show ?thesis
      using "2.IH" [OF v [symmetric] Inr _ refl] "2.prems"(1) s' v Inr
      by (cases h) (simp_all add: Let_def)
  qed
qed simp

lemma traverseExecutive_captured:
  assumes "\<And>st s. J s \<Longrightarrow> J (snd (snd (visit st s)))" and "J s"
  shows "J (snd (snd (traverseExecutive visit ms s)))"
  using traverse_loop_captured [of J visit s "[]" ms "[]"] assms
  by (auto simp: traverseExecutive_def split: prod.splits sum.splits)

subsection \<open>Well-formed state maps\<close>

definition ids :: "executive_states \<Rightarrow> ContextID list" where
  "ids ms = map (\<lambda>(_, st). contextID st) ms"

definition states_inv :: "executive_states \<Rightarrow> bool" where
  "states_inv ms \<longleftrightarrow>
     sorted_map ms \<and> distinct (ids ms) \<and> (\<forall>(k, st) \<in> set ms. snd k = contextID st)"

lemma ids_simps [simp]:
  "ids [] = []" "ids ((k, st) # ms) = contextID st # ids ms" "ids (ms @ ms') = ids ms @ ids ms'"
  by (simp_all add: ids_def)

lemma set_ids: "set (ids ms) = (\<lambda>(_, st). contextID st) ` set ms"
  by (simp add: ids_def)

lemma states_inv_Nil [simp]: "states_inv []"
  by (simp add: states_inv_def)

lemma states_inv_emplace:
  assumes "states_inv ms" and "contextID st \<notin> set (ids ms)"
  shows "states_inv (map_emplace (c, contextID st) st ms)"
    and "mset (map_emplace (c, contextID st) st ms) = add_mset ((c, contextID st), st) (mset ms)"
proof -
  have "(c, contextID st) \<notin> fst ` set ms"
    using assms by (force simp: states_inv_def set_ids)
  then show m: "mset (map_emplace (c, contextID st) st ms) = add_mset ((c, contextID st), st) (mset ms)"
    by (rule mset_map_emplace)
  have "mset (ids (map_emplace (c, contextID st) st ms)) = add_mset (contextID st) (mset (ids ms))"
    using arg_cong [OF m, of "image_mset (\<lambda>(_, st). contextID st)"] by (simp add: ids_def)
  then have "distinct (ids (map_emplace (c, contextID st) st ms))"
    using assms mset_eq_imp_distinct_iff [of "ids (map_emplace (c, contextID st) st ms)" "contextID st # ids ms"]
    by (simp add: states_inv_def)
  moreover have "set (map_emplace (c, contextID st) st ms) = insert ((c, contextID st), st) (set ms)"
    using arg_cong [OF m, of set_mset] by simp
  ultimately show "states_inv (map_emplace (c, contextID st) st ms)"
    using assms(1) by (auto simp: states_inv_def)
qed

lemma states_inv_replace:
  assumes "states_inv (xs @ (k, st) # ys)" and "contextID st' = contextID st"
  shows "states_inv (xs @ (k, st') # ys)"
  using assms by (auto simp: states_inv_def sorted_map_def)

lemma states_inv_remove: "states_inv (xs @ (k, st) # ys) \<Longrightarrow> states_inv (xs @ ys)"
  by (auto simp: states_inv_def sorted_map_append)

subsection \<open>What a traversal keeps\<close>

text \<open>
  The assertions of the loop: nodes still to visit satisfy \<open>P\<close>, all others \<open>Q\<close>, and \<open>I\<close> relates
  the contexts that are left to the captured variables. A visit of one context keeps what holds
  of the others: \<open>stable\<close>. Nodes that are left unvisited, after \<open>SKIP\<close> or \<open>END\<close>, have to satisfy \<open>Q\<close>.
\<close>

definition loop_pre ::
  "('s \<Rightarrow> ExecutiveState \<Rightarrow> bool) \<Rightarrow> ('s \<Rightarrow> ExecutiveState \<Rightarrow> bool) \<Rightarrow> (ContextID set \<Rightarrow> 's \<Rightarrow> bool) \<Rightarrow>
     executive_states \<Rightarrow> executive_states \<Rightarrow> executive_states \<Rightarrow> 's \<Rightarrow> bool"
where
  "loop_pre P Q I before rest upd s \<longleftrightarrow>
     states_inv (before @ rest) \<and> distinct (ids (before @ rest @ upd)) \<and>
     (\<forall>st \<in> snd ` set before. Q s st) \<and> (\<forall>st \<in> snd ` set rest. P s st) \<and>
     (\<forall>st \<in> snd ` set upd. Q s st \<and> message st \<noteq> None) \<and> I (set (ids (before @ rest @ upd))) s"

definition stable :: "('s \<Rightarrow> ExecutiveState \<Rightarrow> bool) \<Rightarrow> ContextID \<Rightarrow> 's \<Rightarrow> 's \<Rightarrow> bool" where
  "stable P ctx s s' \<longleftrightarrow> (\<forall>x. contextID x \<noteq> ctx \<longrightarrow> P s x \<longrightarrow> P s' x)"

lemma stable_nodes:
  assumes "stable P ctx s s'" and "ctx \<notin> set (ids ms)" and "\<forall>st \<in> snd ` set ms. P s st"
  shows "\<forall>st \<in> snd ` set ms. P s' st"
  using assms by (force simp: stable_def set_ids)

lemma loop_pre_other_nodes:
  assumes "loop_pre P Q I before ((k, st) # rest) upd s"
    and "stable P (contextID st) s s'" and "stable Q (contextID st) s s'"
  shows "\<forall>st \<in> snd ` set before. Q s' st" and "\<forall>st \<in> snd ` set rest. P s' st"
    and "\<forall>st \<in> snd ` set upd. Q s' st \<and> message st \<noteq> None"
proof -
  have ids: "contextID st \<notin> set (ids before)" "contextID st \<notin> set (ids rest)" "contextID st \<notin> set (ids upd)"
    using assms(1) by (auto simp: loop_pre_def)
  show "\<forall>st \<in> snd ` set before. Q s' st" "\<forall>st \<in> snd ` set rest. P s' st"
    by (rule stable_nodes [OF _ ids(1)] stable_nodes [OF _ ids(2)], fact,
        use assms(1) in \<open>simp add: loop_pre_def\<close>)+
  have "\<forall>st \<in> snd ` set upd. Q s' st"
    by (rule stable_nodes [OF assms(3) ids(3)]) (use assms(1) in \<open>simp add: loop_pre_def\<close>)
  with assms(1) show "\<forall>st \<in> snd ` set upd. Q s' st \<and> message st \<noteq> None"
    by (simp add: loop_pre_def)
qed

lemma loop_pre_pass:
  assumes "loop_pre P Q I before ((k, st) # rest) upd s" and "contextID st' = contextID st"
    and "stable P (contextID st) s s'" and "stable Q (contextID st) s s'"
    and "Q s' st'" and "I (set (ids (before @ ((k, st) # rest) @ upd))) s'"
  shows "loop_pre P Q I (before @ [(k, st')]) rest upd s'"
proof -
  have "states_inv (before @ (k, st') # rest)"
    using states_inv_replace [of before k st rest st'] assms(1,2) by (simp add: loop_pre_def)
  moreover have "ids ((before @ [(k, st')]) @ rest @ upd) = ids (before @ ((k, st) # rest) @ upd)"
    using assms(2) by simp
  ultimately show ?thesis
    using assms loop_pre_other_nodes [OF assms(1,3,4)] by (simp add: loop_pre_def)
qed

lemma loop_pre_move:
  assumes "loop_pre P Q I before (xs @ ys) upd s" and "\<And>st. P s st \<Longrightarrow> Q s st"
  shows "loop_pre P Q I (before @ xs) ys upd s"
  using assms by (auto simp: loop_pre_def ball_Un)

lemma loop_pre_delete:
  assumes "loop_pre P Q I before ((k, st) # rest) upd s"
    and "stable P (contextID st) s s'" and "stable Q (contextID st) s s'"
    and "I (set (ids (before @ ((k, st) # rest) @ upd)) - {contextID st}) s'"
  shows "loop_pre P Q I before rest upd s'"
proof -
  have "states_inv (before @ rest)"
    using states_inv_remove [of before k st rest] assms(1) by (simp add: loop_pre_def)
  moreover have "set (ids (before @ ((k, st) # rest) @ upd)) - {contextID st} = set (ids (before @ rest @ upd))"
    using assms(1) by (auto simp: loop_pre_def)
  ultimately show ?thesis
    using assms loop_pre_other_nodes [OF assms(1-3)] by (simp add: loop_pre_def)
qed

lemma loop_pre_update:
  assumes "loop_pre P Q I before ((k, st) # rest) upd s" and "contextID st' = contextID st"
    and "message st' \<noteq> None"
    and "stable P (contextID st) s s'" and "stable Q (contextID st) s s'"
    and "Q s' st'" and "I (set (ids (before @ ((k, st) # rest) @ upd))) s'"
  shows "loop_pre P Q I before rest ((k, st') # upd) s'"
proof -
  have "states_inv (before @ rest)"
    using states_inv_remove [of before k st rest] assms(1) by (simp add: loop_pre_def)
  moreover have "set (ids (before @ rest @ (k, st') # upd)) = set (ids (before @ ((k, st) # rest) @ upd))"
    using assms(2) by auto
  moreover have "distinct (ids (before @ rest @ (k, st') # upd))"
    using assms(1,2) by (auto simp: loop_pre_def)
  ultimately show ?thesis
    using assms(3,6,7) loop_pre_other_nodes [OF assms(1,4,5)] by (simp add: loop_pre_def)
qed

text \<open>Contexts being distinct, re-insertion finds every key free and drops nothing.\<close>

lemma reinsertNodes_keeps:
  assumes "states_inv ms" and "distinct (ids (ms @ upd))" and "\<forall>st \<in> snd ` set upd. message st \<noteq> None"
  shows "\<exists>ms'. reinsertNodes upd ms = (Inr (), ms') \<and> states_inv ms' \<and>
    snd ` set ms' = snd ` set (ms @ upd)"
  using assms
proof (induction upd ms rule: reinsertNodes.induct)
  case (2 k st nodes ms)
  then obtain msg where msg: "message st = Some msg" by auto
  let ?ms = "map_emplace (msgTo msg, contextID st) st ms"
  have "states_inv ?ms" and m: "mset ?ms = add_mset ((msgTo msg, contextID st), st) (mset ms)"
    using states_inv_emplace [OF 2(2), of st] 2(3) by auto
  have set: "set ?ms = insert ((msgTo msg, contextID st), st) (set ms)"
    using arg_cong [OF m, of set_mset] by simp
  have "mset (ids ?ms) = mset (contextID st # ids ms)"
    using arg_cong [OF m, of "image_mset (\<lambda>(_, st). contextID st)"] by (simp add: ids_def)
  then have "distinct (ids ?ms)" "set (ids ?ms) = insert (contextID st) (set (ids ms))"
    using 2(3) mset_eq_imp_distinct_iff [of "ids ?ms" "contextID st # ids ms"]
      mset_eq_setD [of "ids ?ms" "contextID st # ids ms"] by auto
  then have "distinct (ids (?ms @ nodes))" using 2(3) by auto
  then have "\<exists>ms'. reinsertNodes nodes ?ms = (Inr (), ms') \<and> states_inv ms' \<and>
      snd ` set ms' = snd ` set (?ms @ nodes)"
    by (intro "2.IH" [OF msg]) (use 2(4) \<open>states_inv ?ms\<close> in auto)
  then show ?case by (auto simp: msg set)
qed simp

lemma set_ids_snd: "set (ids ms) = contextID ` snd ` set ms"
  by (force simp: set_ids)

text \<open>
  The contract of a traversal callback: it does not change the context of a state, and it asks
  for re-insertion only of a state that has its message.
\<close>

locale executive_visitor =
  fixes visit :: "'s visitor"
  assumes visit_context: "visit st s = (r, st', s') \<Longrightarrow> contextID st' = contextID st"
    and visit_update: "visit st s = (Inr UPDATE, st', s') \<Longrightarrow> message st' \<noteq> None"
begin

lemma traverse_loop_rule:
  assumes "loop_pre P Q I before rest upd s"
    and step: "\<And>st s A. P s st \<Longrightarrow> contextID st \<in> A \<Longrightarrow> I A s \<Longrightarrow>
      (case visit st s of
         (Inl e, _, _) \<Rightarrow> E e
       | (Inr h, st', s') \<Rightarrow>
           (if h = DELETE then I (A - {contextID st}) s' else Q s' st' \<and> I A s') \<and>
           stable P (contextID st) s s' \<and> stable Q (contextID st) s s' \<and>
           (h = SKIP \<or> h = END \<longrightarrow> (\<forall>x. P s' x \<longrightarrow> Q s' x)))"
  shows "case traverse_loop visit before rest upd s of
      (Inl e, _, _, _) \<Rightarrow> E e
    | (Inr _, ms', upd', s') \<Rightarrow> loop_pre P Q I ms' [] upd' s'"
  using assms(1)
proof (induction "length rest" arbitrary: before rest upd s rule: less_induct)
  case less
  show ?case
  proof (cases rest)
    case Nil
    with less.prems show ?thesis by simp
  next
    case (Cons node rest')
    obtain k st where rest: "rest = (k, st) # rest'" using Cons by (cases node) auto
    obtain r st' s' where v: "visit st s = (r, st', s')" by (cases "visit st s") auto
    note pre = less.prems [unfolded rest]
    note ctx = visit_context [OF v]
    have st: "case r of Inl e \<Rightarrow> E e
        | Inr h \<Rightarrow> (if h = DELETE then I (set (ids (before @ ((k, st) # rest') @ upd)) - {contextID st}) s'
            else Q s' st' \<and> I (set (ids (before @ ((k, st) # rest') @ upd))) s') \<and>
            stable P (contextID st) s s' \<and> stable Q (contextID st) s s' \<and>
            (h = SKIP \<or> h = END \<longrightarrow> (\<forall>x. P s' x \<longrightarrow> Q s' x))"
      using step [of s st "set (ids (before @ ((k, st) # rest') @ upd))"] pre v
      by (auto simp: loop_pre_def split: sum.splits)
    have pass: "loop_pre P Q I (before @ [(k, st')]) rest' upd s'" if "r = Inr h" "h \<noteq> DELETE" for h
      using loop_pre_pass [OF pre ctx] st that by simp
    show ?thesis
    proof (cases r)
      case (Inr h)
      have IH: "length zs \<le> length rest' \<Longrightarrow> loop_pre P Q I bs zs us s' \<Longrightarrow>
          case traverse_loop visit bs zs us s' of
            (Inl e, _, _, _) \<Rightarrow> E e
          | (Inr _, ms', upd', s') \<Rightarrow> loop_pre P Q I ms' [] upd' s'" for bs zs us
        by (rule less.hyps) (simp_all add: rest)
      show ?thesis
      proof (cases h)
        case PASS
        with IH [OF _ pass] v Inr show ?thesis by (simp add: rest)
      next
        case DELETE
        with IH [OF _ loop_pre_delete [OF pre]] st v Inr show ?thesis by (simp add: rest)
      next
        case SKIP
        let ?past = "\<lambda>(k' :: state_key, _ :: ExecutiveState). k' \<le> (fst k, INT64_MAX)"
        have "loop_pre P Q I ((before @ [(k, st')]) @ takeWhile ?past rest') (dropWhile ?past rest') upd s'"
          by (rule loop_pre_move) (use pass Inr SKIP st in simp_all)
        from IH [OF length_dropWhile_le this] v Inr SKIP show ?thesis by (simp add: rest Let_def)
      next
        case UPDATE
        with IH [OF _ loop_pre_update [OF pre ctx]] st v Inr visit_update show ?thesis
          by (simp add: rest)
      next
        case END
        have "loop_pre P Q I ((before @ [(k, st')]) @ rest') [] upd s'"
          by (rule loop_pre_move) (use pass Inr END st in simp_all)
        with END v Inr show ?thesis by (simp add: rest)
      qed
    qed (use st v in \<open>simp add: rest\<close>)
  qed
qed

lemma traverse_rule:
  assumes "states_inv ms" and "\<forall>st \<in> snd ` set ms. P s st" and "I (set (ids ms)) s"
    and "\<And>st s A. P s st \<Longrightarrow> contextID st \<in> A \<Longrightarrow> I A s \<Longrightarrow>
      (case visit st s of
         (Inl e, _, _) \<Rightarrow> E e
       | (Inr h, st', s') \<Rightarrow>
           (if h = DELETE then I (A - {contextID st}) s' else Q s' st' \<and> I A s') \<and>
           stable P (contextID st) s s' \<and> stable Q (contextID st) s s' \<and>
           (h = SKIP \<or> h = END \<longrightarrow> (\<forall>x. P s' x \<longrightarrow> Q s' x)))"
  shows "case traverseExecutive visit ms s of
      (Inl e, _, _) \<Rightarrow> E e
    | (Inr _, ms', s') \<Rightarrow> states_inv ms' \<and> (\<forall>st \<in> snd ` set ms'. Q s' st) \<and> I (set (ids ms')) s'"
proof -
  have "loop_pre P Q I [] ms [] s" using assms(1-3) by (simp add: loop_pre_def states_inv_def)
  then have loop: "case traverse_loop visit [] ms [] s of
      (Inl e, _, _, _) \<Rightarrow> E e
    | (Inr _, ms', upd', s') \<Rightarrow> loop_pre P Q I ms' [] upd' s'"
    using assms(4) by (rule traverse_loop_rule)
  obtain r ms' upd s' where run: "traverse_loop visit [] ms [] s = (r, ms', upd, s')"
    by (cases "traverse_loop visit [] ms [] s") auto
  show ?thesis
  proof (cases r)
    case (Inl e)
    with loop run show ?thesis by (simp add: traverseExecutive_def)
  next
    case (Inr u)
    with loop run have pre: "loop_pre P Q I ms' [] upd s'" by simp
    then obtain ms'' where re: "reinsertNodes upd ms' = (Inr (), ms'')" "states_inv ms''"
      and set: "snd ` set ms'' = snd ` set (ms' @ upd)"
      using reinsertNodes_keeps [of ms' upd] by (auto simp: loop_pre_def)
    have ids: "set (ids ms'') = set (ids (ms' @ upd))"
      unfolding set_ids_snd set ..
    have Q: "\<forall>st \<in> snd ` set ms''. Q s' st"
      unfolding set using pre by (auto simp: loop_pre_def)
    have I: "I (set (ids ms'')) s'" unfolding ids using pre by (simp add: loop_pre_def)
    show ?thesis
      using re Q I run Inr by (simp add: traverseExecutive_def)
  qed
qed

end

end
