(* ===== verification/Block_Batch.thy ===== *)
theory Block_Batch
  imports Executive_States Graph_Key_Locks Executor_Manager Checksum_Address
begin

text \<open>
  One batch of a block's execution: \<open>startBatch\<close> and \<open>checkBatch\<close> of \<^verbatim>\<open>BlockExecutive.cpp\<close>.

  \<open>startBatch\<close> visits the executive states in map order and sends at most one message per context
  to the executor of its contract. The executors answer through callbacks, in any order; when
  all have answered, \<open>checkBatch\<close> either looks for a dead lock (if nothing was sent) or books the
  key locks of the answers and moves the states to the contracts they now address.

  The executors are code outside this repository: a function from the request to a
  \<open>response\<close>. The order in which the answers arrive is the parameter \<open>order\<close>.
\<close>

subsection \<open>Blocks and the state of a block's execution\<close>

record BlockHeader =
  number :: int
  stateRoot :: h256
  gasUsed :: "64 word"
  txsRoot :: h256
  receiptsRoot :: h256

text \<open>The attribute flags of a transaction and of its meta data.\<close>

datatype Attribute = LIQUID_SCALE_CODEC | LIQUID_CREATE | DAG

record TransactionMetaData =
  metaHash :: h256
  metaTo :: string
  metaSource :: string
  metaAttribute :: "Attribute list"

record Transaction =
  txHash :: h256
  txSender :: string
  txTo :: string
  txInput :: string
  txSource :: string
  txNonce :: int
  txAttribute :: "Attribute list"

record TransactionReceipt =
  receiptGas :: int
  contractAddress :: string
  receiptLogs :: "string list"
  receiptStatus :: int
  receiptOutput :: string
  receiptBlock :: int

record Block =
  blockHeader :: BlockHeader
  transactionsMetaData :: "TransactionMetaData list"
  transactions :: "Transaction list"
  receipts :: "TransactionReceipt option list"

record ExecutiveResult =
  receipt :: "TransactionReceipt option"
  resultHash :: h256
  source :: string

record BlockExecutive =
  m_executiveStates :: executive_states
  m_executiveResults :: "ExecutiveResult list"
  m_gasUsed :: "64 word"
  m_keyLocks :: GraphKeyLocks
  m_block :: Block
  m_result :: "BlockHeader option"
  m_startContextID :: int
  m_staticCall :: bool
  m_syncBlock :: bool

abbreviation block_number :: "BlockExecutive \<Rightarrow> int" where
  "block_number be \<equiv> number (blockHeader (m_block be))"

definition TRANSACTION_GAS :: "64 word" where
  "TRANSACTION_GAS = 30000000000"

text \<open>The parts of the framework and of the standard library that a batch calls.\<close>

record environment =
  pq_top :: "(nat \<Rightarrow> nat \<Rightarrow> bool) \<Rightarrow> nat list \<Rightarrow> nat"
  hash_impl :: "string \<Rightarrow> string"
  hash_hex :: "string \<Rightarrow> string"
  to_big_endian :: "nat \<Rightarrow> string"

subsection \<open>The batch status\<close>

record batch =
  executive :: BlockExecutive
  manager :: ExecutorManager
  calledContract :: "string list"
  b_total :: nat
  b_received :: nat
  b_error :: nat
  callbackExecuted :: bool
  allSended :: bool
  sent :: "(ContextID \<times> ExecutorPtr \<times> ExecutionMessage) list"

definition new_batch :: "BlockExecutive \<Rightarrow> ExecutorManager \<Rightarrow> batch" where
  "new_batch be m =
     \<lparr>executive = be, manager = m, calledContract = [], b_total = 0, b_received = 0, b_error = 0,
      callbackExecuted = False, allSended = False, sent = []\<rparr>"

subsection \<open>Sending\<close>

text \<open>What the \<open>switch\<close> over the message type does: return a hint, or fall through with the message.\<close>

datatype flow = Return TraverseHint | Fall ExecutionMessage

definition targetAddress ::
  "environment \<Rightarrow> BlockExecutive \<Rightarrow> ExecutionMessage \<Rightarrow> ContextID \<Rightarrow> Seq \<Rightarrow> exn + string"
where
  "targetAddress env be msg ctx q =
     (if msgTo msg \<noteq> '''' then Inr (msgTo msg)
      else case createSalt msg of
             Some salt \<Rightarrow> newEVMAddressSalt (hash_impl env) (hash_hex env) (to_big_endian env)
                            (msgFrom msg) (msgData msg) salt
           | None \<Rightarrow> newEVMAddress (hash_impl env) (hash_hex env) (block_number be) ctx q)"

definition createReceipt :: "BlockExecutive \<Rightarrow> ExecutionMessage \<Rightarrow> TransactionReceipt" where
  "createReceipt be msg =
     \<lparr>receiptGas = gasAvailable msg, contractAddress = newEVMContractAddress msg,
      receiptLogs = logEntries msg, receiptStatus = msgStatus msg, receiptOutput = msgData msg,
      receiptBlock = block_number be\<rparr>"

text \<open>The receipt and the gas of a finished transaction; \<open>m_executiveResults\<close> is indexed by the context.\<close>

definition finishTransaction ::
  "ContextID \<Rightarrow> ExecutionMessage \<Rightarrow> BlockExecutive \<Rightarrow> exn + BlockExecutive"
where
  "finishTransaction ctx msg be =
     (if 0 \<le> ctx \<and> nat ctx < length (m_executiveResults be) then
        Inr (be\<lparr>m_executiveResults :=
                  (m_executiveResults be)
                    [nat ctx := (m_executiveResults be ! nat ctx)\<lparr>receipt := Some (createReceipt be msg)\<rparr>],
                m_gasUsed := m_gasUsed be + (TRANSACTION_GAS - word_of_int (gasAvailable msg))\<rparr>)
      else Inl OutOfRange)"

text \<open>Request types, push the stack.\<close>

definition requestMessage ::
  "environment \<Rightarrow> ExecutionMessage \<Rightarrow> ExecutiveState \<Rightarrow> BlockExecutive \<Rightarrow>
     (exn + flow) \<times> ExecutiveState \<times> BlockExecutive"
where
  "requestMessage env msg st be =
     (let newSeq = currentSeq st; st = st\<lparr>currentSeq := newSeq + 1\<rparr> in
      case targetAddress env be msg (contextID st) newSeq of
        Inl e \<Rightarrow> (Inl e, st, be)
      | Inr to \<Rightarrow> (Inr (Fall (msg\<lparr>msgTo := to, msgSeq := newSeq\<rparr>)),
                   st\<lparr>callStack := newSeq # callStack st\<rparr>, be))"

text \<open>Return types, pop the stack; an empty stack means that the transaction is finished.\<close>

definition returnMessage ::
  "ExecutionMessage \<Rightarrow> ExecutiveState \<Rightarrow> BlockExecutive \<Rightarrow>
     (exn + flow) \<times> ExecutiveState \<times> BlockExecutive"
where
  "returnMessage msg st be =
     (case callStack st of
        [] \<Rightarrow> (Inl EmptyStackPop, st, be)
      | _ # stack \<Rightarrow>
          (let st = st\<lparr>callStack := stack\<rparr> in
           case stack of
             [] \<Rightarrow> (case finishTransaction (contextID st) msg be of
                      Inl e \<Rightarrow> (Inl e, st, be)
                    | Inr be \<Rightarrow> (Inr (Return DELETE), st, be))
           | caller # _ \<Rightarrow> (Inr (Fall (msg\<lparr>msgSeq := caller, msgCreate := False\<rparr>)), st, be)))"

definition switchMessage ::
  "environment \<Rightarrow> ExecutionMessage \<Rightarrow> ExecutiveState \<Rightarrow> BlockExecutive \<Rightarrow>
     (exn + flow) \<times> ExecutiveState \<times> BlockExecutive"
where
  "switchMessage env msg st be =
     (let ctx = contextID st; seq = msgSeq msg in
      case msgType msg of
        MESSAGE \<Rightarrow> requestMessage env msg st be
      | TXHASH \<Rightarrow> requestMessage env msg st be
      | FINISHED \<Rightarrow> returnMessage msg st be
      | REVERT \<Rightarrow> returnMessage msg st be
      | REVERT_KEY_LOCK \<Rightarrow>
          (Inr (Fall (msg\<lparr>msgType := REVERT, msgCreate := False, keyLocks := []\<rparr>)), st, be)
      | KEY_LOCK \<Rightarrow>
          (case acquireKeyLock (msgFrom msg) (keyLockAcquired msg) ctx seq (m_keyLocks be) of
             (Inl e, g) \<Rightarrow> (Inl e, st, be\<lparr>m_keyLocks := g\<rparr>)
           | (Inr acquired, g) \<Rightarrow>
               (Inr (if acquired then Fall msg else Return PASS), st, be\<lparr>m_keyLocks := g\<rparr>))
      | SEND_BACK \<Rightarrow>
          (let msg = msg\<lparr>msgType := (if transactionHash msg \<noteq> 0 then TXHASH else MESSAGE)\<rparr> in
           case targetAddress env be msg ctx seq of
             Inl e \<Rightarrow> (Inl e, st, be)
           | Inr to \<Rightarrow> (Inr (Fall (msg\<lparr>msgTo := to\<rparr>)), st, be)))"

text \<open>After the switch: the key locks are attached and the message goes to the contract's executor.\<close>

definition sendMessage ::
  "environment \<Rightarrow> ExecutionMessage \<Rightarrow> ExecutiveState \<Rightarrow> batch \<Rightarrow>
     (exn + TraverseHint) \<times> ExecutiveState \<times> batch"
where
  "sendMessage env msg st b =
     (let ctx = contextID st;
          b = b\<lparr>calledContract := List.insert (msgTo msg) (calledContract b)\<rparr>;
          msg = msg\<lparr>keyLocks :=
                  getKeyLocksNotHoldingByContext (msgTo msg) ctx (m_keyLocks (executive b))\<rparr>;
          b = b\<lparr>b_total := b_total b + 1\<rparr>
      in case dispatchExecutor (pq_top env) (msgTo msg) (manager b) of
           (Inl e, m) \<Rightarrow> (Inl e, st\<lparr>message := Some msg\<rparr>, b\<lparr>manager := m\<rparr>)
         | (Inr None, m) \<Rightarrow> (Inl NullDereference, st\<lparr>message := Some msg\<rparr>, b\<lparr>manager := m\<rparr>)
         | (Inr (Some ex), m) \<Rightarrow>
             (Inr PASS, st\<lparr>message := None\<rparr>, b\<lparr>manager := m, sent := sent b @ [(ctx, ex, msg)]\<rparr>))"

text \<open>The callback of the traversal in \<open>startBatch\<close>.\<close>

definition startBatch_visit :: "environment \<Rightarrow> batch visitor" where
  "startBatch_visit env st b =
     (if error st then (Inr END, st, b\<lparr>allSended := True, b_error := b_error b + 1\<rparr>)
      else case message st of
             None \<Rightarrow> (Inl NullDereference, st, b)
           | Some msg \<Rightarrow>
               if msgTo msg \<noteq> '''' \<and> msgTo msg \<in> set (calledContract b)
               then (Inr SKIP, st\<lparr>skip := True\<rparr>, b)
               else (case switchMessage env msg st (executive b) of
                       (Inl e, st', be) \<Rightarrow> (Inl e, st', b\<lparr>executive := be\<rparr>)
                     | (Inr (Return h), st', be) \<Rightarrow> (Inr h, st', b\<lparr>executive := be\<rparr>)
                     | (Inr (Fall msg'), st', be) \<Rightarrow> sendMessage env msg' st' (b\<lparr>executive := be\<rparr>)))"

definition with_states :: "executive_states \<Rightarrow> batch \<Rightarrow> batch" where
  "with_states ms b = b\<lparr>executive := (executive b)\<lparr>m_executiveStates := ms\<rparr>\<rparr>"

text \<open>\<open>startBatch\<close> up to the assignment of \<open>allSended\<close>.\<close>

definition sendBatch :: "environment \<Rightarrow> BlockExecutive \<Rightarrow> ExecutorManager \<Rightarrow> (exn + unit) \<times> batch" where
  "sendBatch env be m =
     (case traverseExecutive (startBatch_visit env) (m_executiveStates be) (new_batch be m) of
        (Inl e, ms, b) \<Rightarrow> (Inl e, with_states ms b)
      | (Inr _, ms, b) \<Rightarrow> (Inr (), with_states ms b\<lparr>allSended := True\<rparr>))"

subsection \<open>Answers\<close>

datatype response = ResponseError | NullResponse | Response ExecutionMessage

definition executeCallback :: "response \<Rightarrow> ExecutiveState \<Rightarrow> ExecutiveState" where
  "executeCallback r st =
     (case r of
        ResponseError \<Rightarrow> st\<lparr>error := True, message := None\<rparr>
      | NullResponse \<Rightarrow> st
      | Response msg \<Rightarrow> st\<lparr>message := Some msg\<rparr>)"

text \<open>The closure holds a reference to its state, the node of its context.\<close>

definition deliver :: "ContextID \<Rightarrow> response \<Rightarrow> batch \<Rightarrow> batch" where
  "deliver ctx r b =
     (with_states
        (map (\<lambda>(k, st). (k, if contextID st = ctx then executeCallback r st else st))
           (m_executiveStates (executive b))) b)
       \<lparr>b_error := (case r of Response _ \<Rightarrow> b_error b | _ \<Rightarrow> b_error b + 1),
        b_received := b_received b + 1\<rparr>"

subsection \<open>The end of a batch\<close>

definition deadLock_visit :: "GraphKeyLocks visitor" where
  "deadLock_visit st g =
     (if skip st then (Inr SKIP, st\<lparr>skip := False\<rparr>, g)
      else if detectDeadLock (contextID st) g then
        (case message st of
           None \<Rightarrow> (Inl NullDereference, st, g)
         | Some msg \<Rightarrow> (Inr END, st\<lparr>message := Some (msg\<lparr>msgType := REVERT_KEY_LOCK\<rparr>)\<rparr>, g))
      else (Inr PASS, st, g))"

definition keyLock_visit :: "GraphKeyLocks visitor" where
  "keyLock_visit st g =
     (if skip st then (Inr SKIP, st\<lparr>skip := False\<rparr>, g)
      else case message st of
             None \<Rightarrow> (Inl NullDereference, st, g)
           | Some msg \<Rightarrow>
               let acquire = batchAcquireKeyLock (msgFrom msg) (keyLocks msg) (msgContextID msg) (msgSeq msg) g in
               (case msgType msg of
                  MESSAGE \<Rightarrow>
                    (case acquire of (Inl e, g') \<Rightarrow> (Inl e, st, g') | (Inr _, g') \<Rightarrow> (Inr UPDATE, st, g'))
                | KEY_LOCK \<Rightarrow>
                    (case acquire of (Inl e, g') \<Rightarrow> (Inl e, st, g') | (Inr _, g') \<Rightarrow> (Inr PASS, st, g'))
                | FINISHED \<Rightarrow> (Inr UPDATE, st, releaseKeyLocks (msgContextID msg) (msgSeq msg) g)
                | REVERT \<Rightarrow> (Inr UPDATE, st, releaseKeyLocks (msgContextID msg) (msgSeq msg) g)
                | _ \<Rightarrow> (Inr PASS, st, g)))"

text \<open>
  \<open>checkBatch\<close>; the first component is \<open>None\<close> if the callback is not called, else what it is
  called with, or the exception that prevents the call.
\<close>

definition checkBatch :: "batch \<Rightarrow> (exn + SchedulerError option) option \<times> batch" where
  "checkBatch b =
     (if allSended b \<and> b_received b = b_total b \<and> \<not> callbackExecuted b then
        (let b = b\<lparr>callbackExecuted := True\<rparr>; be = executive b in
         if b_error b > 0 then (Some (Inr (Some BatchError)), b)
         else
           (let visit = (if m_executiveStates be \<noteq> [] \<and> b_total b = 0 then deadLock_visit else keyLock_visit)
            in case traverseExecutive visit (m_executiveStates be) (m_keyLocks be) of
                 (r, ms, g) \<Rightarrow>
                   (Some (map_sum id (\<lambda>_. None) r),
                    b\<lparr>executive := be\<lparr>m_executiveStates := ms, m_keyLocks := g\<rparr>\<rparr>)))
      else (None, b))"

text \<open>The answers one after the other, each followed by its \<open>checkBatch\<close>.\<close>

fun handleResponses ::
  "(ExecutorPtr \<Rightarrow> ExecutionMessage \<Rightarrow> response) \<Rightarrow> (ContextID \<times> ExecutorPtr \<times> ExecutionMessage) list \<Rightarrow>
     batch \<Rightarrow> (exn + SchedulerError option) list \<times> batch"
where
  "handleResponses respond [] b = ([], b)"
| "handleResponses respond ((ctx, ex, msg) # arrivals) b =
     (let (c, b) = checkBatch (deliver ctx (respond ex msg) b);
          (cs, b) = handleResponses respond arrivals b
      in (case c of None \<Rightarrow> cs | Some r \<Rightarrow> r # cs, b))"

text \<open>
  \<open>startBatch\<close>: all calls of its callback, an exception of the sending phase, and the state
  afterwards.
\<close>

type_synonym arrival_order =
  "(ContextID \<times> ExecutorPtr \<times> ExecutionMessage) list \<Rightarrow> (ContextID \<times> ExecutorPtr \<times> ExecutionMessage) list"

definition startBatch ::
  "environment \<Rightarrow> (ExecutorPtr \<Rightarrow> ExecutionMessage \<Rightarrow> response) \<Rightarrow> arrival_order \<Rightarrow> BlockExecutive \<Rightarrow>
     ExecutorManager \<Rightarrow> (exn + SchedulerError option) list \<times> BlockExecutive \<times> ExecutorManager"
where
  "startBatch env respond order be m =
     (case sendBatch env be m of
        (Inl e, b) \<Rightarrow> ([Inl e], executive b, manager b)
      | (Inr _, b) \<Rightarrow>
          (let (c, b) = checkBatch b;
               (cs, b) = handleResponses respond (order (sent b)) b
           in (case c of None \<Rightarrow> cs | Some r \<Rightarrow> r # cs, executive b, manager b)))"

subsection \<open>Interfaces\<close>

text \<open>What the code relies on in the framework: a conforming priority queue and 32-byte hashes.\<close>

locale batch_environment =
  fixes env :: environment
  assumes env_queue: "priority_queue_top (pq_top env)"
    and env_hash: "length (hash_impl env x) = 32"
    and env_hex: "length (hash_hex env (hash_impl env x)) = 64"

text \<open>An environment that meets the contract, for evaluation.\<close>

definition sample_env :: environment where
  "sample_env =
     \<lparr>pq_top = leftmost_top, hash_impl = (\<lambda>x. take 32 (x @ replicate 32 CHR ''0'')),
      hash_hex = (\<lambda>x. x @ x), to_big_endian = (\<lambda>_. replicate 32 CHR ''0'')\<rparr>"

interpretation sample: batch_environment sample_env
  by unfold_locales
     (auto simp: sample_env_def leftmost.top_mem leftmost.top_greatest min_def)

lemma toChecksumAddress_total:
  assumes "\<And>x. length (hex (hash x)) = 64" and "length a \<le> 64"
  shows "\<exists>r. toChecksumAddress hash hex a = Inr r"
  using toChecksumAddress_result [where hash = hash and hex = hex and a = a] assms by simp

lemma switchMessage_context:
  assumes "switchMessage env msg st be = (r, st', be')"
  shows "contextID st' = contextID st" and "r = Inr (Return h) \<Longrightarrow> h = PASS \<or> h = DELETE"
  using assms
  by (auto simp: switchMessage_def requestMessage_def returnMessage_def Let_def
      split: MessageType.splits sum.splits list.splits prod.splits if_splits)

lemma sendMessage_context:
  assumes "sendMessage env msg st b = (r, st', b')"
  shows "contextID st' = contextID st" and "r = Inr h \<Longrightarrow> h = PASS"
  using assms by (auto simp: sendMessage_def Let_def split: sum.splits prod.splits option.splits)

interpretation start: executive_visitor "startBatch_visit env" for env
proof
  fix st s r st' s'
  assume run: "startBatch_visit env st s = (r, st', s')"
  then show "contextID st' = contextID st"
    using switchMessage_context(1) sendMessage_context(1)
    by (fastforce simp: startBatch_visit_def split: if_splits option.splits prod.splits sum.splits flow.splits)
next
  fix st s st' s'
  assume run: "startBatch_visit env st s = (Inr UPDATE, st', s')"
  then show "message st' \<noteq> None"
    using switchMessage_context(2) sendMessage_context(2)
    by (fastforce simp: startBatch_visit_def split: if_splits option.splits prod.splits sum.splits flow.splits)
qed

interpretation dead_lock: executive_visitor deadLock_visit
  by unfold_locales (auto simp: deadLock_visit_def split: if_splits option.splits)

interpretation key_lock: executive_visitor keyLock_visit
  by unfold_locales
     (auto simp: keyLock_visit_def Let_def
       split: if_splits option.splits MessageType.splits prod.splits sum.splits)

subsection \<open>The invariant of a block's execution\<close>

definition gas_of :: "ExecutiveResult \<Rightarrow> 64 word" where
  "gas_of r = (case receipt r of None \<Rightarrow> 0 | Some rc \<Rightarrow> TRANSACTION_GAS - word_of_int (receiptGas rc))"

text \<open>
  The books of a block whose unfinished contexts are \<open>A\<close>: the lock graph is well formed, exactly
  the finished transactions have a receipt, and the gas counter is their sum.
\<close>

definition book_inv :: "ContextID set \<Rightarrow> BlockExecutive \<Rightarrow> bool" where
  "book_inv A be \<longleftrightarrow>
     kl_inv (m_keyLocks be) \<and> A \<subseteq> {0..<int (length (m_executiveResults be))} \<and>
     (\<forall>i < length (m_executiveResults be). receipt (m_executiveResults be ! i) = None \<longleftrightarrow> int i \<in> A) \<and>
     m_gasUsed be = sum_list (map gas_of (m_executiveResults be))"

definition stack_ok :: "ExecutiveState \<Rightarrow> bool" where
  "stack_ok st \<longleftrightarrow> sorted_wrt (>) (callStack st) \<and> (\<forall>q \<in> set (callStack st). q < currentSeq st)"

text \<open>A state between two batches: it has its message, and a call to return from if that is not a request.\<close>

definition state_ready :: "ExecutiveState \<Rightarrow> bool" where
  "state_ready st \<longleftrightarrow> \<not> error st \<and> stack_ok st \<and>
     (\<exists>msg. message st = Some msg \<and> (msgType msg \<in> {MESSAGE, TXHASH} \<or> callStack st \<noteq> []))"

text \<open>A state whose message is with an executor.\<close>

definition state_waiting :: "ExecutiveState \<Rightarrow> bool" where
  "state_waiting st \<longleftrightarrow> \<not> error st \<and> stack_ok st \<and> message st = None \<and> callStack st \<noteq> []"

lemma sum_list_update_word:
  fixes f :: "'a \<Rightarrow> 'b::ab_group_add"
  shows "i < length xs \<Longrightarrow>
    sum_list (map f (xs[i := x])) = sum_list (map f xs) - f (xs ! i) + f x"
proof (induction xs arbitrary: i)
  case (Cons a xs)
  then show ?case by (cases i) (auto simp: algebra_simps)
qed simp

lemma finishTransaction_books:
  assumes "book_inv A be" and "ctx \<in> A"
  shows "\<exists>be'. finishTransaction ctx msg be = Inr be' \<and> book_inv (A - {ctx}) be'"
proof -
  let ?rs = "m_executiveResults be" and ?i = "nat ctx"
  have "ctx \<in> {0..<int (length ?rs)}" using assms by (auto simp: book_inv_def)
  then have range: "0 \<le> ctx" "?i < length ?rs" by auto
  have none: "receipt (?rs ! ?i) = None"
    using assms range by (simp add: book_inv_def)
  let ?r = "(?rs ! ?i)\<lparr>receipt := Some (createReceipt be msg)\<rparr>"
  have gas: "gas_of (?rs ! ?i) = 0" "gas_of ?r = TRANSACTION_GAS - word_of_int (gasAvailable msg)"
    using none by (simp_all add: gas_of_def createReceipt_def)
  have "receipt (?rs[?i := ?r] ! j) = None \<longleftrightarrow> int j \<in> A - {ctx}" if "j < length ?rs" for j
    using assms(1) range that by (cases "j = ?i") (auto simp: book_inv_def)
  moreover have "m_gasUsed be + (TRANSACTION_GAS - word_of_int (gasAvailable msg)) =
      sum_list (map gas_of (?rs[?i := ?r]))"
    using assms(1) gas range by (simp add: sum_list_update_word book_inv_def)
  ultimately show ?thesis
    using assms(1) range by (auto simp: finishTransaction_def book_inv_def)
qed

lemma book_inv_keyLocks:
  "book_inv A be \<Longrightarrow> kl_inv g \<Longrightarrow> book_inv A (be\<lparr>m_keyLocks := g\<rparr>)"
  by (simp add: book_inv_def)

context batch_environment
begin

lemma targetAddress_total: "\<exists>to. targetAddress env be msg ctx q = Inr to"
proof -
  have "\<exists>r. toChecksumAddress (hash_impl env) (hash_hex env) (boost_hex (take 20 (hash_impl env x))) = Inr r" for x
    by (rule toChecksumAddress_total) (simp_all add: env_hash env_hex)
  then show ?thesis
    by (simp add: targetAddress_def newEVMAddress_def newEVMAddressSalt_def split: option.split)
qed

lemma requestMessage_ok:
  assumes "stack_ok st"
  shows "\<exists>msg' st'. requestMessage env msg st be = (Inr (Fall msg'), st', be) \<and>
    stack_ok st' \<and> callStack st' \<noteq> [] \<and> error st' = error st \<and> skip st' = skip st \<and>
    (msgTo msg \<noteq> '''' \<longrightarrow> msgTo msg' = msgTo msg)"
proof -
  obtain to where to: "targetAddress env be msg (contextID st) (currentSeq st) = Inr to"
    using targetAddress_total by blast
  then have "msgTo msg \<noteq> '''' \<longrightarrow> to = msgTo msg" by (auto simp: targetAddress_def)
  moreover have "\<forall>q \<in> set (callStack st). q < currentSeq st" using assms by (simp add: stack_ok_def)
  ultimately show ?thesis
    using to assms by (auto simp: requestMessage_def Let_def stack_ok_def)
qed

lemma switchMessage_ok:
  assumes ready: "state_ready st" and msg: "message st = Some msg" and books: "book_inv A be"
    and ctx: "contextID st \<in> A"
  shows "case switchMessage env msg st be of
      (Inl e, _, _) \<Rightarrow> False
    | (Inr (Return h), st', be') \<Rightarrow>
        h = PASS \<and> st' = st \<and> msgType msg = KEY_LOCK \<and> book_inv A be' \<or> h = DELETE \<and> book_inv (A - {contextID st}) be'
    | (Inr (Fall msg'), st', be') \<Rightarrow> book_inv A be' \<and> stack_ok st' \<and> callStack st' \<noteq> [] \<and>
        \<not> error st' \<and> skip st' = skip st \<and> (msgTo msg \<noteq> '''' \<longrightarrow> msgTo msg' = msgTo msg)"
proof -
  have stack: "stack_ok st" and err: "\<not> error st"
    and ne: "msgType msg \<notin> {MESSAGE, TXHASH} \<Longrightarrow> callStack st \<noteq> []"
    using ready msg by (auto simp: state_ready_def)
  have return: ?thesis if "switchMessage env msg st be = returnMessage msg st be" "callStack st \<noteq> []"
    using that stack err books finishTransaction_books [OF books ctx, of msg]
    by (auto simp: returnMessage_def Let_def stack_ok_def split: list.splits sum.splits)
  have request: ?thesis if "switchMessage env msg st be = requestMessage env msg st be"
    using requestMessage_ok [OF stack, of msg be] books err that by auto
  show ?thesis
  proof (cases "msgType msg")
    case KEY_LOCK
    let ?a = "acquireKeyLock (msgFrom msg) (keyLockAcquired msg) (contextID st) (msgSeq msg) (m_keyLocks be)"
    have inv: "kl_inv (m_keyLocks be)" using books by (simp add: book_inv_def)
    obtain acquired g where run: "?a = (Inr acquired, g)"
      using acquireKeyLock_refines(1) [OF inv] by (metis prod.collapse)
    moreover have "kl_inv g" using kl_inv_acquire [OF inv] run by (metis snd_conv)
    ultimately show ?thesis
      using KEY_LOCK books stack err ne book_inv_keyLocks
      by (auto simp: switchMessage_def Let_def)
  next
    case SEND_BACK
    obtain to where "targetAddress env be (msg\<lparr>msgType := (if transactionHash msg \<noteq> 0 then TXHASH else MESSAGE)\<rparr>)
        (contextID st) (msgSeq msg) = Inr to" using targetAddress_total by blast
    moreover from this have "msgTo msg \<noteq> '''' \<longrightarrow> to = msgTo msg"
      by (auto simp: targetAddress_def)
    ultimately show ?thesis
      using SEND_BACK books stack err ne by (auto simp: switchMessage_def Let_def)
  next
    case REVERT_KEY_LOCK
    then show ?thesis using books stack err ne by (auto simp: switchMessage_def Let_def)
  qed (use return request ne in \<open>auto simp: switchMessage_def Let_def\<close>)
qed

end

subsection \<open>The sending phase\<close>

text \<open>
  The status of a batch during the sending phase, with unfinished contexts \<open>A\<close>. \<open>Cr\<close> are the
  contexts that create a contract, that is, start the batch without a target: only these may be
  sent to a contract that is already called in the batch.
\<close>

definition batch_inv :: "ContextID set \<Rightarrow> ContextID set \<Rightarrow> batch \<Rightarrow> bool" where
  "batch_inv Cr A b \<longleftrightarrow>
     book_inv A (executive b) \<and> em_inv (manager b) \<and> m_name2Executors (manager b) \<noteq> [] \<and>
     distinct (map fst (sent b)) \<and> fst ` set (sent b) \<subseteq> A \<and>
     b_total b = length (sent b) \<and> b_error b = 0 \<and> b_received b = 0 \<and> \<not> callbackExecuted b \<and>
     (\<lambda>(_, _, msg). msgTo msg) ` set (sent b) = set (calledContract b) \<and>
     sorted_wrt (\<lambda>(_, _, m) (c, _, m'). msgTo m = msgTo m' \<longrightarrow> c \<in> Cr) (sent b)"

definition to_visit :: "ContextID set \<Rightarrow> batch \<Rightarrow> ExecutiveState \<Rightarrow> bool" where
  "to_visit Cr b st \<longleftrightarrow> state_ready st \<and> contextID st \<notin> fst ` set (sent b) \<and>
     (msgTo (the (message st)) = '''' \<longrightarrow> contextID st \<in> Cr)"

text \<open>If nothing has been sent, every state passed so far waits for a key lock.\<close>

definition visited :: "batch \<Rightarrow> ExecutiveState \<Rightarrow> bool" where
  "visited b st \<longleftrightarrow>
     (if contextID st \<in> fst ` set (sent b) then state_waiting st
      else state_ready st \<and> (sent b = [] \<longrightarrow> msgType (the (message st)) = KEY_LOCK))"

definition sends :: "ContextID \<Rightarrow> batch \<Rightarrow> batch \<Rightarrow> bool" where
  "sends ctx b b' \<longleftrightarrow>
     fst ` set (sent b') - {ctx} = fst ` set (sent b) - {ctx} \<and> (sent b' = [] \<longrightarrow> sent b = [])"

lemma sends_stable:
  assumes "sends ctx b b'"
  shows "stable (to_visit Cr) ctx b b'" and "stable visited ctx b b'"
proof -
  have "x \<in> fst ` set (sent b') \<longleftrightarrow> x \<in> fst ` set (sent b)" if "x \<noteq> ctx" for x
    using assms that unfolding sends_def by blast
  then show "stable (to_visit Cr) ctx b b'" "stable visited ctx b b'"
    using assms unfolding stable_def to_visit_def visited_def sends_def by metis+
qed

lemma batch_inv_executive:
  "batch_inv Cr A b \<Longrightarrow> book_inv A be \<Longrightarrow> batch_inv Cr A (b\<lparr>executive := be\<rparr>)"
  by (simp add: batch_inv_def)

lemma batch_inv_finish:
  "batch_inv Cr A b \<Longrightarrow> ctx \<notin> fst ` set (sent b) \<Longrightarrow> book_inv (A - {ctx}) be \<Longrightarrow>
     batch_inv Cr (A - {ctx}) (b\<lparr>executive := be\<rparr>)"
  by (auto simp: batch_inv_def)

context batch_environment
begin

lemma sendMessage_ok:
  assumes inv: "batch_inv Cr A b" and ctx: "contextID st \<in> A" "contextID st \<notin> fst ` set (sent b)"
    and new: "msgTo msg \<in> set (calledContract b) \<longrightarrow> contextID st \<in> Cr"
  shows "\<exists>b'. sendMessage env msg st b = (Inr PASS, st\<lparr>message := None\<rparr>, b') \<and> batch_inv Cr A b' \<and>
    fst ` set (sent b') = insert (contextID st) (fst ` set (sent b))"
proof -
  have em: "em_inv (manager b)" and ne: "m_name2Executors (manager b) \<noteq> []"
    using inv by (simp_all add: batch_inv_def)
  obtain ex m' where d: "dispatchExecutor (pq_top env) (msgTo msg) (manager b) = (Inr (Some ex), m')"
    using priority_queue_top.dispatch_outcome [OF env_queue em ne, of "msgTo msg"] by blast
  have m': "em_inv m'" "m_name2Executors m' = m_name2Executors (manager b)"
    using priority_queue_top.dispatch_inv [OF env_queue em, of "msgTo msg"]
      priority_queue_top.dispatch_names [OF env_queue em, of "msgTo msg"] d by simp_all
  have called: "(\<lambda>(_, _, msg). msgTo msg) ` set (sent b) = set (calledContract b)"
    using inv by (simp add: batch_inv_def)
  have "\<forall>(_, _, m) \<in> set (sent b). msgTo m = msgTo msg \<longrightarrow> contextID st \<in> Cr"
    using new unfolding called [symmetric] by force
  then have "sorted_wrt (\<lambda>(_, _, m) (c, _, m'). msgTo m = msgTo m' \<longrightarrow> c \<in> Cr)
      (sent b @ [(contextID st, ex, msg\<lparr>keyLocks := ks\<rparr>)])" for ks
    using inv by (auto simp: batch_inv_def sorted_wrt_append split: prod.splits)
  with d m' inv ctx show ?thesis
    by (auto simp: sendMessage_def Let_def batch_inv_def)
qed

lemma startBatch_visit_ok:
  assumes visit: "to_visit Cr b st" and ctx: "contextID st \<in> A" and inv: "batch_inv Cr A b"
  shows "case startBatch_visit env st b of
      (Inl e, _, _) \<Rightarrow> False
    | (Inr h, st', b') \<Rightarrow>
        (if h = DELETE then batch_inv Cr (A - {contextID st}) b' else visited b' st' \<and> batch_inv Cr A b') \<and>
        stable (to_visit Cr) (contextID st) b b' \<and> stable visited (contextID st) b b' \<and>
        (h = SKIP \<or> h = END \<longrightarrow> (\<forall>x. to_visit Cr b' x \<longrightarrow> visited b' x))"
proof -
  have ready: "state_ready st" and new: "contextID st \<notin> fst ` set (sent b)"
    and cr: "msgTo (the (message st)) = '''' \<longrightarrow> contextID st \<in> Cr"
    using visit by (auto simp: to_visit_def)
  obtain msg where msg: "message st = Some msg" and err: "\<not> error st"
    using ready by (auto simp: state_ready_def)
  have same: "stable (to_visit Cr) (contextID st) b (b\<lparr>executive := be\<rparr>)"
    "stable visited (contextID st) b (b\<lparr>executive := be\<rparr>)" for be
    by (rule sends_stable; simp add: sends_def)+
  have pass: "visited (b\<lparr>executive := be\<rparr>) st" if "msgType msg = KEY_LOCK" for be
    using ready new msg that by (simp add: visited_def)
  show ?thesis
  proof (cases "msgTo msg \<noteq> '''' \<and> msgTo msg \<in> set (calledContract b)")
    case True
    then have called: "sent b \<noteq> []" using inv by (auto simp: batch_inv_def)
    then have "visited b (st\<lparr>skip := True\<rparr>)"
      using ready new by (simp add: visited_def state_ready_def stack_ok_def)
    with True called msg err inv show ?thesis
      by (simp add: startBatch_visit_def sends_stable sends_def to_visit_def visited_def)
  next
    case False
    obtain f st' be where sw: "switchMessage env msg st (executive b) = (Inr f, st', be)"
      using switchMessage_ok [OF ready msg _ ctx, of "executive b"] inv
      by (auto simp: batch_inv_def split: prod.splits sum.splits)
    have run: "startBatch_visit env st b =
        (case f of Return h \<Rightarrow> (Inr h, st', b\<lparr>executive := be\<rparr>)
         | Fall msg' \<Rightarrow> sendMessage env msg' st' (b\<lparr>executive := be\<rparr>))"
      using False err msg sw by (auto simp: startBatch_visit_def split: flow.splits)
    note ok = switchMessage_ok [OF ready msg _ ctx, of "executive b", unfolded sw]
    have books: "book_inv A (executive b)" using inv by (simp add: batch_inv_def)
    show ?thesis
    proof (cases f)
      case (Return h)
      with ok [OF books] same pass inv new batch_inv_executive batch_inv_finish show ?thesis
        by (auto simp: run)
    next
      case (Fall msg')
      have st': "book_inv A be" "stack_ok st'" "callStack st' \<noteq> []" "\<not> error st'"
        and to: "msgTo msg \<noteq> '''' \<longrightarrow> msgTo msg' = msgTo msg"
        using ok [OF books] by (simp_all add: Fall)
      have c: "contextID st' = contextID st" using sw by (rule switchMessage_context)
      have "msgTo msg' \<in> set (calledContract b) \<longrightarrow> contextID st' \<in> Cr"
        using False to cr msg by (auto simp: c)
      with inv st'(1) ctx new c obtain b' where
        send: "sendMessage env msg' st' (b\<lparr>executive := be\<rparr>) = (Inr PASS, st'\<lparr>message := None\<rparr>, b')"
        and b': "batch_inv Cr A b'" "fst ` set (sent b') = insert (contextID st) (fst ` set (sent b))"
        using sendMessage_ok [of Cr A "b\<lparr>executive := be\<rparr>" st' msg'] batch_inv_executive by auto
      have "visited b' (st'\<lparr>message := None\<rparr>)"
        using st' b'(2) c by (simp add: visited_def state_waiting_def stack_ok_def)
      moreover have "sends (contextID st) b b'" using b'(2) by (force simp: sends_def)
      ultimately show ?thesis
        using b'(1) by (simp add: run Fall send sends_stable)
    qed
  qed
qed

end

subsection \<open>The whole batch\<close>

definition executive_inv :: "BlockExecutive \<Rightarrow> bool" where
  "executive_inv be \<longleftrightarrow>
     states_inv (m_executiveStates be) \<and> (\<forall>st \<in> snd ` set (m_executiveStates be). state_ready st) \<and>
     book_inv (set (ids (m_executiveStates be))) be"

definition manager_ready :: "ExecutorManager \<Rightarrow> bool" where
  "manager_ready m \<longleftrightarrow> em_inv m \<and> m_name2Executors m \<noteq> []"

definition creating :: "executive_states \<Rightarrow> ContextID set" where
  "creating ms = {contextID st | st. st \<in> snd ` set ms \<and> msgTo (the (message st)) = ''''}"

definition all_visited :: "batch \<Rightarrow> bool" where
  "all_visited b \<longleftrightarrow>
     states_inv (m_executiveStates (executive b)) \<and>
     (\<forall>st \<in> snd ` set (m_executiveStates (executive b)). visited b st)"

lemma with_states_simps [simp]:
  "executive (with_states ms b) = (executive b)\<lparr>m_executiveStates := ms\<rparr>"
  "manager (with_states ms b) = manager b" "sent (with_states ms b) = sent b"
  "b_total (with_states ms b) = b_total b" "b_received (with_states ms b) = b_received b"
  "b_error (with_states ms b) = b_error b" "allSended (with_states ms b) = allSended b"
  "callbackExecuted (with_states ms b) = callbackExecuted b"
  "calledContract (with_states ms b) = calledContract b"
  by (simp_all add: with_states_def)

lemma book_inv_states [simp]: "book_inv A (be\<lparr>m_executiveStates := ms\<rparr>) = book_inv A be"
  by (simp add: book_inv_def)

context batch_environment
begin

lemma sendBatch_ok:
  assumes "executive_inv be" and "manager_ready m"
  shows "\<exists>b. sendBatch env be m = (Inr (), b) \<and> all_visited b \<and> allSended b \<and>
    batch_inv (creating (m_executiveStates be)) (set (ids (m_executiveStates (executive b)))) b"
proof -
  let ?ms = "m_executiveStates be" and ?Cr = "creating (m_executiveStates be)"
  have "case traverseExecutive (startBatch_visit env) ?ms (new_batch be m) of
      (Inl e, _, _) \<Rightarrow> False
    | (Inr _, ms', b) \<Rightarrow> states_inv ms' \<and> (\<forall>st \<in> snd ` set ms'. visited b st) \<and>
        batch_inv ?Cr (set (ids ms')) b"
  proof (rule start.traverse_rule [where P = "to_visit ?Cr"])
    show "states_inv ?ms" using assms(1) by (simp add: executive_inv_def)
    show "\<forall>st \<in> snd ` set ?ms. to_visit ?Cr (new_batch be m) st"
      using assms(1) by (auto simp: executive_inv_def to_visit_def new_batch_def creating_def)
    show "batch_inv ?Cr (set (ids ?ms)) (new_batch be m)"
      using assms by (simp add: batch_inv_def new_batch_def executive_inv_def manager_ready_def)
  qed (rule startBatch_visit_ok)
  then show ?thesis
    by (auto simp: sendBatch_def all_visited_def batch_inv_def visited_def split: prod.splits sum.splits)
qed

end

text \<open>Answers of different contexts may be delivered in any order.\<close>

abbreviation deliver_to ::
  "(ExecutorPtr \<Rightarrow> ExecutionMessage \<Rightarrow> response) \<Rightarrow> ContextID \<times> ExecutorPtr \<times> ExecutionMessage \<Rightarrow> batch \<Rightarrow> batch"
where
  "deliver_to respond \<equiv> \<lambda>(ctx, ex, msg). deliver ctx (respond ex msg)"

lemma executeCallback_context [simp]: "contextID (executeCallback r st) = contextID st"
  by (simp add: executeCallback_def split: response.split)

lemma deliver_commute:
  assumes "c \<noteq> d"
  shows "deliver c r (deliver d r' b) = deliver d r' (deliver c r b)"
proof -
  let ?answer = "\<lambda>c r (k :: state_key, st). (k, if contextID st = c then executeCallback r st else st)"
  have "?answer c r \<circ> ?answer d r' = ?answer d r' \<circ> ?answer c r"
    using assms by (auto simp: fun_eq_iff)
  then show ?thesis
    by (simp add: deliver_def with_states_def split: response.split)
qed

lemma deliver_simps [simp]:
  "b_total (deliver c r b) = b_total b" "b_received (deliver c r b) = Suc (b_received b)"
  "allSended (deliver c r b) = allSended b" "callbackExecuted (deliver c r b) = callbackExecuted b"
  "sent (deliver c r b) = sent b" "manager (deliver c r b) = manager b"
  by (simp_all add: deliver_def)

lemma deliveries_perm:
  assumes "mset xs = mset ys" and "distinct (map fst xs)"
  shows "fold (deliver_to respond) xs b = fold (deliver_to respond) ys b"
proof -
  have "fold (deliver_to respond) xs = fold (deliver_to respond) ys"
  proof (rule fold_multiset_equiv [OF _ assms(1)])
    fix x y assume xy: "x \<in> set xs" "y \<in> set xs"
    show "deliver_to respond x \<circ> deliver_to respond y = deliver_to respond y \<circ> deliver_to respond x"
    proof (cases "x = y")
      case False
      with xy assms(2) have "fst x \<noteq> fst y" by (auto simp: distinct_map inj_on_def)
      then show ?thesis by (auto simp: fun_eq_iff split: prod.splits intro: deliver_commute)
    qed simp
  qed
  then show ?thesis by simp
qed

lemma checkBatch_waiting: "b_received b \<noteq> b_total b \<or> callbackExecuted b \<Longrightarrow> checkBatch b = (None, b)"
  by (auto simp: checkBatch_def)

lemma checkBatch_fires:
  assumes "allSended b" and "b_received b = b_total b" and "\<not> callbackExecuted b"
  shows "\<exists>c b'. checkBatch b = (Some c, b') \<and> callbackExecuted b' \<and> sent b' = sent b"
  using assms by (auto simp: checkBatch_def Let_def split: prod.splits)

text \<open>Only the last answer makes \<open>checkBatch\<close> run the callback.\<close>

lemma handleResponses_once:
  assumes "allSended b" and "\<not> callbackExecuted b" and "b_received b + length arrivals = b_total b"
    and "arrivals \<noteq> []"
  shows "handleResponses respond arrivals b =
    (case checkBatch (fold (deliver_to respond) arrivals b) of (c, b') \<Rightarrow> ([the c], b'))"
  using assms
proof (induction arrivals arbitrary: b)
  case (Cons a arrivals)
  obtain ctx ex msg where a: "a = (ctx, ex, msg)" by (cases a) auto
  let ?b = "deliver ctx (respond ex msg) b"
  show ?case
  proof (cases "arrivals = []")
    case True
    obtain c b' where "checkBatch ?b = (Some c, b')"
      using checkBatch_fires [of ?b] Cons.prems True by auto
    with True a show ?thesis by simp
  next
    case False
    have "checkBatch ?b = (None, ?b)"
      using Cons.prems False by (intro checkBatch_waiting) (cases arrivals; simp)
    moreover have "handleResponses respond arrivals ?b =
        (case checkBatch (fold (deliver_to respond) arrivals ?b) of (c, b') \<Rightarrow> ([the c], b'))"
      by (rule Cons.IH) (use Cons.prems False in simp_all)
    ultimately show ?thesis by (simp add: a)
  qed
qed simp

lemma startBatch_canonical:
  assumes send: "sendBatch env be m = (Inr (), b)" and inv: "batch_inv Cr A b" and "allSended b"
    and perm: "mset (order (sent b)) = mset (sent b)"
  shows "startBatch env respond order be m =
    (case checkBatch (fold (deliver_to respond) (sent b) b) of
       (c, b') \<Rightarrow> ([the c], executive b', manager b'))"
proof -
  have b: "b_received b = 0" "b_total b = length (sent b)" "\<not> callbackExecuted b"
    "distinct (map fst (sent b))"
    using inv by (simp_all add: batch_inv_def)
  have len: "length (order (sent b)) = length (sent b)"
    using perm by (metis size_mset)
  show ?thesis
  proof (cases "sent b = []")
    case True
    with len have none: "order (sent b) = []" by simp
    obtain c b' where "checkBatch b = (Some c, b')" "sent b' = sent b"
      using checkBatch_fires [of b] assms(3) b True by auto
    with none True show ?thesis by (simp add: startBatch_def send)
  next
    case False
    have "distinct (map fst (order (sent b)))"
      using b(4) perm by (metis mset_map mset_eq_imp_distinct_iff)
    then have "fold (deliver_to respond) (order (sent b)) b = fold (deliver_to respond) (sent b) b"
      using perm by (intro deliveries_perm)
    moreover have "handleResponses respond (order (sent b)) b =
        (case checkBatch (fold (deliver_to respond) (order (sent b)) b) of (c, b') \<Rightarrow> ([the c], b'))"
      by (rule handleResponses_once) (use assms(3) b len False in auto)
    moreover have "checkBatch b = (None, b)"
      using b False by (intro checkBatch_waiting) simp
    ultimately show ?thesis by (simp add: startBatch_def send split: prod.split)
  qed
qed

subsection \<open>After the answers\<close>

definition answer_node ::
  "(ExecutorPtr \<Rightarrow> ExecutionMessage \<Rightarrow> response) \<Rightarrow> (ContextID \<times> ExecutorPtr \<times> ExecutionMessage) list \<Rightarrow>
     ExecutiveState \<Rightarrow> ExecutiveState"
where
  "answer_node respond xs st =
     (case map_of xs (contextID st) of
        None \<Rightarrow> st
      | Some (ex, msg) \<Rightarrow> executeCallback (respond ex msg) st)"

fun is_response :: "response \<Rightarrow> bool" where
  "is_response (Response _) = True"
| "is_response _ = False"

text \<open>Every executor answered with a message.\<close>

definition all_answered ::
  "(ExecutorPtr \<Rightarrow> ExecutionMessage \<Rightarrow> response) \<Rightarrow> (ContextID \<times> ExecutorPtr \<times> ExecutionMessage) list \<Rightarrow> bool"
where
  "all_answered respond xs \<longleftrightarrow> (\<forall>(_, ex, msg) \<in> set xs. is_response (respond ex msg))"

lemma answer_node_context [simp]: "contextID (answer_node respond xs st) = contextID st"
  by (simp add: answer_node_def split: option.split prod.split)

lemma deliveries_counters [simp]:
  "b_received (fold (deliver_to respond) xs b) = b_received b + length xs"
  "b_total (fold (deliver_to respond) xs b) = b_total b"
  "allSended (fold (deliver_to respond) xs b) = allSended b"
  "callbackExecuted (fold (deliver_to respond) xs b) = callbackExecuted b"
  "manager (fold (deliver_to respond) xs b) = manager b"
  by (induction xs arbitrary: b) auto

lemma deliveries_error:
  "b_error (fold (deliver_to respond) xs b) =
     b_error b + length (filter (\<lambda>(_, ex, msg). \<not> is_response (respond ex msg)) xs)"
proof (induction xs arbitrary: b)
  case (Cons a xs)
  obtain ctx ex msg where a: "a = (ctx, ex, msg)" by (cases a) auto
  have "b_error (deliver ctx (respond ex msg) b) = b_error b + (if is_response (respond ex msg) then 0 else 1)"
    by (simp add: deliver_def split: response.split)
  with Cons show ?case by (simp add: a)
qed simp

lemma deliveries_error_0:
  "b_error b = 0 \<Longrightarrow> b_error (fold (deliver_to respond) xs b) = 0 \<longleftrightarrow> all_answered respond xs"
  by (auto simp: deliveries_error all_answered_def filter_empty_conv)

lemma answer_node_Cons:
  assumes "ctx \<notin> fst ` set xs"
  shows "answer_node respond ((ctx, ex, msg) # xs) st =
    answer_node respond xs (if contextID st = ctx then executeCallback (respond ex msg) st else st)"
proof -
  have "map_of xs ctx = None" using assms by (simp add: map_of_eq_None_iff)
  then show ?thesis by (simp add: answer_node_def)
qed

lemma deliveries_states:
  assumes "distinct (map fst xs)"
  shows "executive (fold (deliver_to respond) xs b) =
      (executive b)\<lparr>m_executiveStates :=
         map (\<lambda>(k, st). (k, answer_node respond xs st)) (m_executiveStates (executive b))\<rparr>"
  using assms
proof (induction xs arbitrary: b)
  case Nil
  show ?case by (simp add: answer_node_def case_prod_beta)
next
  case (Cons a xs)
  obtain ctx ex msg where a: "a = (ctx, ex, msg)" by (cases a) auto
  with Cons.prems have "ctx \<notin> fst ` set xs" by simp
  note node = answer_node_Cons [OF this]
  show ?case
    using Cons by (simp add: a deliver_def node comp_def case_prod_beta)
qed

lemma answered_ready:
  assumes "all_visited b" and "all_answered respond (sent b)"
    and "st \<in> snd ` set (m_executiveStates (executive b))"
  shows "state_ready (answer_node respond (sent b) st)"
proof -
  have v: "visited b st" using assms(1,3) by (auto simp: all_visited_def)
  show ?thesis
  proof (cases "map_of (sent b) (contextID st)")
    case None
    then have "contextID st \<notin> fst ` set (sent b)" by (simp add: map_of_eq_None_iff)
    with v None show ?thesis by (simp add: visited_def answer_node_def)
  next
    case (Some x)
    obtain ex msg where x: "x = (ex, msg)" by (cases x)
    from Some have m: "(contextID st, ex, msg) \<in> set (sent b)" unfolding x by (rule map_of_SomeD)
    then have "contextID st \<in> fst ` set (sent b)" by force
    with v have "state_waiting st" by (simp add: visited_def)
    moreover obtain msg' where "respond ex msg = Response msg'"
      using assms(2) m by (cases "respond ex msg") (auto simp: all_answered_def)
    ultimately show ?thesis
      by (simp add: answer_node_def Some x executeCallback_def state_ready_def state_waiting_def stack_ok_def)
  qed
qed

subsection \<open>The traversals of the check\<close>

lemma deadLock_visit_ok:
  assumes "state_ready st" and "msgType (the (message st)) = KEY_LOCK"
  shows "case deadLock_visit st g of
      (Inl e, _, _) \<Rightarrow> False
    | (Inr h, st', g') \<Rightarrow> h \<noteq> DELETE \<and> state_ready st' \<and> g' = g"
  using assms by (auto simp: deadLock_visit_def state_ready_def stack_ok_def split: option.splits)

lemma keyLock_visit_ok:
  assumes "state_ready st" and "kl_inv g"
  shows "case keyLock_visit st g of
      (Inl e, _, _) \<Rightarrow> e = Throw UnexpectedKeyLockError
    | (Inr h, st', g') \<Rightarrow> h \<noteq> DELETE \<and> state_ready st' \<and> kl_inv g'"
proof -
  obtain msg where msg: "message st = Some msg" using assms(1) by (auto simp: state_ready_def)
  let ?a = "batchAcquireKeyLock (msgFrom msg) (keyLocks msg) (msgContextID msg) (msgSeq msg) g"
  have acquire: "fst ?a = Inl (Throw UnexpectedKeyLockError) \<or> fst ?a = Inr True" "kl_inv (snd ?a)"
    using batchAcquireKeyLock_result [OF assms(2)] batchAcquire_inv [OF assms(2)] by auto
  have skip: "state_ready (st\<lparr>skip := False\<rparr>)"
    using assms(1) by (simp add: state_ready_def stack_ok_def)
  show ?thesis
    using assms acquire skip kl_inv_release [OF assms(2)]
    by (cases "msgType msg") (auto simp: keyLock_visit_def msg Let_def split: prod.splits)
qed

text \<open>A check that only throws when an executor asks for a key of another context.\<close>

definition check_result :: "executive_states \<Rightarrow> (exn + unit) \<times> executive_states \<times> GraphKeyLocks \<Rightarrow> bool" where
  "check_result ms r \<longleftrightarrow>
     (case r of
        (Inl e, _, _) \<Rightarrow> e = Throw UnexpectedKeyLockError
      | (Inr _, ms', g') \<Rightarrow> states_inv ms' \<and> (\<forall>st \<in> snd ` set ms'. state_ready st) \<and>
          set (ids ms') = set (ids ms) \<and> kl_inv g')"

lemma keyLock_traversal_ok:
  assumes "states_inv ms" and "\<forall>st \<in> snd ` set ms. state_ready st" and "kl_inv g"
  shows "check_result ms (traverseExecutive keyLock_visit ms g)"
  unfolding check_result_def
proof (rule key_lock.traverse_rule [OF assms(1), where P = "\<lambda>_. state_ready"])
  fix st s A
  assume "state_ready st" and "A = set (ids ms) \<and> kl_inv s"
  with keyLock_visit_ok [of st s]
  show "case keyLock_visit st s of
      (Inl e, _, _) \<Rightarrow> e = Throw UnexpectedKeyLockError
    | (Inr h, st', s') \<Rightarrow>
        (if h = DELETE then A - {contextID st} = set (ids ms) \<and> kl_inv s'
         else state_ready st' \<and> A = set (ids ms) \<and> kl_inv s') \<and>
        stable (\<lambda>_. state_ready) (contextID st) s s' \<and> stable (\<lambda>_. state_ready) (contextID st) s s' \<and>
        (h = SKIP \<or> h = END \<longrightarrow> (\<forall>x. state_ready x \<longrightarrow> state_ready x))"
    by (auto simp: stable_def split: prod.splits sum.splits)
qed (use assms in auto)

lemma deadLock_traversal_ok:
  assumes "states_inv ms" and "\<forall>st \<in> snd ` set ms. state_ready st \<and> msgType (the (message st)) = KEY_LOCK"
    and "kl_inv g"
  shows "check_result ms (traverseExecutive deadLock_visit ms g)"
  unfolding check_result_def
proof (rule dead_lock.traverse_rule [OF assms(1),
      where P = "\<lambda>_ st. state_ready st \<and> msgType (the (message st)) = KEY_LOCK"])
  fix st s A
  assume "state_ready st \<and> msgType (the (message st)) = KEY_LOCK" and "A = set (ids ms) \<and> kl_inv s"
  with deadLock_visit_ok [of st s]
  show "case deadLock_visit st s of
      (Inl e, _, _) \<Rightarrow> e = Throw UnexpectedKeyLockError
    | (Inr h, st', s') \<Rightarrow>
        (if h = DELETE then A - {contextID st} = set (ids ms) \<and> kl_inv s'
         else state_ready st' \<and> A = set (ids ms) \<and> kl_inv s') \<and>
        stable (\<lambda>_ st. state_ready st \<and> msgType (the (message st)) = KEY_LOCK) (contextID st) s s' \<and>
        stable (\<lambda>_. state_ready) (contextID st) s s' \<and>
        (h = SKIP \<or> h = END \<longrightarrow>
          (\<forall>x. state_ready x \<and> msgType (the (message x)) = KEY_LOCK \<longrightarrow> state_ready x))"
    by (auto simp: stable_def split: prod.splits sum.splits)
qed (use assms in auto)

subsection \<open>What a batch leaves alone\<close>

definition frame :: "BlockExecutive \<Rightarrow>
  Block \<times> BlockHeader option \<times> int \<times> bool \<times> bool \<times> (h256 \<times> string) list"
where
  "frame be =
     (m_block be, m_result be, m_startContextID be, m_staticCall be, m_syncBlock be,
      map (\<lambda>r. (resultHash r, source r)) (m_executiveResults be))"

lemma frame_simps [simp]:
  "frame (be\<lparr>m_keyLocks := g\<rparr>) = frame be" "frame (be\<lparr>m_executiveStates := ms\<rparr>) = frame be"
  by (simp_all add: frame_def)

lemma finishTransaction_frame: "finishTransaction ctx msg be = Inr be' \<Longrightarrow> frame be' = frame be"
  by (auto simp: finishTransaction_def frame_def map_update list_update_same_conv split: if_splits)

lemma switchMessage_frame: "frame (snd (snd (switchMessage env msg st be))) = frame be"
  using finishTransaction_frame
  by (auto simp: switchMessage_def requestMessage_def returnMessage_def Let_def
      split: MessageType.splits sum.splits list.splits prod.splits)

lemma dispatchExecutor_names: "m_name2Executors (snd (dispatchExecutor t c m)) = m_name2Executors m"
  by (auto simp: dispatchExecutor_def dispatchLocked_def Let_def split: option.splits prod.splits sum.splits if_splits)

definition batch_frame :: "batch \<Rightarrow>
  (Block \<times> BlockHeader option \<times> int \<times> bool \<times> bool \<times> (h256 \<times> string) list) \<times> (string \<times> nat) list"
where
  "batch_frame b = (frame (executive b), m_name2Executors (manager b))"

lemma sendMessage_frame: "batch_frame (snd (snd (sendMessage env msg st b))) = batch_frame b"
  using dispatchExecutor_names [of "pq_top env" "msgTo msg" "manager b"]
  by (auto simp: sendMessage_def batch_frame_def Let_def split: prod.splits sum.splits option.splits)

lemma startBatch_visit_frame: "batch_frame (snd (snd (startBatch_visit env st b))) = batch_frame b"
proof (cases "error st \<or> message st = None")
  case True
  then show ?thesis by (auto simp: startBatch_visit_def batch_frame_def)
next
  case False
  then obtain msg where msg: "message st = Some msg" by auto
  obtain f st' be where sw: "switchMessage env msg st (executive b) = (f, st', be)"
    by (metis prod_cases3)
  then have "batch_frame (b\<lparr>executive := be\<rparr>) = batch_frame b"
    using switchMessage_frame [of env msg st "executive b"] by (simp add: batch_frame_def)
  moreover note sendMessage_frame [of env _ st' "b\<lparr>executive := be\<rparr>"]
  ultimately show ?thesis
    using False by (simp add: startBatch_visit_def msg sw split: sum.split flow.split)
qed

lemma sendBatch_frame: "batch_frame (snd (sendBatch env be m)) = (frame be, m_name2Executors m)"
proof -
  have "batch_frame (snd (snd (traverseExecutive (startBatch_visit env) (m_executiveStates be) (new_batch be m)))) =
      (frame be, m_name2Executors m)"
    by (rule traverseExecutive_captured [where J = "\<lambda>b. batch_frame b = (frame be, m_name2Executors m)"])
       (simp only: startBatch_visit_frame, simp add: batch_frame_def new_batch_def)
  then show ?thesis
    by (auto simp: sendBatch_def batch_frame_def split: prod.splits sum.splits)
qed

lemma checkBatch_frame: "batch_frame (snd (checkBatch b)) = batch_frame b"
  by (auto simp: checkBatch_def batch_frame_def Let_def split: prod.splits)

lemma checkBatch_manager [simp]: "manager (snd (checkBatch b)) = manager b"
  by (auto simp: checkBatch_def Let_def split: prod.splits)

subsection \<open>The outcome of a batch\<close>

definition batch_outcome ::
  "BlockExecutive \<Rightarrow> bool \<Rightarrow> (exn + SchedulerError option) \<Rightarrow> BlockExecutive \<Rightarrow> bool"
where
  "batch_outcome be answered r be' \<longleftrightarrow>
     (case r of
        Inr None \<Rightarrow> answered \<and> executive_inv be' \<and> set (ids (m_executiveStates be')) \<subseteq> set (ids (m_executiveStates be))
      | Inr (Some e) \<Rightarrow> \<not> answered \<and> e = BatchError
      | Inl e \<Rightarrow> answered \<and> e = Throw UnexpectedKeyLockError)"

lemma ids_answer_node [simp]: "ids (map (\<lambda>(k, st). (k, answer_node respond xs st)) ms) = ids ms"
  by (simp add: ids_def case_prod_beta comp_def)

lemma states_inv_answer_node:
  "states_inv ms \<Longrightarrow> states_inv (map (\<lambda>(k, st). (k, answer_node respond xs st)) ms)"
  by (auto simp: states_inv_def sorted_map_def case_prod_beta comp_def)

lemma checkBatch_ok:
  fixes respond :: "ExecutorPtr \<Rightarrow> ExecutionMessage \<Rightarrow> response"
  assumes visited: "all_visited b" and inv: "batch_inv Cr (set (ids (m_executiveStates (executive b)))) b"
    and all: "allSended b"
  defines "b' \<equiv> fold (deliver_to respond) (sent b) b"
  shows "\<exists>r b''. checkBatch b' = (Some r, b'') \<and>
    batch_outcome (executive b) (all_answered respond (sent b)) r (executive b'')"
proof -
  let ?ms = "map (\<lambda>(k, st). (k, answer_node respond (sent b) st)) (m_executiveStates (executive b))"
  have b: "b_received b = 0" "b_total b = length (sent b)" "\<not> callbackExecuted b" "b_error b = 0"
    "distinct (map fst (sent b))" "kl_inv (m_keyLocks (executive b))"
    using inv by (simp_all add: batch_inv_def book_inv_def)
  have be: "executive b' = (executive b)\<lparr>m_executiveStates := ?ms\<rparr>"
    unfolding b'_def by (rule deliveries_states) (rule b)
  have err: "b_error b' = 0 \<longleftrightarrow> all_answered respond (sent b)"
    unfolding b'_def using b(4) by (rule deliveries_error_0)
  have fires: "allSended b'" "b_received b' = b_total b'" "\<not> callbackExecuted b'" "b_total b' = length (sent b)"
    using all b by (simp_all add: b'_def)
  show ?thesis
  proof (cases "all_answered respond (sent b)")
    case False
    with err fires show ?thesis by (simp add: checkBatch_def Let_def batch_outcome_def)
  next
    case True
    let ?visit = "if ?ms \<noteq> [] \<and> sent b = [] then deadLock_visit else keyLock_visit"
    have "state_ready (answer_node respond (sent b) (snd x))"
      if "x \<in> set (m_executiveStates (executive b))" for x
      by (rule answered_ready [OF visited True]) (use that in simp)
    then have ready: "states_inv ?ms" "\<forall>st \<in> snd ` set ?ms. state_ready st"
      using visited by (auto simp: all_visited_def states_inv_answer_node)
    have "check_result ?ms (traverseExecutive ?visit ?ms (m_keyLocks (executive b)))"
    proof (cases "sent b = []")
      case none: True
      then have "\<forall>st \<in> snd ` set ?ms. state_ready st \<and> msgType (the (message st)) = KEY_LOCK"
        using visited by (auto simp: all_visited_def visited_def answer_node_def)
      note dead = deadLock_traversal_ok [OF ready(1) this b(6)]
      have "check_result ?ms (traverseExecutive (if C then deadLock_visit else keyLock_visit) ?ms
          (m_keyLocks (executive b)))" for C
        using dead keyLock_traversal_ok [OF ready b(6)] by (cases C) simp_all
      then show ?thesis .
    qed (simp add: keyLock_traversal_ok [OF ready b(6)])
    then obtain r ms' g' where tr: "traverseExecutive ?visit ?ms (m_keyLocks (executive b)) = (r, ms', g')"
      and res: "check_result ?ms (r, ms', g')"
      by (metis prod_cases3)
    have "checkBatch b' = (Some (map_sum id (\<lambda>_. None) r), b'\<lparr>callbackExecuted := True,
        executive := (executive b')\<lparr>m_executiveStates := ms', m_keyLocks := g'\<rparr>\<rparr>)"
      using fires err True tr by (simp add: checkBatch_def Let_def be)
    moreover have "batch_outcome (executive b) (all_answered respond (sent b)) (map_sum id (\<lambda>_. None) r)
        ((executive b')\<lparr>m_executiveStates := ms', m_keyLocks := g'\<rparr>)"
      using res inv True
      by (auto simp: batch_outcome_def check_result_def executive_inv_def be batch_inv_def book_inv_def split: sum.splits)
    ultimately show ?thesis
      by (intro exI [of _ "map_sum id (\<lambda>_. None) r"] exI conjI) (assumption, simp)
  qed
qed

context batch_environment
begin

lemma startBatch_ok:
  assumes inv: "executive_inv be" "manager_ready m" and perm: "\<And>xs. mset (order xs) = mset xs"
  shows "\<exists>b r b'. sendBatch env be m = (Inr (), b) \<and>
    batch_inv (creating (m_executiveStates be)) (set (ids (m_executiveStates (executive b)))) b \<and>
    startBatch env respond order be m = ([r], executive b', manager b') \<and>
    checkBatch (fold (deliver_to respond) (sent b) b) = (Some r, b') \<and>
    batch_outcome (executive b) (all_answered respond (sent b)) r (executive b') \<and>
    manager_ready (manager b') \<and> batch_frame b' = (frame be, m_name2Executors m)"
proof -
  obtain b where send: "sendBatch env be m = (Inr (), b)" and v: "all_visited b" "allSended b"
    and b: "batch_inv (creating (m_executiveStates be)) (set (ids (m_executiveStates (executive b)))) b"
    using sendBatch_ok [OF inv] by blast
  obtain r b' where check: "checkBatch (fold (deliver_to respond) (sent b) b) = (Some r, b')"
    and out: "batch_outcome (executive b) (all_answered respond (sent b)) r (executive b')"
    using checkBatch_ok [OF v(1) b v(2)] by blast
  have "manager b' = manager b"
    using checkBatch_manager [of "fold (deliver_to respond) (sent b) b"] check by simp
  then have "manager_ready (manager b')" using b by (simp add: batch_inv_def manager_ready_def)
  moreover have "batch_frame (fold (deliver_to respond) (sent b) b) = batch_frame b"
    using b by (simp add: batch_frame_def deliveries_states batch_inv_def)
  then have "batch_frame b' = (frame be, m_name2Executors m)"
    using checkBatch_frame [of "fold (deliver_to respond) (sent b) b"] check sendBatch_frame [of env be m] send
    by simp
  moreover have "startBatch env respond order be m = ([r], executive b', manager b')"
    using startBatch_canonical [OF send b v(2), of order] perm check by simp
  ultimately show ?thesis using send b check out by blast
qed

lemma sendBatch_ids:
  assumes "executive_inv be" "manager_ready m" "sendBatch env be m = (Inr (), b)"
  shows "set (ids (m_executiveStates (executive b))) \<subseteq> set (ids (m_executiveStates be))"
proof -
  let ?ms = "m_executiveStates be" and ?Cr = "creating (m_executiveStates be)"
  have "case traverseExecutive (startBatch_visit env) ?ms (new_batch be m) of
      (Inl e, _, _) \<Rightarrow> False
    | (Inr _, ms', b) \<Rightarrow> states_inv ms' \<and> (\<forall>st \<in> snd ` set ms'. visited b st) \<and>
        (set (ids ms') \<subseteq> set (ids ?ms) \<and> batch_inv ?Cr (set (ids ms')) b)"
  proof (rule start.traverse_rule [where P = "to_visit ?Cr"])
    fix st b A
    assume "to_visit ?Cr b st" "contextID st \<in> A" "A \<subseteq> set (ids ?ms) \<and> batch_inv ?Cr A b"
    then show "case startBatch_visit env st b of
        (Inl e, _, _) \<Rightarrow> False
      | (Inr h, st', b') \<Rightarrow>
          (if h = DELETE then A - {contextID st} \<subseteq> set (ids ?ms) \<and> batch_inv ?Cr (A - {contextID st}) b'
           else visited b' st' \<and> A \<subseteq> set (ids ?ms) \<and> batch_inv ?Cr A b') \<and>
          stable (to_visit ?Cr) (contextID st) b b' \<and> stable visited (contextID st) b b' \<and>
          (h = SKIP \<or> h = END \<longrightarrow> (\<forall>x. to_visit ?Cr b' x \<longrightarrow> visited b' x))"
      using startBatch_visit_ok [of ?Cr b st A] by (auto split: prod.splits sum.splits)
  qed (use assms(1,2) in \<open>auto simp: executive_inv_def to_visit_def new_batch_def creating_def
        batch_inv_def manager_ready_def\<close>)
  then show ?thesis
    using assms(3) by (auto simp: sendBatch_def split: prod.splits sum.splits)
qed

end

lemma startBatch_run:
  assumes "batch_environment env" and "executive_inv be" and "manager_ready m"
    and "\<And>xs. mset (order xs) = mset xs"
    and "startBatch env respond order be m = ([r], be', m')"
  shows "manager_ready m' \<and> frame be' = frame be \<and> m_name2Executors m' = m_name2Executors m \<and>
    (case r of
       Inr None \<Rightarrow> executive_inv be' \<and> set (ids (m_executiveStates be')) \<subseteq> set (ids (m_executiveStates be))
     | Inr (Some e) \<Rightarrow> e = BatchError \<and> (\<exists>ex msg. \<not> is_response (respond ex msg))
     | Inl e \<Rightarrow> e = Throw UnexpectedKeyLockError)"
proof -
  obtain b r' and b' :: batch where b: "sendBatch env be m = (Inr (), b)"
    and run: "startBatch env respond order be m = ([r'], executive b', manager b')"
    and out: "batch_outcome (executive b) (all_answered respond (sent b)) r' (executive b')"
    and ready: "manager_ready (manager b')" "batch_frame b' = (frame be, m_name2Executors m)"
    using batch_environment.startBatch_ok [OF assms(1-4), of respond] by blast
  have eq: "r' = r" "executive b' = be'" "manager b' = m'" using run assms(5) by simp_all
  have "set (ids (m_executiveStates (executive b))) \<subseteq> set (ids (m_executiveStates be))"
    using assms(1-3) b by (rule batch_environment.sendBatch_ids)
  with out ready eq show ?thesis
    by (auto simp: batch_outcome_def batch_frame_def all_answered_def split: sum.splits option.splits)
qed

subsection \<open>Properties\<close>

lemma id_perm: "mset (id xs) = mset xs"
  by simp

text \<open>A block with two calls of one contract, for evaluation.\<close>

definition sample_message :: "ContextID \<Rightarrow> ExecutionMessage" where
  "sample_message ctx =
     \<lparr>msgType = TXHASH, msgContextID = ctx, msgSeq = 0, transactionHash = 1, msgOrigin = '''',
      msgFrom = '''', msgTo = ''c'', msgCreate = False, msgDepth = 0, gasAvailable = 30000000000,
      msgData = '''', msgStaticCall = False, createSalt = None, keyLocks = [],
      keyLockAcquired = '''', logEntries = [], msgStatus = 0, newEVMContractAddress = ''''\<rparr>"

definition sample_executive :: BlockExecutive where
  "sample_executive =
     \<lparr>m_executiveStates = [((''c'', 0), new_state 0 (sample_message 0) False),
                           ((''c'', 1), new_state 1 (sample_message 1) False)],
      m_executiveResults = replicate 2 \<lparr>receipt = None, resultHash = 1, source = ''''\<rparr>,
      m_gasUsed = 0, m_keyLocks = empty_locks,
      m_block = \<lparr>blockHeader = \<lparr>number = 5, stateRoot = 0, gasUsed = 0, txsRoot = 0, receiptsRoot = 0\<rparr>,
                 transactionsMetaData = [], transactions = [], receipts = []\<rparr>,
      m_result = None, m_startContextID = 0, m_staticCall = False, m_syncBlock = False\<rparr>"

abbreviation sample_manager :: ExecutorManager where
  "sample_manager \<equiv> manager_after leftmost_top [AddExecutor ''e'' 7]"

lemma sample_executive_inv: "executive_inv sample_executive"
  by (simp add: executive_inv_def sample_executive_def states_inv_def state_ready_def stack_ok_def
      book_inv_def new_state_def sample_message_def kl_inv_empty gas_of_def less_Suc_eq numeral_2_eq_2)

lemma sample_manager_ready: "manager_ready sample_manager"
  using manager_after_inv [OF leftmost.priority_queue_top_axioms, of "[AddExecutor ''e'' 7]"]
  by (simp add: manager_ready_def addExecutor_def empty_manager_def)





text \<open>
  (C17) Within a batch every context sends at most one message, and two messages go to the same
  contract only if the later one creates a contract at an address that is already in use.
\<close>

theorem batch_sends_each_contract_once:
  assumes "batch_environment env" and "executive_inv be" and "manager_ready m"
    and "sendBatch env be m = (Inr (), b)" and "i < j" and "j < length (sent b)"
  shows "fst (sent b ! i) \<noteq> fst (sent b ! j) \<and>
    (msgTo (snd (snd (sent b ! i))) = msgTo (snd (snd (sent b ! j))) \<longrightarrow>
       (\<exists>st \<in> snd ` set (m_executiveStates be).
          contextID st = fst (sent b ! j) \<and> msgTo (the (message st)) = ''''))"
proof -
  have inv: "batch_inv (creating (m_executiveStates be)) (set (ids (m_executiveStates (executive b)))) b"
    using batch_environment.sendBatch_ok [OF assms(1-3)] assms(4) by auto
  then have "distinct (map fst (sent b))" by (simp add: batch_inv_def)
  then have "fst (sent b ! i) \<noteq> fst (sent b ! j)"
    using assms(5,6) nth_eq_iff_index_eq [of "map fst (sent b)" i j] by simp
  moreover have "msgTo (snd (snd (sent b ! i))) = msgTo (snd (snd (sent b ! j))) \<longrightarrow>
      fst (sent b ! j) \<in> creating (m_executiveStates be)"
    using inv assms(5,6) by (auto simp: batch_inv_def sorted_wrt_iff_nth_less case_prod_beta)
  ultimately show ?thesis by (simp add: creating_def) (metis imageE)
qed

theorem batch_sends_each_contract_once_witness:
  "\<exists>b. sendBatch sample_env sample_executive sample_manager = (Inr (), b) \<and>
     (\<forall>j < length (sent b). \<forall>i < j. fst (sent b ! i) \<noteq> fst (sent b ! j))"
proof -
  obtain b where b: "sendBatch sample_env sample_executive sample_manager = (Inr (), b)"
    using sample.sendBatch_ok [OF sample_executive_inv sample_manager_ready] by blast
  from batch_sends_each_contract_once [OF sample.batch_environment_axioms sample_executive_inv
      sample_manager_ready b] b show ?thesis by blast
qed

end
