(* ===== verification/Block_Executive.thy ===== *)
theory Block_Executive
  imports Block_Batch Commit_Status
begin

text \<open>
  The execution of a whole block, \<^verbatim>\<open>BlockExecutive.cpp\<close>: \<open>asyncExecute\<close> turns the transactions into
  executive states, \<open>DAGExecute\<close> sends the parallel ones as one request per contract, \<open>DMTExecute\<close>
  runs batches until no state is left and computes the header, \<open>asyncNotify\<close> reports the
  receipts.

  What executors and framework answer is the record \<open>world\<close>; the answer to a request may depend
  on the number of the batch, so that a fixed \<open>world\<close> describes one run with arbitrary, stateful
  executors. Loops that wait for executors need not end: \<open>DMTExecute\<close> has fuel, one unit per batch,
  and is \<open>None\<close> if it runs out. An asynchronous function returns the list of the calls of its callback.
\<close>

subsection \<open>What the scheduler calls\<close>

type_synonym dag_request = "ExecutorPtr \<times> ContextID list \<times> ExecutionMessage option list"

record world =
  batchRespond :: "nat \<Rightarrow> ExecutorPtr \<Rightarrow> ExecutionMessage \<Rightarrow> response"
  arrival :: "nat \<Rightarrow> arrival_order"
  dagRespond :: "ExecutorPtr \<Rightarrow> ExecutionMessage option list \<Rightarrow> bool \<times> ExecutionMessage option list"
  dagArrival :: "dag_request list \<Rightarrow> dag_request list"
  nextBlockError :: "ExecutorPtr \<Rightarrow> bool"
  getHash :: "ExecutorPtr \<Rightarrow> h256 option"
  createExecutionMessage :: ExecutionMessage
  toHex :: "string \<Rightarrow> string"
  calculateTransactionRoot :: "Block \<Rightarrow> h256"
  calculateReceiptRoot :: "Block \<Rightarrow> h256"
  AUTH_COMMITTEE_ADDRESS :: string

type_synonym execute_callback = "SchedulerError option \<times> BlockHeader option"

definition new_executive :: "Block \<Rightarrow> int \<Rightarrow> bool \<Rightarrow> bool \<Rightarrow> BlockExecutive" where
  "new_executive block start staticCall syncBlock =
     \<lparr>m_executiveStates = [], m_executiveResults = [], m_gasUsed = 0, m_keyLocks = empty_locks,
      m_block = block, m_result = None, m_startContextID = start, m_staticCall = staticCall,
      m_syncBlock = syncBlock\<rparr>"

subsection \<open>Transactions to executive states\<close>

definition messageOfMeta ::
  "world \<Rightarrow> int \<Rightarrow> nat \<Rightarrow> TransactionMetaData \<Rightarrow> exn + ExecutionMessage"
where
  "messageOfMeta w start i metaData =
     (let msg = (createExecutionMessage w)
            \<lparr>msgContextID := int i + start, msgType := TXHASH, transactionHash := metaHash metaData\<rparr>;
          finish = (\<lambda>msg. msg\<lparr>msgDepth := 0, gasAvailable := uint TRANSACTION_GAS, msgStaticCall := False\<rparr>)
      in if LIQUID_SCALE_CODEC \<in> set (metaAttribute metaData) then
           Inr (finish
             ((if LIQUID_CREATE \<in> set (metaAttribute metaData) then msg\<lparr>msgCreate := True\<rparr> else msg)
                \<lparr>msgTo := metaTo metaData\<rparr>))
         else if metaTo metaData = '''' then Inr (finish (msg\<lparr>msgCreate := True\<rparr>))
         else map_sum id (\<lambda>to. finish (msg\<lparr>msgTo := to\<rparr>)) (preprocessAddress (metaTo metaData)))"

definition messageOfTransaction ::
  "world \<Rightarrow> bool \<Rightarrow> BlockExecutive \<Rightarrow> nat \<Rightarrow> Transaction \<Rightarrow> exn + ExecutionMessage"
where
  "messageOfTransaction w isAuthCheck be i tx =
     (let origin = toHex w (txSender tx);
          msg = (createExecutionMessage w)
            \<lparr>msgType := MESSAGE, msgContextID := int i + m_startContextID be,
             msgOrigin := origin, msgFrom := origin\<rparr>;
          finish = (\<lambda>msg. msg\<lparr>msgDepth := 0, gasAvailable := uint TRANSACTION_GAS,
                             msgData := txInput tx, msgStaticCall := m_staticCall be\<rparr>)
      in if LIQUID_SCALE_CODEC \<in> set (txAttribute tx) then
           Inr (finish
             ((if LIQUID_CREATE \<in> set (txAttribute tx) then msg\<lparr>msgCreate := True\<rparr> else msg)
                \<lparr>msgTo := txTo tx\<rparr>))
         else if txTo tx = '''' then Inr (finish (msg\<lparr>msgCreate := True\<rparr>))
         else
           (let msg = (if isAuthCheck \<and> \<not> m_staticCall be \<and> block_number be = 0 \<and>
                          txTo tx = AUTH_COMMITTEE_ADDRESS w
                       then msg\<lparr>msgCreate := True\<rparr> else msg)
            in map_sum id (\<lambda>to. finish (msg\<lparr>msgTo := to\<rparr>)) (preprocessAddress (txTo tx))))"

definition resize :: "nat \<Rightarrow> ExecutiveResult list \<Rightarrow> ExecutiveResult list" where
  "resize n rs = take n rs @ replicate (n - length rs) \<lparr>receipt = None, resultHash = 0, source = ''''\<rparr>"

text \<open>
  The loop over the transactions, from index \<open>i\<close> on; \<open>f\<close> gives the message, \<open>info\<close> the hash, the
  source and the DAG flag of a transaction. \<open>withDAG\<close> is carried from one to the next. \<open>f\<close> may throw;
  the loop over transactions has recorded hash and source by then (\<open>first\<close>), that over meta data has not.
\<close>

fun buildStates ::
  "bool \<Rightarrow> (nat \<Rightarrow> 't \<Rightarrow> exn + ExecutionMessage) \<Rightarrow> ('t \<Rightarrow> h256 \<times> string \<times> bool) \<Rightarrow> nat \<Rightarrow> 't list \<Rightarrow>
     bool \<Rightarrow> BlockExecutive \<Rightarrow> (exn + bool) \<times> BlockExecutive"
where
  "buildStates first f info i [] withDAG be = (Inr withDAG, be)"
| "buildStates first f info i (t # ts) withDAG be =
     (let (h, src, dag) = info t;
          results = (m_executiveResults be)
            [i := (m_executiveResults be ! i)\<lparr>resultHash := h, source := src\<rparr>]
      in case f i t of
           Inl e \<Rightarrow> (Inl e, if first then be\<lparr>m_executiveResults := results\<rparr> else be)
         | Inr msg \<Rightarrow>
             (let withDAG = (withDAG \<or> dag);
                  be = be\<lparr>m_executiveStates :=
                            map_emplace (msgTo msg, int i) (new_state (int i) msg withDAG) (m_executiveStates be),
                          m_executiveResults := results\<rparr>
              in buildStates first f info (Suc i) ts withDAG be))"

definition buildExecutives :: "world \<Rightarrow> bool \<Rightarrow> BlockExecutive \<Rightarrow> (exn + bool) \<times> BlockExecutive" where
  "buildExecutives w isAuthCheck be =
     (let metas = transactionsMetaData (m_block be); txs = transactions (m_block be) in
      if metas \<noteq> [] then
        buildStates False (messageOfMeta w (m_startContextID be))
          (\<lambda>md. (metaHash md, metaSource md, DAG \<in> set (metaAttribute md))) 0 metas False
          (be\<lparr>m_executiveResults := resize (length metas) (m_executiveResults be)\<rparr>)
      else if txs \<noteq> [] then
        buildStates True (messageOfTransaction w isAuthCheck be)
          (\<lambda>tx. (txHash tx, txSource tx, DAG \<in> set (txAttribute tx))) 0 txs False
          (be\<lparr>m_executiveResults := resize (length txs) (m_executiveResults be)\<rparr>)
      else (Inr False, be))"

subsection \<open>Parallel execution of independent transactions\<close>

text \<open>
  The requests of \<open>DAGExecute\<close>: the flagged states, grouped by the contract of their key, in key
  order. The states push a call and give their message away.
\<close>

definition dagContracts :: "executive_states \<Rightarrow> string list" where
  "dagContracts ms = remdups_adj (map (\<lambda>((c, _), _). c) (filter (\<lambda>(_, st). enableDAG st) ms))"

definition dagGroup :: "string \<Rightarrow> executive_states \<Rightarrow> (ContextID \<times> ExecutionMessage option) list" where
  "dagGroup contract ms =
     map (\<lambda>(_, st). (contextID st, message st))
       (filter (\<lambda>((c, _), st). enableDAG st \<and> c = contract) ms)"

definition dagPush :: "string \<Rightarrow> executive_states \<Rightarrow> executive_states" where
  "dagPush contract ms =
     map (\<lambda>((c, i), st).
            ((c, i),
             if enableDAG st \<and> c = contract
             then st\<lparr>callStack := currentSeq st # callStack st, currentSeq := currentSeq st + 1, message := None\<rparr>
             else st)) ms"

fun dagSend ::
  "environment \<Rightarrow> string list \<Rightarrow> executive_states \<Rightarrow> ExecutorManager \<Rightarrow>
     (exn + dag_request list) \<times> executive_states \<times> ExecutorManager"
where
  "dagSend env [] ms m = (Inr [], ms, m)"
| "dagSend env (contract # rest) ms m =
     (case dispatchExecutor (pq_top env) contract m of
        (Inl e, m') \<Rightarrow> (Inl e, ms, m')
      | (Inr None, m') \<Rightarrow> (Inl NullDereference, ms, m')
      | (Inr (Some ex), m') \<Rightarrow>
          (let group = dagGroup contract ms in
           case dagSend env rest (dagPush contract ms) m' of
             (Inl e, ms', m'') \<Rightarrow> (Inl e, ms', m'')
           | (Inr groups, ms', m'') \<Rightarrow>
               (Inr ((ex, map fst group, map snd group) # groups), ms', m'')))"

text \<open>The answer of one executor; \<open>totalCount\<close> is a \<open>size_t\<close> and wraps.\<close>

record dag_status =
  dag_states :: executive_states
  totalCount :: "64 word"
  dagFailed :: nat
  dagCalls :: "SchedulerError option list"

definition setMessage :: "ContextID \<times> ExecutionMessage option \<Rightarrow> executive_states \<Rightarrow> executive_states" where
  "setMessage = (\<lambda>(ctx, msg) ms.
     map (\<lambda>(k, st). (k, if contextID st = ctx then st\<lparr>message := msg\<rparr> else st)) ms)"

definition dagCallback ::
  "bool \<times> ExecutionMessage option list \<Rightarrow> ContextID list \<Rightarrow> dag_status \<Rightarrow> dag_status"
where
  "dagCallback answer ctxs d =
     (let (err, responseMessages) = answer;
          d = d\<lparr>totalCount := totalCount d - of_nat (length responseMessages)\<rparr>;
          d = (if err \<or> length ctxs \<noteq> length responseMessages
               then d\<lparr>dagFailed := dagFailed d + 1\<rparr>
               else d\<lparr>dag_states := fold setMessage (zip ctxs responseMessages) (dag_states d)\<rparr>)
      in if totalCount d = 0
         then d\<lparr>dagCalls := dagCalls d @ [if dagFailed d > 0 then Some DAGError else None]\<rparr>
         else d)"

definition DAGExecute ::
  "environment \<Rightarrow> world \<Rightarrow> BlockExecutive \<Rightarrow> ExecutorManager \<Rightarrow>
     (exn + SchedulerError option list) \<times> BlockExecutive \<times> ExecutorManager"
where
  "DAGExecute env w be m =
     (let ms = m_executiveStates be;
          requests = filter (\<lambda>(_, st). enableDAG st) ms;
          early = (if requests = [] then [None] else [])
      in case dagSend env (dagContracts ms) ms m of
           (Inl e, ms', m') \<Rightarrow> (Inl e, be\<lparr>m_executiveStates := ms'\<rparr>, m')
         | (Inr groups, ms', m') \<Rightarrow>
             (let d = fold (\<lambda>(ex, ctxs, msgs). dagCallback (dagRespond w ex msgs) ctxs)
                        (dagArrival w groups)
                        \<lparr>dag_states = ms', totalCount = of_nat (length requests), dagFailed = 0, dagCalls = []\<rparr>
              in (Inr (early @ dagCalls d), be\<lparr>m_executiveStates := dag_states d\<rparr>, m')))"

subsection \<open>Batches until the end\<close>

text \<open>The end of \<open>DMTExecute\<close>, when no state is left.\<close>

definition finishExecute ::
  "world \<Rightarrow> BlockExecutive \<Rightarrow> ExecutorManager \<Rightarrow> execute_callback list \<times> BlockExecutive"
where
  "finishExecute w be m =
     (let block = m_block be;
          block' = block\<lparr>receipts := receipts block @ map receipt (m_executiveResults be)\<rparr>
      in if m_staticCall be then ([(None, None)], be\<lparr>m_block := block'\<rparr>)
         else case batchGetHashes (manager_size m) (map (getHash w) (executorView m)) of
                [] \<Rightarrow> ([], be)
              | Inl _ # _ \<Rightarrow> ([(Some UnknownError, None)], be)
              | Inr h # _ \<Rightarrow>
                  (let header = (blockHeader block')
                         \<lparr>stateRoot := h, gasUsed := m_gasUsed be,
                          txsRoot := calculateTransactionRoot w block',
                          receiptsRoot := calculateReceiptRoot w block'\<rparr>
                   in ([(None, Some header)], be\<lparr>m_block := block', m_result := Some header\<rparr>)))"

fun DMTExecute ::
  "environment \<Rightarrow> world \<Rightarrow> nat \<Rightarrow> nat \<Rightarrow> BlockExecutive \<Rightarrow> ExecutorManager \<Rightarrow>
     ((exn + execute_callback list) \<times> BlockExecutive \<times> ExecutorManager) option"
where
  "DMTExecute env w 0 n be m = None"
| "DMTExecute env w (Suc fuel) n be m =
     (case startBatch env (batchRespond w n) (arrival w n) be m of
        ([], be', m') \<Rightarrow> Some (Inr [], be', m')
      | (Inl e # _, be', m') \<Rightarrow> Some (Inl e, be', m')
      | (Inr (Some _) # _, be', m') \<Rightarrow> Some (Inr [(Some DMTError, None)], be', m')
      | (Inr None # _, be', m') \<Rightarrow>
          if m_executiveStates be' \<noteq> [] then DMTExecute env w fuel (Suc n) be' m'
          else (case finishExecute w be' m' of (cs, be'') \<Rightarrow> Some (Inr cs, be'', m')))"

subsection \<open>The entry point\<close>

text \<open>
  A callback of \<open>batchNextBlock\<close> or \<open>DAGExecute\<close> is called at most once when handlers do not
  overlap; the first call decides how to go on, no call means that nothing further happens.
\<close>

definition asyncExecute ::
  "environment \<Rightarrow> world \<Rightarrow> bool \<Rightarrow> nat \<Rightarrow> BlockExecutive \<Rightarrow> ExecutorManager \<Rightarrow>
     ((exn + execute_callback list) \<times> BlockExecutive \<times> ExecutorManager) option"
where
  "asyncExecute env w isAuthCheck fuel be m =
     (if m_result be \<noteq> None then Some (Inr [(Some InvalidStatus, None)], be, m)
      else case buildExecutives w isAuthCheck be of
             (Inl e, be) \<Rightarrow> Some (Inl e, be, m)
           | (Inr withDAG, be) \<Rightarrow>
               if m_staticCall be then DMTExecute env w fuel 0 be m
               else (case batchNextBlock (manager_size m) (map (nextBlockError w) (executorView m)) of
                       [] \<Rightarrow> Some (Inr [], be, m)
                     | Some _ # _ \<Rightarrow> Some (Inr [(Some NextBlockError, None)], be, m)
                     | None # _ \<Rightarrow>
                         if withDAG then
                           (case DAGExecute env w be m of
                              (Inl e, be, m) \<Rightarrow> Some (Inl e, be, m)
                            | (Inr [], be, m) \<Rightarrow> Some (Inr [], be, m)
                            | (Inr (Some _ # _), be, m) \<Rightarrow> Some (Inr [(Some DAGError, None)], be, m)
                            | (Inr (None # _), be, m) \<Rightarrow> DMTExecute env w fuel 0 be m)
                         else DMTExecute env w fuel 0 be m))"

subsection \<open>Notification\<close>

record TransactionSubmitResult =
  transactionIndex :: nat
  submitTxHash :: h256
  submitBlockHash :: h256
  submitStatus :: int
  transactionReceipt :: TransactionReceipt
  submitNonce :: "int option"

text \<open>The results handed to the notifier; a missing receipt or transaction is a null pointer.\<close>

fun notifyResults ::
  "h256 \<Rightarrow> bool \<Rightarrow> Transaction list \<Rightarrow> nat \<Rightarrow> ExecutiveResult list \<Rightarrow> exn + TransactionSubmitResult list"
where
  "notifyResults blockHash sync txs index [] = Inr []"
| "notifyResults blockHash sync txs index (r # rs) =
     (case receipt r of
        None \<Rightarrow> Inl NullDereference
      | Some rc \<Rightarrow>
          if sync \<and> index \<ge> length txs then Inl NullDereference
          else map_sum id
                 ((#) \<lparr>transactionIndex = index, submitTxHash = resultHash r, submitBlockHash = blockHash,
                       submitStatus = receiptStatus rc, transactionReceipt = rc,
                       submitNonce = (if sync then Some (txNonce (txs ! index)) else None)\<rparr>)
                 (notifyResults blockHash sync txs (Suc index) rs))"

text \<open>What the notifier is called with, if there is one; without a notifier nothing happens at all.\<close>

definition asyncNotify ::
  "bool \<Rightarrow> (BlockHeader \<Rightarrow> h256) \<Rightarrow> BlockExecutive \<Rightarrow> exn + (int \<times> TransactionSubmitResult list) option"
where
  "asyncNotify notifier headerHash be =
     (if \<not> notifier then Inr None
      else map_sum id (\<lambda>rs. Some (block_number be, rs))
             (notifyResults (headerHash (blockHeader (m_block be))) (m_syncBlock be) (transactions (m_block be)) 0
                (m_executiveResults be)))"

subsection \<open>Runs of \<open>DMTExecute\<close>\<close>

definition permuting :: "world \<Rightarrow> bool" where
  "permuting w \<longleftrightarrow> (\<forall>n xs. mset (arrival w n xs) = mset xs)"

lemma manager_size_ready: "manager_ready m \<Longrightarrow> 0 < manager_size m"
  by (simp add: manager_ready_def manager_size_def)

lemma length_executorView [simp]: "length (executorView m) = manager_size m"
  by (simp add: executorView_def manager_size_def)

text \<open>What a successful execution of a block leaves behind.\<close>

definition executed :: "world \<Rightarrow> BlockExecutive \<Rightarrow> ExecutorManager \<Rightarrow> BlockExecutive \<Rightarrow> BlockHeader \<Rightarrow> bool" where
  "executed w be m be' header \<longleftrightarrow>
     m_executiveStates be' = [] \<and> m_result be' = Some header \<and>
     m_syncBlock be' = m_syncBlock be \<and>
     m_block be' = (m_block be)\<lparr>receipts := receipts (m_block be) @ map receipt (m_executiveResults be')\<rparr> \<and>
     map (\<lambda>r. (resultHash r, source r)) (m_executiveResults be') =
       map (\<lambda>r. (resultHash r, source r)) (m_executiveResults be) \<and>
     (\<forall>r \<in> set (m_executiveResults be'). receipt r \<noteq> None) \<and>
     number header = block_number be \<and>
     gasUsed header = sum_list (map gas_of (m_executiveResults be')) \<and>
     None \<notin> set (map (getHash w) (executorView m)) \<and>
     stateRoot header = foldr (XOR) (map (the \<circ> getHash w) (executorView m)) 0"

text \<open>What a successful read-only call leaves behind.\<close>

definition answered_call :: "BlockExecutive \<Rightarrow> BlockExecutive \<Rightarrow> bool" where
  "answered_call be be' \<longleftrightarrow>
     m_executiveStates be' = [] \<and>
     map (\<lambda>r. (resultHash r, source r)) (m_executiveResults be') =
       map (\<lambda>r. (resultHash r, source r)) (m_executiveResults be) \<and>
     (\<forall>r \<in> set (m_executiveResults be'). receipt r \<noteq> None) \<and>
     receipts (m_block be') = receipts (m_block be) @ map receipt (m_executiveResults be')"

lemma finished_books:
  assumes "executive_inv be" and "m_executiveStates be = []"
  shows "\<forall>r \<in> set (m_executiveResults be). receipt r \<noteq> None"
    and "m_gasUsed be = sum_list (map gas_of (m_executiveResults be))"
  using assms by (auto simp: executive_inv_def book_inv_def in_set_conv_nth)

lemma hashes_once:
  assumes "manager_ready m"
  shows "batchGetHashes (manager_size m) (map (getHash w) (executorView m)) =
    [if None \<in> set (map (getHash w) (executorView m)) then Inl CommitError
     else Inr (foldr (XOR) (map (the \<circ> getHash w) (executorView m)) 0)]"
  using batchGetHashes_perm [of "map (getHash w) (executorView m)" "manager_size m", OF _ _ refl] manager_size_ready [OF assms]
  by (simp add: comp_def)

lemma finishExecute_result:
  assumes "executive_inv be" and "m_executiveStates be = []" and "manager_ready m"
  shows "case finishExecute w be m of
      (cs, be') \<Rightarrow>
        if m_staticCall be then cs = [(None, None)] \<and> answered_call be be'
        else cs = [(Some UnknownError, None)] \<and> (\<exists>ex. getHash w ex = None) \<and> be' = be \<or> (\<exists>header. cs = [(None, Some header)] \<and> executed w be m be' header)"
proof -
  have "\<exists>ex. getHash w ex = None" if "None \<in> set (map (getHash w) (executorView m))"
    using that unfolding set_map by (metis imageE)
  with finished_books [OF assms(1,2)] assms(2) hashes_once [OF assms(3), of w] show ?thesis
    by (simp add: finishExecute_def Let_def executed_def answered_call_def)
qed

lemma frameD:
  assumes "frame be' = frame be"
  shows "m_block be' = m_block be" "m_result be' = m_result be" "m_staticCall be' = m_staticCall be"
    "m_syncBlock be' = m_syncBlock be"
    "map (\<lambda>r. (resultHash r, source r)) (m_executiveResults be') =
       map (\<lambda>r. (resultHash r, source r)) (m_executiveResults be)"
  using assms by (simp_all add: frame_def)

lemma executed_frame:
  assumes "frame be' = frame be"
  shows "executed w be' m be'' header = executed w be m be'' header"
  unfolding executed_def frameD [OF assms] ..

lemma answered_call_frame:
  assumes "frame be' = frame be"
  shows "answered_call be' be'' = answered_call be be''"
  unfolding answered_call_def frameD [OF assms] ..

text \<open>The outcome of a run that ends, for a block or for a call.\<close>

definition execute_outcome ::
  "world \<Rightarrow> BlockExecutive \<Rightarrow> (exn + execute_callback list) \<times> BlockExecutive \<times> ExecutorManager \<Rightarrow> bool"
where
  "execute_outcome w be r \<longleftrightarrow>
     (case r of
        (Inl e, be', m') \<Rightarrow> manager_ready m' \<and> frame be' = frame be \<and> e = Throw UnexpectedKeyLockError
      | (Inr cs, be', m') \<Rightarrow> manager_ready m' \<and>
          (frame be' = frame be \<and> cs = [(Some DMTError, None)] \<or>
           (if m_staticCall be then cs = [(None, None)] \<and> answered_call be be'
            else frame be' = frame be \<and> cs = [(Some UnknownError, None)] \<and> (\<exists>ex. getHash w ex = None) \<or>
                 (\<exists>header. cs = [(None, Some header)] \<and> executed w be m' be' header))))"

lemma execute_outcome_frame:
  assumes "frame be' = frame be"
  shows "execute_outcome w be' r = execute_outcome w be r"
  unfolding execute_outcome_def executed_frame [OF assms] answered_call_frame [OF assms] frameD(3) [OF assms] assms ..

context batch_environment
begin

lemma DMTExecute_outcome:
  assumes "permuting w"
  shows "executive_inv be \<Longrightarrow> manager_ready m \<Longrightarrow>
    DMTExecute env w fuel n be m = Some r \<Longrightarrow> execute_outcome w be r"
proof (induction fuel arbitrary: n be m)
  case (Suc fuel)
  have perm: "\<And>xs. mset (arrival w n xs) = mset xs" using assms by (simp add: permuting_def)
  obtain c be' m' where run: "startBatch env (batchRespond w n) (arrival w n) be m = ([c], be', m')"
    using startBatch_ok [OF Suc.prems(1,2) perm, of "batchRespond w n"] by blast
  note inv = startBatch_run [OF batch_environment_axioms Suc.prems(1,2) perm run]
  show ?case
  proof (cases "c = Inr None \<and> m_executiveStates be' \<noteq> []")
    case True
    then have "executive_inv be'" "manager_ready m'" and fr: "frame be' = frame be"
      using inv by simp_all
    moreover have "DMTExecute env w fuel (Suc n) be' m' = Some r"
      using Suc.prems(3) run True by simp
    ultimately have "execute_outcome w be' r" by (intro Suc.IH)
    then show ?thesis by (simp only: execute_outcome_frame [OF fr])
  next
    case False
    show ?thesis
    proof (cases c)
      case (Inl e)
      with inv Suc.prems(3) run show ?thesis by (auto simp: execute_outcome_def)
    next
      case (Inr o')
      show ?thesis
      proof (cases o')
        case (Some e)
        with Inr inv Suc.prems(3) run show ?thesis by (auto simp: execute_outcome_def)
      next
        case None
        then have "executive_inv be'" "m_executiveStates be' = []" "manager_ready m'"
          and fr: "frame be' = frame be"
          using inv False Inr by auto
        from finishExecute_result [OF this(1-3), of w] fr show ?thesis
          using Suc.prems(3) run Inr None False executed_frame [OF fr] answered_call_frame [OF fr]
            frameD(3) [OF fr] \<open>manager_ready m'\<close>
          by (auto simp: execute_outcome_def split: prod.splits if_splits)
      qed
    qed
  qed
qed simp

end

end
