(* ===== verification/Execution_Progress.thy ===== *)
theory Execution_Progress
  imports Block_Executive
begin

text \<open>
  Termination of \<open>DMTExecute\<close>. Executors decide how long a block runs: they may call other
  contracts or wait for keys for ever. This theory bounds the number of batches for executors
  that answer every request with \<open>FINISHED\<close> or \<open>REVERT\<close>: each batch lowers the number of visits
  that the unfinished states still need.
\<close>

subsection \<open>The measure\<close>

text \<open>States that neither wait for a key nor were sent back.\<close>

definition plain_state :: "ExecutiveState \<Rightarrow> bool" where
  "plain_state st \<longleftrightarrow>
     (\<exists>msg. message st = Some msg \<and> msgType msg \<in> {MESSAGE, TXHASH, FINISHED, REVERT} \<and>
        (msgType msg = MESSAGE \<longrightarrow> keyLocks msg = []))"

text \<open>The visits a state needs: one per frame of its call stack, two more for a request.\<close>

definition weight :: "ExecutiveState \<Rightarrow> nat" where
  "weight st =
     (case message st of
        None \<Rightarrow> length (callStack st)
      | Some msg \<Rightarrow>
          if msgType msg \<in> {MESSAGE, TXHASH} then length (callStack st) + 2 else length (callStack st))"

definition total_weight :: "executive_states \<Rightarrow> nat" where
  "total_weight ms = sum_list (map (\<lambda>(_, st). weight st) ms)"

definition weight_at :: "executive_states \<Rightarrow> ContextID \<Rightarrow> nat" where
  "weight_at ms c = (case map_of (map (\<lambda>(_, st). (contextID st, weight st)) ms) c of None \<Rightarrow> 0 | Some n \<Rightarrow> n)"

lemma weight_at_node:
  assumes "distinct (ids ms)" and "st \<in> snd ` set ms"
  shows "weight_at ms (contextID st) = weight st"
proof -
  let ?xs = "map (\<lambda>(_, st). (contextID st, weight st)) ms"
  have "distinct (map fst ?xs)" using assms(1) by (simp add: ids_def comp_def case_prod_unfold)
  moreover have "(contextID st, weight st) \<in> set ?xs" using assms(2) by force
  ultimately have "map_of ?xs (contextID st) = Some (weight st)" by simp
  then show ?thesis by (simp add: weight_at_def)
qed

lemma total_weight_le:
  assumes "distinct (ids ms)" and "\<And>st. st \<in> snd ` set ms \<Longrightarrow> weight st \<le> f (contextID st)"
  shows "total_weight ms \<le> sum f (set (ids ms))"
  using assms
proof (induction ms)
  case (Cons x ms)
  obtain k st where x: "x = (k, st)" by (cases x)
  have "total_weight ms \<le> sum f (set (ids ms))"
    by (rule Cons.IH) (use Cons.prems in \<open>auto simp: x\<close>)
  moreover have "weight st \<le> f (contextID st)" using Cons.prems(2) by (simp add: x)
  ultimately show ?case using Cons.prems(1) by (simp add: x total_weight_def)
qed (simp add: total_weight_def)

lemma total_weight_ge:
  assumes "distinct (ids ms)" and "A \<subseteq> set (ids ms)"
  shows "sum (weight_at ms) A \<le> total_weight ms"
proof -
  have "sum (weight_at ms) A \<le> sum (weight_at ms) (set (ids ms))"
    by (rule sum_mono2) (use assms(2) in auto)
  also have "\<dots> = sum_list (map (weight_at ms) (ids ms))"
    using assms(1) by (simp add: sum_list_distinct_conv_sum_set)
  also have "map (weight_at ms) (ids ms) = map (\<lambda>(_, st). weight st) ms"
    using weight_at_node [OF assms(1)] by (force simp: ids_def)
  finally show ?thesis by (simp add: total_weight_def)
qed

subsection \<open>Progress of the sending phase\<close>

lemma switchMessage_plain:
  assumes "switchMessage env msg st be = (Inr f, s, be')" and "message st = Some msg"
    and "msgType msg \<in> {MESSAGE, TXHASH, FINISHED, REVERT}"
  shows "f = Return DELETE \<or> (\<exists>msg'. f = Fall msg') \<and> length (callStack s) < weight st"
proof -
  have request: ?thesis
    if "requestMessage env msg st be = (Inr f, s, be')" "msgType msg \<in> {MESSAGE, TXHASH}"
    using that assms(2) by (auto simp: requestMessage_def weight_def Let_def split: sum.splits)
  have return: ?thesis
    if "returnMessage msg st be = (Inr f, s, be')" "msgType msg \<notin> {MESSAGE, TXHASH}"
    using that assms(2) by (auto simp: returnMessage_def weight_def Let_def split: list.splits sum.splits)
  show ?thesis
    using assms(1,3) request return by (cases "msgType msg") (simp_all add: switchMessage_def Let_def)
qed

lemma visit_progress:
  assumes run: "startBatch_visit env st b = (Inr h, st', b')" and err: "\<not> error st" and "plain_state st"
  shows "h = DELETE \<or> h = SKIP \<and> st' = st\<lparr>skip := True\<rparr> \<and> b' = b \<or>
    h = PASS \<and> message st' = None \<and> weight st' < weight st"
proof -
  obtain msg where msg: "message st = Some msg" and t: "msgType msg \<in> {MESSAGE, TXHASH, FINISHED, REVERT}"
    using assms(3) by (auto simp: plain_state_def)
  have send: "h = PASS \<and> message st' = None \<and> callStack st' = callStack s"
    if "sendMessage env msg' s c = (Inr h, st', b')" for msg' s c
    using that by (auto simp: sendMessage_def Let_def split: prod.splits sum.splits option.splits)
  obtain f s be where sw: "switchMessage env msg st (executive b) = (f, s, be)" by (metis prod_cases3)
  show ?thesis
  proof (cases "msgTo msg \<noteq> '''' \<and> msgTo msg \<in> set (calledContract b)")
    case True
    with run err msg show ?thesis by (simp add: startBatch_visit_def)
  next
    case False
    with run err msg sw obtain g where g: "f = Inr g"
      by (cases f) (auto simp: startBatch_visit_def split: if_splits)
    note plain = switchMessage_plain [OF sw [unfolded g] msg t]
    show ?thesis
    proof (cases g)
      case (Return h')
      with plain run err msg sw g False show ?thesis by (auto simp: startBatch_visit_def)
    next
      case (Fall msg')
      with run err msg sw g False have "sendMessage env msg' s (b\<lparr>executive := be\<rparr>) = (Inr h, st', b')"
        by (auto simp: startBatch_visit_def)
      with send plain Fall show ?thesis by (auto simp: weight_def)
    qed
  qed
qed

definition light :: "(ContextID \<Rightarrow> nat) \<Rightarrow> ExecutiveState \<Rightarrow> bool" where
  "light w0 st \<longleftrightarrow>
     (if message st = None then weight st < w0 (contextID st)
      else plain_state st \<and> weight st \<le> w0 (contextID st))"

lemma stable_and:
  "stable P c s s' \<Longrightarrow> stable (\<lambda>s st. P s st \<and> R st) c s s'"
  by (simp add: stable_def)

context batch_environment
begin

lemma visit_light:
  assumes "to_visit Cr b st \<and> plain_state st \<and> weight st \<le> w0 (contextID st)"
    and "contextID st \<in> A" and "batch_inv Cr A b"
  shows "case startBatch_visit env st b of
      (Inl e, _, _) \<Rightarrow> False
    | (Inr h, st', b') \<Rightarrow>
        (if h = DELETE then batch_inv Cr (A - {contextID st}) b'
         else (visited b' st' \<and> light w0 st') \<and> batch_inv Cr A b') \<and>
        stable (\<lambda>b st. to_visit Cr b st \<and> plain_state st \<and> weight st \<le> w0 (contextID st)) (contextID st) b b' \<and>
        stable (\<lambda>b st. visited b st \<and> light w0 st) (contextID st) b b' \<and>
        (h = SKIP \<or> h = END \<longrightarrow>
          (\<forall>x. to_visit Cr b' x \<and> plain_state x \<and> weight x \<le> w0 (contextID x) \<longrightarrow> visited b' x \<and> light w0 x))"
proof -
  have visit: "to_visit Cr b st" and plain: "plain_state st" and w: "weight st \<le> w0 (contextID st)"
    using assms(1) by auto
  then have err: "\<not> error st" by (simp add: to_visit_def state_ready_def)
  obtain r st' b' where run: "startBatch_visit env st b = (r, st', b')" by (metis prod_cases3)
  note ok = startBatch_visit_ok [OF visit assms(2,3), unfolded run]
  then obtain h where h: "r = Inr h" by (cases r) auto
  have c: "contextID st' = contextID st" using start.visit_context [OF run] .
  have "h \<noteq> DELETE \<Longrightarrow> light w0 st'"
    using visit_progress [OF run [unfolded h] err plain] plain w c
    by (auto simp: light_def plain_state_def weight_def)
  moreover have "light w0 x" if "plain_state x" "weight x \<le> w0 (contextID x)" for x
    using that by (auto simp: light_def plain_state_def)
  ultimately show ?thesis
    using ok by (simp add: run h stable_and)
qed

lemma sendBatch_progress:
  assumes inv: "executive_inv be" "manager_ready m"
    and plain: "\<forall>st \<in> snd ` set (m_executiveStates be). plain_state st"
    and send: "sendBatch env be m = (Inr (), b)"
    and st: "st \<in> snd ` set (m_executiveStates (executive b))"
  shows "light (weight_at (m_executiveStates be)) st"
proof -
  let ?ms = "m_executiveStates be"
  let ?Cr = "creating ?ms" and ?w = "weight_at ?ms"
  let ?P = "\<lambda>b st. to_visit ?Cr b st \<and> plain_state st \<and> weight st \<le> ?w (contextID st)"
  have dist: "distinct (ids ?ms)" using inv(1) by (simp add: executive_inv_def states_inv_def)
  have "case traverseExecutive (startBatch_visit env) ?ms (new_batch be m) of
      (Inl e, _, _) \<Rightarrow> False
    | (Inr _, ms', b) \<Rightarrow> states_inv ms' \<and> (\<forall>st \<in> snd ` set ms'. visited b st \<and> light ?w st) \<and>
        batch_inv ?Cr (set (ids ms')) b"
  proof (rule start.traverse_rule [where P = ?P])
    show "states_inv ?ms" using inv(1) by (simp add: executive_inv_def)
    show "batch_inv ?Cr (set (ids ?ms)) (new_batch be m)"
      using inv by (simp add: batch_inv_def new_batch_def executive_inv_def manager_ready_def)
    have "to_visit ?Cr (new_batch be m) st" if "st \<in> snd ` set ?ms" for st
      using that inv(1) by (auto simp: executive_inv_def to_visit_def new_batch_def creating_def)
    then show "\<forall>st \<in> snd ` set ?ms. ?P (new_batch be m) st"
      using plain weight_at_node [OF dist] by simp
  qed (rule visit_light)
  then show ?thesis
    using send st by (auto simp: sendBatch_def split: prod.splits sum.splits)
qed

end

subsection \<open>Progress of the check\<close>

definition final_answer :: "response \<Rightarrow> bool" where
  "final_answer r \<longleftrightarrow> (\<exists>msg. r = Response msg \<and> msgType msg \<in> {FINISHED, REVERT})"

lemma answer_node_light:
  assumes "light w0 st" and "visited b st" and "\<And>ex msg. final_answer (respond ex msg)"
    and "distinct (map fst (sent b))"
  defines "st' \<equiv> answer_node respond (sent b) st"
  shows "plain_state st'"
    and "weight st' \<le> (if contextID st \<in> fst ` set (sent b) then w0 (contextID st) - 1 else w0 (contextID st))"
    and "contextID st \<in> fst ` set (sent b) \<Longrightarrow> 0 < w0 (contextID st)"
proof -
  have "plain_state st' \<and> weight st' \<le> (if contextID st \<in> fst ` set (sent b) then w0 (contextID st) - 1
      else w0 (contextID st)) \<and> (contextID st \<in> fst ` set (sent b) \<longrightarrow> 0 < w0 (contextID st))"
  proof (cases "map_of (sent b) (contextID st)")
    case None
    then have "contextID st \<notin> fst ` set (sent b)" by (simp add: map_of_eq_None_iff)
    with assms(1,2) None show ?thesis
      by (auto simp: st'_def answer_node_def light_def visited_def state_ready_def)
  next
    case (Some x)
    obtain ex msg where x: "x = (ex, msg)" by (cases x)
    from Some have "contextID st \<in> fst ` set (sent b)" by (force dest: map_of_SomeD)
    moreover obtain msg' where "respond ex msg = Response msg'" "msgType msg' \<in> {FINISHED, REVERT}"
      using assms(3) [of ex msg] by (auto simp: final_answer_def)
    ultimately show ?thesis
      using assms(1,2)
      by (auto simp: st'_def answer_node_def Some x executeCallback_def light_def visited_def
          state_waiting_def plain_state_def weight_def)
  qed
  then show "plain_state st'"
    "weight st' \<le> (if contextID st \<in> fst ` set (sent b) then w0 (contextID st) - 1 else w0 (contextID st))"
    "contextID st \<in> fst ` set (sent b) \<Longrightarrow> 0 < w0 (contextID st)" by auto
qed

lemma keyLock_traversal_light:
  assumes "states_inv ms" and "\<forall>st \<in> snd ` set ms. plain_state st \<and> weight st \<le> f (contextID st)"
  shows "case traverseExecutive keyLock_visit ms g of
      (Inl e, _, _) \<Rightarrow> False
    | (Inr _, ms', g') \<Rightarrow> states_inv ms' \<and>
        (\<forall>st \<in> snd ` set ms'. plain_state st \<and> weight st \<le> f (contextID st)) \<and> set (ids ms') = set (ids ms)"
proof (rule key_lock.traverse_rule [OF assms(1), where P = "\<lambda>_ st. plain_state st \<and> weight st \<le> f (contextID st)"])
  fix st s A
  assume "plain_state st \<and> weight st \<le> f (contextID st)" and "A = set (ids ms)"
  then show "case keyLock_visit st s of
      (Inl e, _, _) \<Rightarrow> False
    | (Inr h, st', s') \<Rightarrow>
        (if h = DELETE then A - {contextID st} = set (ids ms)
         else (plain_state st' \<and> weight st' \<le> f (contextID st')) \<and> A = set (ids ms)) \<and>
        stable (\<lambda>_ st. plain_state st \<and> weight st \<le> f (contextID st)) (contextID st) s s' \<and>
        stable (\<lambda>_ st. plain_state st \<and> weight st \<le> f (contextID st)) (contextID st) s s' \<and>
        (h = SKIP \<or> h = END \<longrightarrow> (\<forall>x. plain_state x \<and> weight x \<le> f (contextID x) \<longrightarrow>
           plain_state x \<and> weight x \<le> f (contextID x)))"
    by (auto simp: keyLock_visit_def plain_state_def weight_def stable_def Let_def)
qed (use assms in auto)

subsection \<open>Progress of a batch\<close>

lemma ball_image: "\<forall>x \<in> A. P (f x) \<Longrightarrow> \<forall>y \<in> f ` A. P y"
  by blast

context batch_environment
begin

lemma checkBatch_progress:
  assumes inv: "executive_inv be" "manager_ready m"
    and plain: "\<forall>st \<in> snd ` set (m_executiveStates be). plain_state st"
    and final: "\<And>ex msg. final_answer (respond ex msg)"
    and send: "sendBatch env be m = (Inr (), b)"
    and check: "checkBatch (fold (deliver_to respond) (sent b) b) = (Some r, b')"
  shows "r = Inr None \<and>
    (let ms' = m_executiveStates (executive b') in
     ms' = [] \<or>
     (\<forall>st \<in> snd ` set ms'. plain_state st) \<and> total_weight ms' < total_weight (m_executiveStates be))"
proof -
  let ?old = "m_executiveStates be" and ?before = "weight_at (m_executiveStates be)"
  let ?ms = "map (\<lambda>(k, st). (k, answer_node respond (sent b) st)) (m_executiveStates (executive b))"
  let ?w = "\<lambda>c. if c \<in> fst ` set (sent b) then ?before c - 1 else ?before c"
  have vis: "all_visited b" "allSended b"
    and b: "batch_inv (creating ?old) (set (ids (m_executiveStates (executive b)))) b"
    using sendBatch_ok [OF inv] send by auto
  have cnt: "b_received b = 0" "b_total b = length (sent b)" "\<not> callbackExecuted b" "b_error b = 0"
    "distinct (map fst (sent b))" "fst ` set (sent b) \<subseteq> set (ids (m_executiveStates (executive b)))"
    using b by (simp_all add: batch_inv_def)
  have light: "light ?before st" "visited b st" if "st \<in> snd ` set (m_executiveStates (executive b))" for st
    using sendBatch_progress [OF inv plain send that] vis(1) that by (auto simp: all_visited_def)
  have node: "plain_state (answer_node respond (sent b) st)"
    "weight (answer_node respond (sent b) st) \<le> ?w (contextID st)"
    "contextID st \<in> fst ` set (sent b) \<Longrightarrow> 0 < ?before (contextID st)"
    if "st \<in> snd ` set (m_executiveStates (executive b))" for st
    by (rule answer_node_light [where respond = respond, OF light [OF that] final cnt(5)];
        assumption?)+
  have img: "snd ` set ?ms = answer_node respond (sent b) ` snd ` set (m_executiveStates (executive b))"
    by force
  have at: "\<forall>st \<in> snd ` set (m_executiveStates (executive b)).
      plain_state (answer_node respond (sent b) st) \<and>
      weight (answer_node respond (sent b) st) \<le> ?w (contextID (answer_node respond (sent b) st))"
    unfolding answer_node_context using node(1,2) by blast
  have nodes: "\<forall>st \<in> snd ` set ?ms. plain_state st \<and> weight st \<le> ?w (contextID st)"
    unfolding img using at by (rule ball_image)
  have pos: "0 < ?before c" if "c \<in> fst ` set (sent b)" for c
    using that cnt(6) node(3) by (force simp: set_ids_snd)
  have be: "executive (fold (deliver_to respond) (sent b) b) = (executive b)\<lparr>m_executiveStates := ?ms\<rparr>"
    by (rule deliveries_states) (rule cnt)
  have "is_response (respond ex msg)" for ex msg
    using final [of ex msg] by (auto simp: final_answer_def)
  then have "all_answered respond (sent b)" by (auto simp: all_answered_def)
  then have err: "b_error (fold (deliver_to respond) (sent b) b) = 0"
    using deliveries_error_0 [of b respond "sent b"] cnt by simp
  have idle: "?ms = []" if "sent b = []"
  proof (rule ccontr)
    assume "?ms \<noteq> []"
    then obtain st where "st \<in> snd ` set (m_executiveStates (executive b))"
      by (cases "m_executiveStates (executive b)") auto
    from light [OF this] that show False
      by (auto simp: visited_def light_def state_ready_def plain_state_def)
  qed
  obtain q ms' g' where tr: "traverseExecutive keyLock_visit ?ms (m_keyLocks (executive b)) = (q, ms', g')"
    by (metis prod_cases3)
  have "states_inv ?ms" using vis(1) by (auto simp: all_visited_def intro: states_inv_answer_node)
  note post = keyLock_traversal_light [OF this nodes, of "m_keyLocks (executive b)", unfolded tr prod.case]
  then have q: "q = Inr ()" by (cases q) simp_all
  from post have res: "states_inv ms'" "set (ids ms') = set (ids (m_executiveStates (executive b)))"
    "\<forall>st \<in> snd ` set ms'. plain_state st \<and> weight st \<le> ?w (contextID st)"
    unfolding q sum.case ids_answer_node by blast+
  have "r = Inr None" and ms': "m_executiveStates (executive b') = ms'"
    using check err idle vis(2) cnt tr q by (auto simp: checkBatch_def Let_def be split: if_splits)
  moreover have "total_weight ms' < total_weight ?old" if "ms' \<noteq> []"
  proof -
    have sub: "set (ids ms') \<subseteq> set (ids ?old)"
      using sendBatch_ids [OF inv send] res(2) by simp
    have dist: "distinct (ids ?old)" "distinct (ids ms')"
      using inv(1) res(1) by (simp_all add: executive_inv_def states_inv_def)
    have "sent b \<noteq> []"
      using that idle res(2) by (cases ms') auto
    then obtain c where c: "c \<in> fst ` set (sent b)" by (cases "sent b") auto
    have "total_weight ms' \<le> sum ?w (set (ids ms'))"
      using res(3) by (intro total_weight_le [OF dist(2)]) blast
    also have "\<dots> < sum ?before (set (ids ms'))"
      by (rule sum_strict_mono_ex1) (use c cnt(6) res(2) pos [OF c] in \<open>auto intro!: bexI [of _ c]\<close>)
    also have "\<dots> \<le> total_weight ?old" using dist(1) sub by (rule total_weight_ge)
    finally show ?thesis .
  qed
  ultimately show ?thesis using res(3) by (auto simp: Let_def)
qed

lemma DMTExecute_terminates:
  assumes "permuting w" and final: "\<And>n ex msg. final_answer (batchRespond w n ex msg)"
  shows "executive_inv be \<Longrightarrow> manager_ready m \<Longrightarrow>
    \<forall>st \<in> snd ` set (m_executiveStates be). plain_state st \<Longrightarrow>
    total_weight (m_executiveStates be) < fuel \<Longrightarrow>
    \<exists>cs be' m'. DMTExecute env w fuel n be m = Some (Inr cs, be', m') \<and> (Some DMTError, None) \<notin> set cs"
proof (induction fuel arbitrary: n be m)
  case (Suc fuel)
  have perm: "\<And>xs. mset (arrival w n xs) = mset xs" using assms(1) by (simp add: permuting_def)
  obtain b r b' where send: "sendBatch env be m = (Inr (), b)"
    and run: "startBatch env (batchRespond w n) (arrival w n) be m = ([r], executive b', manager b')"
    and check: "checkBatch (fold (deliver_to (batchRespond w n)) (sent b) b) = (Some r, b')"
    using startBatch_ok [OF Suc.prems(1,2) perm, of "batchRespond w n"] by blast
  have r: "r = Inr None" and prog: "m_executiveStates (executive b') = [] \<or>
      (\<forall>st \<in> snd ` set (m_executiveStates (executive b')). plain_state st) \<and>
      total_weight (m_executiveStates (executive b')) < total_weight (m_executiveStates be)"
    using checkBatch_progress [OF Suc.prems(1-3) final send check] by (auto simp: Let_def)
  have inv: "executive_inv (executive b')" "manager_ready (manager b')"
    using startBatch_run [OF batch_environment_axioms Suc.prems(1,2) perm run] r by simp_all
  show ?case
  proof (cases "m_executiveStates (executive b') = []")
    case True
    then show ?thesis
      using finishExecute_result [OF inv(1) True inv(2), of w] r run by (auto split: prod.splits if_splits)
  next
    case False
    then have "\<exists>cs be' m'. DMTExecute env w fuel (Suc n) (executive b') (manager b') = Some (Inr cs, be', m') \<and>
        (Some DMTError, None) \<notin> set cs"
      using inv prog Suc.prems(4) by (intro Suc.IH) auto
    with False r run show ?thesis by simp
  qed
qed simp

end

end
