(* ===== verification/Dag_Execution.thy ===== *)
theory Dag_Execution
  imports Block_Executive
begin

text \<open>
  The parallel phase \<open>DAGExecute\<close>: which messages go to which executor, when its callback is
  called, and that a successful phase leaves a well-formed execution behind.
\<close>

subsection \<open>Grouping\<close>

lemma distinct_remdups_adj_sorted: "sorted xs \<Longrightarrow> distinct (remdups_adj xs)"
  by (induction xs rule: remdups_adj.induct) (auto simp: antisym)

lemma dagContracts_distinct:
  assumes "states_inv ms"
  shows "distinct (dagContracts ms)"
proof -
  have "sorted (map fst ms)"
    using assms by (simp add: states_inv_def sorted_map_def strict_sorted_iff)
  then have "sorted (map (fst \<circ> fst) ms)"
    by (auto simp: sorted_wrt_map less_eq_prod_def elim!: sorted_wrt_mono_rel [rotated])
  then have "sorted (map (fst \<circ> fst) (filter (\<lambda>(_, st). enableDAG st) ms))"
    by (rule sorted_filter)
  then show ?thesis
    by (auto simp: dagContracts_def case_prod_unfold comp_def intro: distinct_remdups_adj_sorted)
qed

lemma set_dagContracts: "set (dagContracts ms) = {c. \<exists>i st. ((c, i), st) \<in> set ms \<and> enableDAG st}"
  by (force simp: dagContracts_def)

lemma sum_groups:
  assumes "distinct cs"
  shows "sum_list (map (\<lambda>c. length (filter (\<lambda>x. P x \<and> f x = c) xs)) cs) =
    length (filter (\<lambda>x. P x \<and> f x \<in> set cs) xs)"
proof (induction xs)
  case (Cons x xs)
  have "sum_list (map (\<lambda>c. length (filter (\<lambda>x. P x \<and> f x = c) (x # xs))) cs) =
      sum_list (map (\<lambda>c. (if P x \<and> f x = c then 1 else 0)) cs) +
      sum_list (map (\<lambda>c. length (filter (\<lambda>x. P x \<and> f x = c) xs)) cs)"
    unfolding sum_list_addf [symmetric] by (rule arg_cong [where f = sum_list]) simp
  also have "sum_list (map (\<lambda>c. (if P x \<and> f x = c then 1 else 0)) cs) =
      (if P x \<and> f x \<in> set cs then 1 else (0::nat))"
    using assms by (induction cs) auto
  finally show ?case using Cons by simp
qed simp

text \<open>What the pushes for the contracts \<open>C\<close> make of a state.\<close>

definition pushed :: "string set \<Rightarrow> state_key \<Rightarrow> ExecutiveState \<Rightarrow> ExecutiveState" where
  "pushed C k st =
     (if enableDAG st \<and> fst k \<in> C
      then st\<lparr>callStack := currentSeq st # callStack st, currentSeq := currentSeq st + 1, message := None\<rparr>
      else st)"

lemma pushed_simps [simp]:
  "contextID (pushed C k st) = contextID st" "enableDAG (pushed C k st) = enableDAG st"
  "error (pushed C k st) = error st"
  by (simp_all add: pushed_def)

lemma dagPush_pushed: "dagPush c ms = map (\<lambda>(k, st). (k, pushed {c} k st)) ms"
  by (auto simp: dagPush_def pushed_def)

lemma pushed_insert: "c \<notin> C \<Longrightarrow> pushed C k (pushed {c} k st) = pushed (insert c C) k st"
  by (auto simp: pushed_def)

lemma dagGroup_push:
  assumes "c \<noteq> c'"
  shows "dagGroup c (dagPush c' ms) = dagGroup c ms"
  using assms by (induction ms) (auto simp: dagGroup_def dagPush_def)

context batch_environment
begin

lemma dispatch_ready:
  assumes "manager_ready m"
  obtains ex m' where "dispatchExecutor (pq_top env) c m = (Inr (Some ex), m')" and "manager_ready m'"
    and "m_name2Executors m' = m_name2Executors m"
proof -
  have em: "em_inv m" and ne: "m_name2Executors m \<noteq> []" using assms by (simp_all add: manager_ready_def)
  obtain ex m' where d: "dispatchExecutor (pq_top env) c m = (Inr (Some ex), m')"
    using priority_queue_top.dispatch_outcome [OF env_queue em ne, of c] by blast
  moreover from d have "em_inv m'" "m_name2Executors m' = m_name2Executors m"
    using priority_queue_top.dispatch_inv [OF env_queue em, of c]
      priority_queue_top.dispatch_names [OF env_queue em, of c] by simp_all
  ultimately show ?thesis using that ne by (simp add: manager_ready_def)
qed

lemma dagSend_ok:
  assumes "distinct cs" and "manager_ready m"
  shows "\<exists>groups m'. dagSend env cs ms m =
      (Inr groups, map (\<lambda>(k, st). (k, pushed (set cs) k st)) ms, m') \<and>
    manager_ready m' \<and> m_name2Executors m' = m_name2Executors m \<and>
    map snd groups = map (\<lambda>c. (map fst (dagGroup c ms), map snd (dagGroup c ms))) cs"
  using assms
proof (induction cs arbitrary: ms m)
  case Nil
  have "map (\<lambda>(k, st). (k, pushed {} k st)) ms = ms" by (induction ms) (auto simp: pushed_def)
  with Nil show ?case by simp
next
  case (Cons c cs)
  obtain ex m1 where d: "dispatchExecutor (pq_top env) c m = (Inr (Some ex), m1)" "manager_ready m1"
    "m_name2Executors m1 = m_name2Executors m"
    using dispatch_ready [OF Cons.prems(2)] .
  obtain groups m' where rest: "dagSend env cs (dagPush c ms) m1 =
      (Inr groups, map (\<lambda>(k, st). (k, pushed (set cs) k st)) (dagPush c ms), m')"
    "manager_ready m'" "m_name2Executors m' = m_name2Executors m1"
    "map snd groups = map (\<lambda>c'. (map fst (dagGroup c' (dagPush c ms)), map snd (dagGroup c' (dagPush c ms)))) cs"
    using Cons.IH [of m1 "dagPush c ms"] Cons.prems(1) d(2) by auto
  have "map (\<lambda>(k, st). (k, pushed (set cs) k st)) (dagPush c ms) =
      map (\<lambda>(k, st). (k, pushed (set (c # cs)) k st)) ms"
    using Cons.prems(1) by (auto simp: dagPush_pushed pushed_insert)
  moreover have "map (\<lambda>c'. (map fst (dagGroup c' (dagPush c ms)), map snd (dagGroup c' (dagPush c ms)))) cs =
      map (\<lambda>c'. (map fst (dagGroup c' ms), map snd (dagGroup c' ms))) cs"
    using Cons.prems(1) by (intro map_cong refl) (metis dagGroup_push distinct.simps(2))
  ultimately show ?case using d rest by (simp add: Let_def)
qed

end

subsection \<open>The callbacks\<close>

definition dagStep :: "world \<Rightarrow> dag_request \<Rightarrow> dag_status \<Rightarrow> dag_status" where
  "dagStep w = (\<lambda>(ex, ctxs, msgs). dagCallback (dagRespond w ex msgs) ctxs)"

text \<open>A request that is answered without an error and with as many messages as it has.\<close>

definition dag_good :: "world \<Rightarrow> dag_request \<Rightarrow> bool" where
  "dag_good w = (\<lambda>(ex, ctxs, msgs).
     \<not> fst (dagRespond w ex msgs) \<and> length ctxs = length (snd (dagRespond w ex msgs)))"

definition dag_count :: "dag_request list \<Rightarrow> nat" where
  "dag_count gs = sum_list (map (\<lambda>(_, ctxs, _). length ctxs) gs)"

text \<open>The answers of a request, and what answers make of a state.\<close>

definition dag_answers :: "world \<Rightarrow> dag_request \<Rightarrow> (ContextID \<times> ExecutionMessage option) list" where
  "dag_answers w = (\<lambda>(ex, ctxs, msgs). zip ctxs (snd (dagRespond w ex msgs)))"

definition answered :: "(ContextID \<times> ExecutionMessage option) list \<Rightarrow> ExecutiveState \<Rightarrow> ExecutiveState" where
  "answered xs st = fold (\<lambda>(ctx, msg) st. if contextID st = ctx then st\<lparr>message := msg\<rparr> else st) xs st"

lemma fold_setMessage: "fold setMessage xs ms = map (\<lambda>(k, st). (k, answered xs st)) ms"
proof (induction xs arbitrary: ms)
  case (Cons x xs)
  then show ?case by (cases x) (auto simp: setMessage_def answered_def)
qed (simp add: answered_def)

lemma answered_simps [simp]:
  "contextID (answered xs st) = contextID st" "callStack (answered xs st) = callStack st"
  "error (answered xs st) = error st" "currentSeq (answered xs st) = currentSeq st"
  "enableDAG (answered xs st) = enableDAG st"
  by (induction xs arbitrary: st) (simp_all add: answered_def case_prod_unfold)

lemma answered_message:
  "if contextID st \<in> fst ` set xs then message (answered xs st) \<in> snd ` set xs
   else message (answered xs st) = message st"
proof (induction xs arbitrary: st)
  case (Cons x xs)
  obtain ctx msg where x: "x = (ctx, msg)" by (cases x)
  let ?st = "if contextID st = ctx then st\<lparr>message := msg\<rparr> else st"
  have "answered (x # xs) st = answered xs ?st" by (simp add: answered_def x)
  with Cons.IH [of ?st] show ?case by (auto simp: x split: if_splits)
qed (simp add: answered_def)

lemma answered_id: "contextID st \<notin> fst ` set xs \<Longrightarrow> answered xs st = st"
  by (induction xs arbitrary: st) (auto simp: answered_def)

lemma dagStep_good:
  assumes "dag_good w g" and "dagFailed d = 0" and "totalCount d = of_nat (dag_count [g] + n)"
    and "n < 2 ^ 64"
  shows "dagStep w g d =
    \<lparr>dag_states = fold setMessage (dag_answers w g) (dag_states d), totalCount = of_nat n,
     dagFailed = 0, dagCalls = dagCalls d @ (if n = 0 then [None] else [])\<rparr>"
proof -
  obtain ex ctxs msgs where g: "g = (ex, ctxs, msgs)" by (metis prod_cases3)
  have "(of_nat n :: 64 word) = 0 \<longleftrightarrow> n = 0"
    using assms(4) by (auto simp: word_of_nat_eq_0_iff dest: nat_dvd_not_less)
  with assms(1-3) show ?thesis
    by (auto simp: g dagStep_def dagCallback_def dag_good_def dag_count_def dag_answers_def Let_def
        split: prod.splits)
qed

lemma dag_count_Cons: "dag_count (g # gs) = dag_count [g] + dag_count gs"
  by (simp add: dag_count_def)

lemma dag_count_0: "\<forall>(_, ctxs, _) \<in> set gs. ctxs \<noteq> [] \<Longrightarrow> dag_count gs = 0 \<longleftrightarrow> gs = []"
  by (cases gs) (auto simp: dag_count_def)

lemma dag_all_good:
  assumes "\<forall>g \<in> set gs. dag_good w g" and "\<forall>(_, ctxs, _) \<in> set gs. ctxs \<noteq> []" and "gs \<noteq> []"
    and "dagFailed d = 0" and "totalCount d = of_nat (dag_count gs)" and "dag_count gs < 2 ^ 64"
  shows "dagCalls (fold (dagStep w) gs d) = dagCalls d @ [None]"
    and "dag_states (fold (dagStep w) gs d) = fold setMessage (concat (map (dag_answers w) gs)) (dag_states d)"
proof -
  have "dagCalls (fold (dagStep w) gs d) = dagCalls d @ [None] \<and>
    dag_states (fold (dagStep w) gs d) = fold setMessage (concat (map (dag_answers w) gs)) (dag_states d)"
    using assms
  proof (induction gs arbitrary: d)
    case (Cons g gs)
    have step: "dagStep w g d =
      \<lparr>dag_states = fold setMessage (dag_answers w g) (dag_states d), totalCount = of_nat (dag_count gs),
       dagFailed = 0, dagCalls = dagCalls d @ (if dag_count gs = 0 then [None] else [])\<rparr>"
      using Cons.prems dag_count_Cons [of g gs] by (intro dagStep_good) auto
    show ?case
    proof (cases "gs = []")
      case True
      then show ?thesis by (simp add: step dag_count_def)
    next
      case False
      moreover have "dag_count gs \<noteq> 0" using Cons.prems(2) False dag_count_0 [of gs] by auto
      ultimately show ?thesis
        using Cons.IH [of "dagStep w g d"] Cons.prems dag_count_Cons [of g gs] by (simp add: step)
    qed
  qed simp
  then show "dagCalls (fold (dagStep w) gs d) = dagCalls d @ [None]"
    "dag_states (fold (dagStep w) gs d) = fold setMessage (concat (map (dag_answers w) gs)) (dag_states d)"
    by auto
qed

lemma dag_failed_calls:
  "0 < dagFailed d \<Longrightarrow> \<exists>n. dagCalls (fold (dagStep w) gs d) = dagCalls d @ replicate n (Some DAGError)"
proof (induction gs arbitrary: d)
  case (Cons g gs)
  obtain ex ctxs msgs where g: "g = (ex, ctxs, msgs)" by (metis prod_cases3)
  have "0 < dagFailed (dagStep w g d)"
    and "\<exists>k. dagCalls (dagStep w g d) = dagCalls d @ replicate k (Some DAGError)"
    using Cons.prems by (auto simp: g dagStep_def dagCallback_def Let_def split: prod.splits
        intro: exI [of _ 0] exI [of _ 1])
  with Cons.IH [of "dagStep w g d"] show ?case by (auto simp: replicate_add [symmetric])
qed (auto intro: exI [of _ 0])

lemma dag_some_bad:
  assumes "\<exists>g \<in> set gs. \<not> dag_good w g" and "\<forall>(_, ctxs, _) \<in> set gs. ctxs \<noteq> []"
    and "dagFailed d = 0" and "totalCount d = of_nat (dag_count gs)" and "dag_count gs < 2 ^ 64"
  shows "\<exists>n. dagCalls (fold (dagStep w) gs d) = dagCalls d @ replicate n (Some DAGError)"
  using assms
proof (induction gs arbitrary: d)
  case (Cons g gs)
  show ?case
  proof (cases "dag_good w g")
    case True
    have step: "dagStep w g d =
      \<lparr>dag_states = fold setMessage (dag_answers w g) (dag_states d), totalCount = of_nat (dag_count gs),
       dagFailed = 0, dagCalls = dagCalls d @ (if dag_count gs = 0 then [None] else [])\<rparr>"
      using True Cons.prems dag_count_Cons [of g gs] by (intro dagStep_good) auto
    have bad: "\<exists>g \<in> set gs. \<not> dag_good w g" using Cons.prems(1) True by auto
    then have "dag_count gs \<noteq> 0" using Cons.prems(2) dag_count_0 [of gs] by auto
    then show ?thesis
      using Cons.IH [of "dagStep w g d"] bad Cons.prems dag_count_Cons [of g gs] by (simp add: step)
  next
    case False
    obtain ex ctxs msgs where g: "g = (ex, ctxs, msgs)" by (metis prod_cases3)
    have "0 < dagFailed (dagStep w g d)"
      and "\<exists>k. dagCalls (dagStep w g d) = dagCalls d @ replicate k (Some DAGError)"
      using False by (auto simp: g dagStep_def dagCallback_def dag_good_def Let_def split: prod.splits
          intro: exI [of _ 0] exI [of _ 1])
    with dag_failed_calls [of "dagStep w g d" w gs] show ?thesis
      by (auto simp: replicate_add [symmetric])
  qed
qed simp

subsection \<open>The whole phase\<close>

text \<open>The callbacks arrive in any order.\<close>

definition dag_permuting :: "world \<Rightarrow> bool" where
  "dag_permuting w \<longleftrightarrow> (\<forall>gs. mset (dagArrival w gs) = mset gs)"

lemma dag_count_perm: "mset gs = mset gs' \<Longrightarrow> dag_count gs = dag_count gs'"
  unfolding dag_count_def sum_mset_sum_list [symmetric] mset_map by simp

lemma states_inv_map:
  assumes "states_inv ms" and "\<And>k st. contextID (f k st) = contextID st"
  shows "states_inv (map (\<lambda>(k, st). (k, f k st)) ms)" and "ids (map (\<lambda>(k, st). (k, f k st)) ms) = ids ms"
proof -
  show "ids (map (\<lambda>(k, st). (k, f k st)) ms) = ids ms"
    using assms(2) by (simp add: ids_def case_prod_unfold)
  moreover have "map fst (map (\<lambda>(k, st). (k, f k st)) ms) = map fst ms" by (simp add: case_prod_unfold)
  then have "sorted_map (map (\<lambda>(k, st). (k, f k st)) ms) = sorted_map ms" by (simp only: sorted_map_def)
  ultimately show "states_inv (map (\<lambda>(k, st). (k, f k st)) ms)"
    using assms unfolding states_inv_def by auto
qed

text \<open>The contexts that are sent, and the groups as a partition of them.\<close>

definition flagged :: "executive_states \<Rightarrow> ContextID set" where
  "flagged ms = contextID ` {st \<in> snd ` set ms. enableDAG st}"

lemma dagGroup_contexts: "(\<Union>c \<in> set (dagContracts ms). fst ` set (dagGroup c ms)) = flagged ms"
  by (force simp: set_dagContracts dagGroup_def flagged_def image_iff)

lemma dagGroup_nonempty: "c \<in> set (dagContracts ms) \<Longrightarrow> dagGroup c ms \<noteq> []"
  by (force simp: set_dagContracts dagGroup_def filter_empty_conv)

lemma dag_groups:
  assumes "map snd groups = map (\<lambda>c. (map fst (dagGroup c ms), map snd (dagGroup c ms))) (dagContracts ms)"
    and "distinct (dagContracts ms)"
  shows "dag_count groups = length (filter (\<lambda>(_, st). enableDAG st) ms)"
    and "\<forall>(_, ctxs, msgs) \<in> set groups. ctxs \<noteq> [] \<and> length msgs = length ctxs"
    and "(\<Union>(_, ctxs, _) \<in> set groups. set ctxs) = flagged ms"
proof -
  have img: "snd ` set groups = (\<lambda>c. (map fst (dagGroup c ms), map snd (dagGroup c ms))) ` set (dagContracts ms)"
    using arg_cong [OF assms(1), of set] by simp
  have "dag_count groups = sum_list (map (\<lambda>(ctxs, _). length ctxs) (map snd groups))"
    by (simp add: dag_count_def case_prod_unfold comp_def)
  also have "\<dots> = sum_list (map (\<lambda>c. length (filter (\<lambda>x. enableDAG (snd x) \<and> fst (fst x) = c) ms)) (dagContracts ms))"
    unfolding assms(1) by (simp add: dagGroup_def comp_def case_prod_unfold)
  also have "\<dots> = length (filter (\<lambda>x. enableDAG (snd x) \<and> fst (fst x) \<in> set (dagContracts ms)) ms)"
    by (rule sum_groups) fact
  also have "\<dots> = length (filter (\<lambda>(_, st). enableDAG st) ms)"
    by (intro arg_cong [where f = length] filter_cong) (force simp: set_dagContracts)+
  finally show "dag_count groups = length (filter (\<lambda>(_, st). enableDAG st) ms)" .
  show "\<forall>(_, ctxs, msgs) \<in> set groups. ctxs \<noteq> [] \<and> length msgs = length ctxs"
  proof (intro ballI, clarify)
    fix ex ctxs msgs assume "(ex, ctxs, msgs) \<in> set groups"
    then have "(ctxs, msgs) \<in> snd ` set groups" by force
    then show "ctxs \<noteq> [] \<and> length msgs = length ctxs" unfolding img using dagGroup_nonempty by auto
  qed
  have "(\<Union>(_, ctxs, _) \<in> set groups. set ctxs) = (\<Union>p \<in> snd ` set groups. set (fst p))"
    by (simp add: case_prod_unfold)
  also have "\<dots> = flagged ms" unfolding img dagGroup_contexts [symmetric] by simp
  finally show "(\<Union>(_, ctxs, _) \<in> set groups. set ctxs) = flagged ms" .
qed

lemma dag_answers_set:
  assumes "\<forall>g \<in> set gs. dag_good w g"
  shows "fst ` set (concat (map (dag_answers w) gs)) = (\<Union>(_, ctxs, _) \<in> set gs. set ctxs)"
    and "snd ` set (concat (map (dag_answers w) gs)) \<subseteq> {a. \<exists>ex msgs. a \<in> set (snd (dagRespond w ex msgs))}"
proof -
  have "fst ` set (dag_answers w (ex, ctxs, msgs)) = set ctxs" if "(ex, ctxs, msgs) \<in> set gs" for ex ctxs msgs
  proof -
    have "length ctxs = length (snd (dagRespond w ex msgs))"
      using assms that by (auto simp: dag_good_def)
    then have "map fst (dag_answers w (ex, ctxs, msgs)) = ctxs" by (simp add: dag_answers_def)
    then show ?thesis by (metis set_map)
  qed
  then show "fst ` set (concat (map (dag_answers w) gs)) = (\<Union>(_, ctxs, _) \<in> set gs. set ctxs)"
    by (force simp: image_UN)
  show "snd ` set (concat (map (dag_answers w) gs)) \<subseteq> {a. \<exists>ex msgs. a \<in> set (snd (dagRespond w ex msgs))}"
  proof
    fix a assume "a \<in> snd ` set (concat (map (dag_answers w) gs))"
    then obtain ex ctxs msgs and c :: ContextID where "(c, a) \<in> set (zip ctxs (snd (dagRespond w ex msgs)))"
      by (auto simp: dag_answers_def)
    then show "a \<in> {a. \<exists>ex msgs. a \<in> set (snd (dagRespond w ex msgs))}"
      using set_zip_rightD by fast
  qed
qed

lemma ids_inj:
  assumes "distinct (ids ms)" and "st \<in> snd ` set ms" and "st' \<in> snd ` set ms"
    and "contextID st = contextID st'"
  shows "st = st'"
proof -
  have "distinct (map contextID (map snd ms))"
    using assms(1) by (simp add: ids_def comp_def case_prod_unfold)
  then have "inj_on contextID (set (map snd ms))" unfolding distinct_map by blast
  then show ?thesis unfolding set_map using assms(4,2,3) by (rule inj_onD)
qed

text \<open>What the phase makes of a state: a flagged one gets the answer \<open>M\<close> to its first call.\<close>

definition dag_result :: "ExecutionMessage option set \<Rightarrow> ExecutiveState \<Rightarrow> ExecutiveState \<Rightarrow> bool" where
  "dag_result M st st' \<longleftrightarrow>
     (if enableDAG st
      then contextID st' = contextID st \<and> error st' = error st \<and> enableDAG st' \<and>
           callStack st' = currentSeq st # callStack st \<and> currentSeq st' = currentSeq st + 1 \<and> message st' \<in> M
      else st' = st)"

lemma flagged_iff:
  assumes "distinct (ids ms)" and "st \<in> snd ` set ms"
  shows "contextID st \<in> flagged ms \<longleftrightarrow> enableDAG st"
proof
  assume "contextID st \<in> flagged ms"
  then obtain st' where st': "st' \<in> snd ` set ms" "enableDAG st'" "contextID st' = contextID st"
    unfolding flagged_def by (metis (mono_tags, lifting) imageE mem_Collect_eq)
  have "st' = st" by (rule ids_inj [OF assms(1) st'(1) assms(2) st'(3)])
  with st' show "enableDAG st" by simp
qed (use assms in \<open>auto simp: flagged_def\<close>)

lemma answered_result:
  assumes "distinct (ids ms)" and "fst ` set xs = flagged ms" and "(k, st) \<in> set ms"
  shows "dag_result (snd ` set xs) st (answered xs (pushed (set (dagContracts ms)) k st))"
proof -
  have mem: "st \<in> snd ` set ms" using assms(3) by force
  note msg = answered_message [of "pushed (set (dagContracts ms)) k st" xs,
      unfolded assms(2) pushed_simps flagged_iff [OF assms(1) mem]]
  show ?thesis
  proof (cases "enableDAG st")
    case True
    then have "fst k \<in> set (dagContracts ms)" using assms(3) by (cases k) (auto simp: set_dagContracts)
    with True msg show ?thesis by (auto simp: dag_result_def pushed_def)
  next
    case False
    then have "contextID st \<notin> fst ` set xs" using flagged_iff [OF assms(1) mem] assms(2) by simp
    with False answered_id [of st xs] show ?thesis by (simp add: dag_result_def pushed_def)
  qed
qed

text \<open>Well-formedness after the answers \<open>xs\<close> of all requests.\<close>

lemma dag_result_ready: "dag_result M st st' \<Longrightarrow> None \<notin> M \<Longrightarrow> state_ready st \<Longrightarrow> state_ready st'"
  by (cases "message st'") (auto simp: dag_result_def state_ready_def stack_ok_def split: if_splits)

lemma answered_executive_inv:
  assumes inv: "executive_inv be" and xs: "fst ` set xs = flagged (m_executiveStates be)" "None \<notin> snd ` set xs"
    and C: "C = set (dagContracts (m_executiveStates be))"
  shows "executive_inv (be\<lparr>m_executiveStates :=
      map (\<lambda>(k, st). (k, answered xs (pushed C k st))) (m_executiveStates be)\<rparr>)"
proof -
  let ?ms = "m_executiveStates be" and ?f = "\<lambda>k st. answered xs (pushed C k st)"
  have dist: "distinct (ids ?ms)" and sinv: "states_inv ?ms"
    using inv by (simp_all add: executive_inv_def states_inv_def)
  have "state_ready (?f k st)" if mem: "(k, st) \<in> set ?ms" for k st
  proof -
    have "state_ready st" using mem inv unfolding executive_inv_def by force
    with answered_result [OF dist xs(1) mem] xs(2) show ?thesis unfolding C by (rule dag_result_ready)
  qed
  then have "\<forall>st \<in> snd ` set (map (\<lambda>(k, st). (k, ?f k st)) ?ms). state_ready st" by auto
  moreover note states_inv_map [OF sinv, of ?f]
  ultimately show ?thesis using inv by (simp add: executive_inv_def)
qed

definition dag_responses :: "world \<Rightarrow> ExecutionMessage option set" where
  "dag_responses w = {a. \<exists>ex msgs. a \<in> set (snd (dagRespond w ex msgs))}"

lemma dag_result_mono: "dag_result M st st' \<Longrightarrow> M \<subseteq> N \<Longrightarrow> dag_result N st st'"
  by (auto simp: dag_result_def)

text \<open>Whether every request is answered properly, and with proper messages.\<close>

definition dag_answered :: "world \<Rightarrow> bool" where
  "dag_answered w \<longleftrightarrow>
     (\<forall>ex msgs. \<not> fst (dagRespond w ex msgs) \<and> length (snd (dagRespond w ex msgs)) = length msgs)"

definition dag_messages :: "world \<Rightarrow> bool" where
  "dag_messages w \<longleftrightarrow> (\<forall>ex msgs. None \<notin> set (snd (dagRespond w ex msgs)))"

context batch_environment
begin

lemma DAGExecute_run:
  assumes inv: "executive_inv be" "manager_ready m" and w: "dag_permuting w"
    and small: "length (m_executiveStates be) < 2 ^ 64"
  shows "\<exists>calls be' m'. DAGExecute env w be m = (Inr calls, be', m') \<and> manager_ready m' \<and>
    m_name2Executors m' = m_name2Executors m \<and> frame be' = frame be \<and>
    (calls = [None] \<and> (dag_messages w \<longrightarrow> executive_inv be') \<and>
       list_all2 (\<lambda>(k, st) (k', st'). k' = k \<and> dag_result (dag_responses w) st st')
         (m_executiveStates be) (m_executiveStates be') \<or>
     \<not> dag_answered w \<and> (\<exists>n. calls = replicate n (Some DAGError)))"
proof -
  let ?ms = "m_executiveStates be" and ?cs = "dagContracts (m_executiveStates be)"
  have sinv: "states_inv ?ms" using inv(1) by (simp add: executive_inv_def)
  obtain groups m' where send: "dagSend env ?cs ?ms m =
      (Inr groups, map (\<lambda>(k, st). (k, pushed (set ?cs) k st)) ?ms, m')"
    and m': "manager_ready m'" "m_name2Executors m' = m_name2Executors m"
    and groups: "map snd groups = map (\<lambda>c. (map fst (dagGroup c ?ms), map snd (dagGroup c ?ms))) ?cs"
    using dagSend_ok [OF dagContracts_distinct [OF sinv] inv(2), of ?ms] by blast
  define gs where "gs = dagArrival w groups"
  define reqs where "reqs = filter (\<lambda>(_, st). enableDAG st) ?ms"
  define d where "d = \<lparr>dag_states = map (\<lambda>(k, st). (k, pushed (set ?cs) k st)) ?ms,
    totalCount = of_nat (length reqs), dagFailed = 0, dagCalls = []\<rparr>"
  have perm: "mset gs = mset groups" using w by (simp add: gs_def dag_permuting_def)
  note part = dag_groups [OF groups dagContracts_distinct [OF sinv]]
  have set: "set gs = set groups" using perm by (rule mset_eq_setD)
  have count: "dag_count gs = length reqs" using dag_count_perm [OF perm] part(1) by (simp add: reqs_def)
  have ne: "\<forall>(_, ctxs, _) \<in> set gs. ctxs \<noteq> []" using part(2) by (auto simp: set)
  have small': "dag_count gs < 2 ^ 64"
    using small count by (metis le_less_trans length_filter_le reqs_def)
  have d0: "dagFailed d = 0" "totalCount d = of_nat (dag_count gs)" "dagCalls d = []"
    by (simp_all add: d_def count)
  let ?d = "fold (dagStep w) gs d"
  have run: "DAGExecute env w be m =
      (Inr ((if gs = [] then [None] else []) @ dagCalls ?d), be\<lparr>m_executiveStates := dag_states ?d\<rparr>, m')"
    using dag_count_0 [OF ne] count
    by (simp add: DAGExecute_def Let_def send reqs_def [symmetric] gs_def [symmetric] dagStep_def d_def)
  have fr: "frame (be\<lparr>m_executiveStates := dag_states ?d\<rparr>) = frame be" by simp
  show ?thesis
  proof (cases "\<forall>g \<in> set gs. dag_good w g")
    case True
    let ?xs = "concat (map (dag_answers w) gs)"
    have states: "dag_states ?d = map (\<lambda>(k, st). (k, answered ?xs (pushed (set ?cs) k st))) ?ms"
    proof (cases "gs = []")
      case True
      then show ?thesis by (simp add: d_def answered_def)
    next
      case False
      from dag_all_good(2) [OF \<open>\<forall>g \<in> set gs. dag_good w g\<close> ne False d0(1,2) small'] show ?thesis
        by (simp add: fold_setMessage d_def comp_def case_prod_unfold)
    qed
    have calls: "(if gs = [] then [None] else []) @ dagCalls ?d = [None]"
      using dag_all_good(1) [OF True ne _ d0(1,2) small'] d0(3) by (cases "gs = []") simp_all
    have "executive_inv (be\<lparr>m_executiveStates := dag_states ?d\<rparr>)" if "dag_messages w"
      unfolding states
    proof (rule answered_executive_inv [OF inv(1)])
      show "fst ` set ?xs = flagged ?ms" using dag_answers_set(1) [OF True] part(3) set by simp
      show "None \<notin> snd ` set ?xs" using dag_answers_set(2) [OF True] that by (auto simp: dag_messages_def)
    qed simp
    moreover have "list_all2 (\<lambda>(k, st) (k', st'). k' = k \<and> dag_result (dag_responses w) st st') ?ms (dag_states ?d)"
    proof -
      have sub: "snd ` set ?xs \<subseteq> dag_responses w"
        using dag_answers_set(2) [OF True] by (simp only: dag_responses_def)
      have fst: "fst ` set ?xs = flagged ?ms" using dag_answers_set(1) [OF True] part(3) set by simp
      have dist: "distinct (ids ?ms)" using sinv by (simp add: states_inv_def)
      show ?thesis
        unfolding states list_all2_map2 using dag_result_mono [OF answered_result [OF dist fst] sub]
        by (auto simp: list_all2_same)
    qed
    ultimately show ?thesis using run calls m' fr by simp
  next
    case False
    then obtain ex ctxs msgs where g: "(ex, ctxs, msgs) \<in> set gs" "\<not> dag_good w (ex, ctxs, msgs)" by auto
    then have "length msgs = length ctxs" using part(2) by (auto simp: set)
    with g(2) have "\<not> dag_answered w" unfolding dag_answered_def dag_good_def prod.case by fastforce
    moreover obtain n where "dagCalls ?d = replicate n (Some DAGError)"
      using dag_some_bad [OF _ ne d0(1,2) small', of w] False d0(3) by auto
    moreover have "gs \<noteq> []" using g by auto
    ultimately show ?thesis using run m' fr by auto
  qed
qed

end

end
