(* ===== verification/Block_Correctness.thy ===== *)
theory Block_Correctness
  imports Execution_Progress Dag_Execution
begin

text \<open>
  From the transactions of a block to its header: the executive states that \<open>asyncExecute\<close> builds
  are well formed, and the properties of whole executions follow from those of the parallel
  phase and of the batches.
\<close>

subsection \<open>Building the states\<close>

text \<open>
  What a block hands to the loop: the attributes, and the hash and source, of each transaction.
  Meta data comes before transactions.
\<close>

definition block_attributes :: "Block \<Rightarrow> Attribute list list" where
  "block_attributes block =
     (if transactionsMetaData block \<noteq> [] then map metaAttribute (transactionsMetaData block)
      else map txAttribute (transactions block))"

definition block_hashes :: "Block \<Rightarrow> (h256 \<times> string) list" where
  "block_hashes block =
     (if transactionsMetaData block \<noteq> [] then map (\<lambda>md. (metaHash md, metaSource md)) (transactionsMetaData block)
      else map (\<lambda>tx. (txHash tx, txSource tx)) (transactions block))"

text \<open>A state that was just made: nothing called yet, the message a request with the key locks \<open>K\<close>.\<close>

definition fresh_state :: "string list \<Rightarrow> ExecutiveState \<Rightarrow> bool" where
  "fresh_state K st \<longleftrightarrow> \<not> error st \<and> callStack st = [] \<and>
     (\<exists>msg. message st = Some msg \<and> msgType msg \<in> {MESSAGE, TXHASH} \<and> keyLocks msg = K)"

text \<open>After \<open>i\<close> of the transactions \<open>hs\<close>.\<close>

definition built :: "string list \<Rightarrow> (h256 \<times> string) list \<Rightarrow> nat \<Rightarrow> BlockExecutive \<Rightarrow> bool" where
  "built K hs i be \<longleftrightarrow>
     states_inv (m_executiveStates be) \<and> set (ids (m_executiveStates be)) = {0..<int i} \<and>
     (\<forall>st \<in> snd ` set (m_executiveStates be). fresh_state K st) \<and>
     length (m_executiveResults be) = length hs \<and>
     (\<forall>j < i. resultHash (m_executiveResults be ! j) = fst (hs ! j) \<and>
              source (m_executiveResults be ! j) = snd (hs ! j)) \<and>
     (\<forall>r \<in> set (m_executiveResults be). receipt r = None) \<and>
     m_gasUsed be = 0 \<and> kl_inv (m_keyLocks be)"

definition add_transaction ::
  "nat \<Rightarrow> ExecutionMessage \<Rightarrow> bool \<Rightarrow> h256 \<Rightarrow> string \<Rightarrow> BlockExecutive \<Rightarrow> BlockExecutive"
where
  "add_transaction i msg dag h src be =
     be\<lparr>m_executiveStates :=
          map_emplace (msgTo msg, int i) (new_state (int i) msg dag) (m_executiveStates be),
        m_executiveResults :=
          (m_executiveResults be)[i := (m_executiveResults be ! i)\<lparr>resultHash := h, source := src\<rparr>]\<rparr>"

lemma buildStates_Cons:
  assumes "info t = (h, src, dag)" and "f i t = Inr msg"
  shows "buildStates first f info i (t # ts) d be =
    buildStates first f info (Suc i) ts (d \<or> dag) (add_transaction i msg (d \<or> dag) h src be)"
  using assms by (simp add: add_transaction_def Let_def)

lemma built_step:
  assumes "built K hs i be" and "msgType msg \<in> {MESSAGE, TXHASH}" "keyLocks msg = K"
    and "i < length hs" and "hs ! i = (h, src)"
  shows "built K hs (Suc i) (add_transaction i msg dag h src be)"
proof -
  let ?ms = "m_executiveStates be" and ?st = "new_state (int i) msg dag"
  let ?rs = "(m_executiveResults be)[i := (m_executiveResults be ! i)\<lparr>resultHash := h, source := src\<rparr>]"
  let ?new = "map_emplace (msgTo msg, int i) ?st ?ms" and ?be = "add_transaction i msg dag h src be"
  have ctx: "contextID ?st = int i" by (simp add: new_state_def)
  have new: "contextID ?st \<notin> set (ids ?ms)" using assms(1) by (simp add: built_def ctx)
  have inv: "states_inv ?new" and m: "mset ?new = add_mset ((msgTo msg, int i), ?st) (mset ?ms)"
    using states_inv_emplace [OF _ new, of "msgTo msg"] assms(1) by (simp_all add: built_def ctx)
  have set: "set ?new = insert ((msgTo msg, int i), ?st) (set ?ms)"
    using arg_cong [OF m, of set_mset] by simp
  have ids: "set (ids ?new) = {0..<int (Suc i)}"
    using assms(1) ctx by (auto simp: set_ids set built_def)
  have res: "\<forall>r \<in> set ?rs. receipt r = None"
    using assms(1,4) set_update_subset_insert by (fastforce simp: built_def)
  have "fresh_state K ?st" using assms(2,3) by (simp add: fresh_state_def new_state_def)
  then have st: "\<forall>st \<in> snd ` set ?new. fresh_state K st"
    using assms(1) by (simp add: set built_def)
  have hash: "\<forall>j < Suc i. resultHash (?rs ! j) = fst (hs ! j) \<and> source (?rs ! j) = snd (hs ! j)"
    using assms(1,4,5) by (simp add: built_def nth_list_update less_Suc_eq)
  have sel: "m_executiveStates ?be = ?new" "m_executiveResults ?be = ?rs" "m_gasUsed ?be = m_gasUsed be"
    "m_keyLocks ?be = m_keyLocks be" "length ?rs = length (m_executiveResults be)"
    by (simp_all add: add_transaction_def)
  show ?thesis
    unfolding built_def sel using inv ids st hash res assms(1) [unfolded built_def] by (intro conjI) blast+
qed

text \<open>What building the states leaves alone.\<close>

definition same_block :: "BlockExecutive \<Rightarrow> BlockExecutive \<Rightarrow> bool" where
  "same_block be be' \<longleftrightarrow>
     m_block be' = m_block be \<and> m_result be' = m_result be \<and> m_staticCall be' = m_staticCall be \<and>
     m_startContextID be' = m_startContextID be \<and> m_syncBlock be' = m_syncBlock be"

lemma buildStates_built:
  assumes f: "\<And>i t msg. f i t = Inr msg \<Longrightarrow> msgType msg \<in> {MESSAGE, TXHASH} \<and> keyLocks msg = K"
    and "built K hs i be" and "drop i hs = map (\<lambda>t. (fst (info t), fst (snd (info t)))) ts"
    and "i \<le> length hs" and "buildStates first f info i ts d be = (Inr d', be')"
  shows "built K hs (length hs) be' \<and> same_block be be'"
  using assms(2-5)
proof (induction ts arbitrary: i d be)
  case Nil
  then show ?case by (simp add: same_block_def)
next
  case (Cons t ts)
  obtain h src dag where info: "info t = (h, src, dag)" by (metis prod_cases3)
  obtain msg where msg: "f i t = Inr msg" using Cons.prems(4) info by (cases "f i t") auto
  have i: "i < length hs" "hs ! i = (h, src)" "drop (Suc i) hs = map (\<lambda>t. (fst (info t), fst (snd (info t)))) ts"
  proof -
    have dr: "drop i hs = (h, src) # map (\<lambda>t. (fst (info t), fst (snd (info t)))) ts"
      using Cons.prems(2) info by simp
    then show "i < length hs" by (cases "i < length hs") simp_all
    show "hs ! i = (h, src)" using dr by (rule nth_via_drop)
    show "drop (Suc i) hs = map (\<lambda>t. (fst (info t), fst (snd (info t)))) ts" using arg_cong [OF dr, of tl] by (simp add: drop_Suc drop_tl)
  qed
  have "built K hs (Suc i) (add_transaction i msg (d \<or> dag) h src be)"
    using Cons.prems(1) i f [OF msg] by (intro built_step) auto
  then have "built K hs (length hs) be' \<and> same_block (add_transaction i msg (d \<or> dag) h src be) be'"
    using i Cons.prems(4) unfolding buildStates_Cons [where info = info and f = f, OF info msg] by (intro Cons.IH) auto
  then show ?case by (simp add: same_block_def add_transaction_def)
qed

lemma built_executive_inv:
  assumes "built K hs (length hs) be"
  shows "executive_inv be"
proof -
  have "gas_of r = 0" if "r \<in> set (m_executiveResults be)" for r
    using that assms by (simp add: built_def gas_of_def)
  then have "sum_list (map gas_of (m_executiveResults be)) = 0"
    by (simp add: map_idI cong: map_cong)
  with assms show ?thesis
    by (auto simp: built_def executive_inv_def book_inv_def state_ready_def stack_ok_def fresh_state_def)
qed

lemma messageOfMeta_type:
  "messageOfMeta w start i md = Inr msg \<Longrightarrow>
     msgType msg \<in> {MESSAGE, TXHASH} \<and> keyLocks msg = keyLocks (createExecutionMessage w)"
  by (cases "preprocessAddress (metaTo md)")
     (auto simp: messageOfMeta_def Let_def split: if_splits)

lemma messageOfTransaction_type:
  "messageOfTransaction w auth be i tx = Inr msg \<Longrightarrow>
     msgType msg \<in> {MESSAGE, TXHASH} \<and> keyLocks msg = keyLocks (createExecutionMessage w)"
  by (cases "preprocessAddress (txTo tx)")
     (auto simp: messageOfTransaction_def Let_def split: if_splits)

lemma resize_fresh: "length (resize n []) = n" "r \<in> set (resize n []) \<Longrightarrow> receipt r = None"
  by (auto simp: resize_def)

lemma built_0:
  "built K hs 0 ((new_executive block start sc sync)\<lparr>m_executiveResults := resize (length hs) []\<rparr>)"
  by (simp add: built_def new_executive_def resize_fresh kl_inv_empty)

lemma buildExecutives_built:
  assumes "buildExecutives w auth (new_executive block start sc sync) = (Inr d, be)"
  shows "built (keyLocks (createExecutionMessage w)) (block_hashes block) (length (block_hashes block)) be"
    and "same_block (new_executive block start sc sync) be"
proof -
  let ?be = "new_executive block start sc sync" and ?K = "keyLocks (createExecutionMessage w)"
  let ?n = "length (block_hashes block)"
  let ?start = "?be\<lparr>m_executiveResults := resize ?n []\<rparr>"
  have sel: "m_block ?be = block" "m_executiveResults ?be = []" by (simp_all add: new_executive_def)
  have keep: "built ?K (block_hashes block) ?n be \<and> same_block ?be be"
    if "built ?K (block_hashes block) ?n be \<and> same_block ?start be"
    using that by (simp add: same_block_def)
  have "built ?K (block_hashes block) ?n be \<and> same_block ?be be"
  proof (cases "transactionsMetaData block = []")
    case False
    then show ?thesis
      using assms unfolding buildExecutives_def sel Let_def
      by (intro keep buildStates_built [OF messageOfMeta_type built_0]) (auto simp: block_hashes_def)
  next
    case meta: True
    show ?thesis
    proof (cases "transactions block = []")
      case False
      then show ?thesis
        using assms meta unfolding buildExecutives_def sel Let_def
        by (intro keep buildStates_built [OF messageOfTransaction_type built_0]) (auto simp: block_hashes_def)
    next
      case True
      with meta assms built_0 [of ?K "[]" block start sc sync] show ?thesis
        by (auto simp: buildExecutives_def sel block_hashes_def same_block_def resize_def new_executive_def)
    qed
  qed
  then show "built ?K (block_hashes block) ?n be" "same_block ?be be" by auto
qed

subsection \<open>The flag of the parallel phase\<close>

lemma set_map_emplace_subset: "set (map_emplace k v m) \<subseteq> insert (k, v) (set m)"
  by (induction k v m rule: map_emplace.induct) auto

lemma buildStates_flags:
  assumes "buildStates first f info i ts d be = (Inr d', be')"
    and "d \<longleftrightarrow> (\<exists>j < i. g j)" and "\<And>j. j < length ts \<Longrightarrow> g (i + j) \<longleftrightarrow> snd (snd (info (ts ! j)))"
    and "\<forall>st \<in> snd ` set (m_executiveStates be). enableDAG st \<longleftrightarrow> (\<exists>j \<le> nat (contextID st). g j)"
  shows "(d' \<longleftrightarrow> (\<exists>j < i + length ts. g j)) \<and>
    (\<forall>st \<in> snd ` set (m_executiveStates be'). enableDAG st \<longleftrightarrow> (\<exists>j \<le> nat (contextID st). g j))"
  using assms
proof (induction ts arbitrary: i d be)
  case (Cons t ts)
  obtain h src dag where info: "info t = (h, src, dag)" by (metis prod_cases3)
  obtain msg where msg: "f i t = Inr msg" using Cons.prems(1) info by (cases "f i t") auto
  let ?be = "add_transaction i msg (d \<or> dag) h src be"
  have "g i \<longleftrightarrow> dag" using Cons.prems(3) [of 0] info by simp
  then have d: "d \<or> dag \<longleftrightarrow> (\<exists>j < Suc i. g j)" using Cons.prems(2) by (auto simp: less_Suc_eq)
  have new: "snd ` set (m_executiveStates ?be) \<subseteq>
      insert (new_state (int i) msg (d \<or> dag)) (snd ` set (m_executiveStates be))"
    using set_map_emplace_subset [of "(msgTo msg, int i)" "new_state (int i) msg (d \<or> dag)" "m_executiveStates be"]
    by (auto simp: add_transaction_def dest!: subsetD)
  have "\<forall>st \<in> snd ` set (m_executiveStates ?be). enableDAG st \<longleftrightarrow> (\<exists>j \<le> nat (contextID st). g j)"
  proof
    fix st assume "st \<in> snd ` set (m_executiveStates ?be)"
    with new consider "st = new_state (int i) msg (d \<or> dag)" | "st \<in> snd ` set (m_executiveStates be)" by blast
    then show "enableDAG st \<longleftrightarrow> (\<exists>j \<le> nat (contextID st). g j)"
    proof cases
      case 1
      with d show ?thesis by (simp add: new_state_def less_Suc_eq_le)
    next
      case 2
      with Cons.prems(4) show ?thesis by blast
    qed
  qed
  moreover have "buildStates first f info (Suc i) ts (d \<or> dag) ?be = (Inr d', be')"
    using Cons.prems(1) unfolding buildStates_Cons [where info = info and f = f, OF info msg] .
  moreover have "g (Suc i + j) \<longleftrightarrow> snd (snd (info (ts ! j)))" if "j < length ts" for j
    using Cons.prems(3) [of "Suc j"] that by simp
  ultimately show ?case using Cons.IH [OF _ d] by simp
qed simp

lemma buildExecutives_flags:
  assumes "buildExecutives w auth (new_executive block start sc sync) = (Inr d, be)"
  shows "(d \<longleftrightarrow> (\<exists>as \<in> set (block_attributes block). DAG \<in> set as)) \<and>
    (\<forall>st \<in> snd ` set (m_executiveStates be).
       enableDAG st \<longleftrightarrow> (\<exists>j \<le> nat (contextID st). DAG \<in> set (block_attributes block ! j)))"
proof -
  let ?be = "new_executive block start sc sync" and ?as = "block_attributes block"
  have sel: "m_block ?be = block" "m_executiveResults ?be = []" "m_executiveStates ?be = []"
    by (simp_all add: new_executive_def)
  have "(d \<longleftrightarrow> (\<exists>j < length ?as. DAG \<in> set (?as ! j))) \<and>
      (\<forall>st \<in> snd ` set (m_executiveStates be). enableDAG st \<longleftrightarrow> (\<exists>j \<le> nat (contextID st). DAG \<in> set (?as ! j)))"
  proof (cases "transactionsMetaData block = []")
    case False
    then have len: "length ?as = 0 + length (transactionsMetaData block)" by (simp add: block_attributes_def)
    from False show ?thesis
      using assms unfolding buildExecutives_def sel Let_def len
      by (intro buildStates_flags) (auto simp: block_attributes_def sel)
  next
    case meta: True
    show ?thesis
    proof (cases "transactions block = []")
      case False
      have len: "length ?as = 0 + length (transactions block)" using meta by (simp add: block_attributes_def)
      from False meta show ?thesis
        using assms unfolding buildExecutives_def sel Let_def len
        by (intro buildStates_flags) (auto simp: block_attributes_def sel)
    next
      case True
      with meta assms show ?thesis
        by (auto simp: buildExecutives_def sel block_attributes_def new_executive_def)
    qed
  qed
  then show ?thesis by (simp add: in_set_conv_nth Bex_def) metis
qed

subsection \<open>Whole executions\<close>

text \<open>
  A successful execution of a block: one receipt per transaction, in the order of the
  transactions and appended to the block, and a header with the block's number, the gas of the
  receipts summed up modulo \<open>2^64\<close> and the exclusive or of the executors' hashes.
\<close>

definition executed_block ::
  "world \<Rightarrow> Block \<Rightarrow> bool \<Rightarrow> ExecutorManager \<Rightarrow> BlockExecutive \<Rightarrow> BlockHeader \<Rightarrow> bool"
where
  "executed_block w block sync m be header \<longleftrightarrow>
     m_executiveStates be = [] \<and> m_result be = Some header \<and> m_syncBlock be = sync \<and>
     m_block be = block\<lparr>receipts := receipts block @ map receipt (m_executiveResults be)\<rparr> \<and>
     map (\<lambda>r. (resultHash r, source r)) (m_executiveResults be) = block_hashes block \<and>
     (\<forall>r \<in> set (m_executiveResults be). receipt r \<noteq> None) \<and>
     number header = number (blockHeader block) \<and>
     gasUsed header = sum_list (map gas_of (m_executiveResults be)) \<and>
     stateRoot header = foldr (XOR) (map (the \<circ> getHash w) (executorView m)) 0"

lemma built_hashes:
  assumes "built K hs (length hs) be"
  shows "map (\<lambda>r. (resultHash r, source r)) (m_executiveResults be) = hs"
  using assms by (auto simp: built_def intro!: nth_equalityI)

lemma executed_built:
  assumes "executed w be m be' header" and "frame be = frame be0"
    and "built K (block_hashes block) (length (block_hashes block)) be0" and "m_block be0 = block"
    and "m_syncBlock be0 = sync"
  shows "executed_block w block sync m be' header"
  using assms(1) built_hashes [OF assms(3)] assms(4,5)
  unfolding executed_frame [OF assms(2)] by (simp add: executed_def executed_block_def)

lemma batchNextBlock_once:
  assumes "manager_ready m"
  shows "batchNextBlock (manager_size m) (map (nextBlockError w) (executorView m)) =
    [if \<exists>ex \<in> set (executorView m). nextBlockError w ex then Some UnknownError else None]"
proof -
  let ?as = "map (nextBlockError w) (executorView m)"
  have "True \<in> set ?as \<longleftrightarrow> (\<exists>ex \<in> set (executorView m). nextBlockError w ex)" by auto
  moreover have "?as \<noteq> []" using manager_size_ready [OF assms] length_executorView [of m] by fastforce
  ultimately show ?thesis
    using handle_answers_once [of "new_status (manager_size m)" ?as UnknownError]
    by (simp add: batchNextBlock_def)
qed

lemma same_block_frame:
  "same_block (new_executive block start sc sync) be \<Longrightarrow>
     m_block be = block \<and> m_result be = None \<and> m_staticCall be = sc \<and> m_syncBlock be = sync"
  by (simp add: same_block_def new_executive_def)

lemma built_length:
  assumes "built K hs (length hs) be"
  shows "length (m_executiveStates be) = length hs"
proof -
  have "distinct (ids (m_executiveStates be))" "set (ids (m_executiveStates be)) = {0..<int (length hs)}"
    using assms by (simp_all add: built_def states_inv_def)
  then have "length (ids (m_executiveStates be)) = length hs" by (simp flip: distinct_card)
  then show ?thesis by (simp add: ids_def)
qed

text \<open>The only way to fail while the states are built: an address that \<open>preprocessAddress\<close> rejects.\<close>

definition block_targets :: "Block \<Rightarrow> string list" where
  "block_targets block =
     (if transactionsMetaData block \<noteq> [] then map metaTo (transactionsMetaData block)
      else map txTo (transactions block))"

lemma preprocessAddress_error: "preprocessAddress a = Inl e \<Longrightarrow> a \<noteq> '''' \<Longrightarrow> e = OutOfRange \<and> a = ''0''"
  by (auto simp: preprocessAddress_def split: list.splits if_splits)

lemma messageOfMeta_error: "messageOfMeta w start i md = Inl e \<Longrightarrow> e = OutOfRange \<and> metaTo md = ''0''"
  using preprocessAddress_error [of "metaTo md"]
  by (cases "preprocessAddress (metaTo md)") (auto simp: messageOfMeta_def Let_def split: if_splits)

lemma messageOfTransaction_error:
  "messageOfTransaction w auth be i tx = Inl e \<Longrightarrow> e = OutOfRange \<and> txTo tx = ''0''"
  using preprocessAddress_error [of "txTo tx"]
  by (cases "preprocessAddress (txTo tx)") (auto simp: messageOfTransaction_def Let_def split: if_splits)

lemma buildStates_error:
  "buildStates first f info i ts d be = (Inl e, be') \<Longrightarrow> \<exists>j t. t \<in> set ts \<and> f j t = Inl e"
proof (induction ts arbitrary: i d be)
  case (Cons t ts)
  obtain h src dag where info: "info t = (h, src, dag)" by (metis prod_cases3)
  show ?case
  proof (cases "f i t")
    case (Inl e')
    with Cons.prems info show ?thesis by auto
  next
    case (Inr msg)
    then show ?thesis
      using Cons.prems Cons.IH unfolding buildStates_Cons [where info = info and f = f, OF info Inr]
      by (metis list.set_intros(2))
  qed
qed simp

lemma buildExecutives_error:
  assumes "buildExecutives w auth be = (Inl e, be')"
  shows "e = OutOfRange \<and> ''0'' \<in> set (block_targets (m_block be))"
proof (cases "transactionsMetaData (m_block be) = []")
  case False
  then obtain j md where "md \<in> set (transactionsMetaData (m_block be))"
    and "messageOfMeta w (m_startContextID be) j md = Inl e"
    using assms buildStates_error [of False] unfolding buildExecutives_def Let_def by fastforce
  with False messageOfMeta_error [of w "m_startContextID be" j md e] show ?thesis
    by (force simp: block_targets_def)
next
  case True
  then have "transactions (m_block be) \<noteq> []" using assms by (auto simp: buildExecutives_def Let_def)
  with True obtain j tx where "tx \<in> set (transactions (m_block be))"
    and "messageOfTransaction w auth be j tx = Inl e"
    using assms buildStates_error [of True] unfolding buildExecutives_def Let_def by fastforce
  with True messageOfTransaction_error [of w auth be j tx e] show ?thesis
    by (force simp: block_targets_def)
qed

text \<open>The ways in which the execution of a block can end.\<close>

definition block_outcome ::
  "world \<Rightarrow> Block \<Rightarrow> bool \<Rightarrow> (exn + execute_callback list) \<times> BlockExecutive \<times> ExecutorManager \<Rightarrow> bool"
where
  "block_outcome w block sync = (\<lambda>(x, be, m).
     manager_ready m \<and> blockHeader (m_block be) = blockHeader block \<and>
     (case x of
        Inl e \<Rightarrow> m_result be = None \<and>
          (e = Throw UnexpectedKeyLockError \<or> e = OutOfRange \<and> ''0'' \<in> set (block_targets block))
      | Inr cs \<Rightarrow>
          m_result be = None \<and>
            (cs = [] \<and> \<not> dag_answered w \<or>
             cs = [(Some NextBlockError, None)] \<and> (\<exists>ex. nextBlockError w ex) \<or>
             cs = [(Some DAGError, None)] \<and> \<not> dag_answered w \<or>
             cs = [(Some DMTError, None)] \<or>
             cs = [(Some UnknownError, None)] \<and> (\<exists>ex. getHash w ex = None)) \<or>
          (\<exists>header. cs = [(None, Some header)] \<and> executed_block w block sync m be header)))"

lemma execute_outcome_block:
  assumes "execute_outcome w be r" and "\<not> m_staticCall be" and "frame be = frame be1"
    and "built K (block_hashes block) (length (block_hashes block)) be1" and "m_block be1 = block"
    and "m_syncBlock be1 = sync" and "m_result be1 = None"
  shows "block_outcome w block sync r"
proof -
  have *: "executed w be m be' header \<Longrightarrow> executed_block w block sync m be' header" for m be' header
    by (rule executed_built [OF _ assms(3-6)])
  have **: "m_block be' = block \<and> m_result be' = None" if "frame be' = frame be" for be'
    using frameD [OF that] frameD [OF assms(3)] assms(5,7) by simp
  obtain x be' m' where r: "r = (x, be', m')" by (metis prod_cases3)
  show ?thesis
    using assms(1,2) * [of m' be'] ** [of be']
    by (cases x) (auto simp: r execute_outcome_def block_outcome_def executed_block_def)
qed

lemma buildStates_same: "same_block be (snd (buildStates first f info i ts d be))"
proof (induction ts arbitrary: i d be)
  case (Cons t ts)
  obtain h src dag where info: "info t = (h, src, dag)" by (metis prod_cases3)
  show ?case
  proof (cases "f i t")
    case (Inl e)
    with info show ?thesis by (simp add: same_block_def)
  next
    case (Inr msg)
    with Cons.IH [of "add_transaction i msg (d \<or> dag) h src be" "Suc i" "d \<or> dag"] show ?thesis
      unfolding buildStates_Cons [where info = info and f = f, OF info Inr]
      by (simp add: same_block_def add_transaction_def)
  qed
qed (simp add: same_block_def)

lemma buildStates_same_resized:
  "buildStates first f info i ts d (be\<lparr>m_executiveResults := rs\<rparr>) = (x, be') \<Longrightarrow> same_block be be'"
  using buildStates_same [of "be\<lparr>m_executiveResults := rs\<rparr>" first f info i ts d] by (simp add: same_block_def)

lemma buildExecutives_same:
  assumes "buildExecutives w auth be = (x, be')"
  shows "same_block be be'"
proof -
  have "same_block be be" by (simp add: same_block_def)
  with assms show ?thesis
    by (auto simp: buildExecutives_def Let_def split: if_splits intro: buildStates_same_resized)
qed

context batch_environment
begin

text \<open>
  How the callbacks of a block depend on one another: after the states are built and the executors
  have accepted the block, either the parallel phase fails or \<open>DMTExecute\<close> runs on a
  well-formed execution.
\<close>

lemma asyncExecute_cases:
  fixes fuel :: nat
  assumes m: "manager_ready m" and w: "dag_permuting w" "dag_messages w"
    and small: "length (block_hashes block) < 2 ^ 64"
    and built: "buildExecutives w auth (new_executive block start False sync) = (Inr d, be1)"
    and next_ok: "\<not> (\<exists>ex \<in> set (executorView m). nextBlockError w ex)"
  defines "run \<equiv> asyncExecute env w auth fuel (new_executive block start False sync) m"
  shows "\<not> dag_answered w \<and>
      (\<exists>cs be m'. run = Some (Inr cs, be, m') \<and> manager_ready m' \<and> frame be = frame be1 \<and>
         cs \<in> {[], [(Some DAGError, None)]}) \<or>
    (\<exists>be2 m2. run = DMTExecute env w fuel 0 be2 m2 \<and> executive_inv be2 \<and> manager_ready m2 \<and>
       frame be2 = frame be1 \<and>
       list_all2 (\<lambda>(k, st) (k', st'). dag_result (dag_responses w) st st' \<or> st' = st)
         (m_executiveStates be1) (m_executiveStates be2))"
proof -
  note B = buildExecutives_built [OF built]
  note sb = same_block_frame [OF B(2)]
  have inv: "executive_inv be1" by (rule built_executive_inv [OF B(1)])
  have fresh: "m_result (new_executive block start False sync) = None" by (simp add: new_executive_def)
  have start: "run = (if d then
      (case DAGExecute env w be1 m of
         (Inl e, be, m) \<Rightarrow> Some (Inl e, be, m)
       | (Inr [], be, m) \<Rightarrow> Some (Inr [], be, m)
       | (Inr (Some _ # _), be, m) \<Rightarrow> Some (Inr [(Some DAGError, None)], be, m)
       | (Inr (None # _), be, m) \<Rightarrow> DMTExecute env w fuel 0 be m)
      else DMTExecute env w fuel 0 be1 m)"
    using next_ok sb by (simp add: run_def asyncExecute_def fresh built batchNextBlock_once [OF m])
  show ?thesis
  proof (cases d)
    case False
    moreover have "list_all2 (\<lambda>(k, st) (k', st'). dag_result (dag_responses w) st st' \<or> st' = st)
        (m_executiveStates be1) (m_executiveStates be1)"
      by (simp add: list_all2_same case_prod_unfold)
    ultimately show ?thesis using start inv m by auto
  next
    case True
    have "length (m_executiveStates be1) < 2 ^ 64" using built_length [OF B(1)] small by simp
    from DAGExecute_run [OF inv m w(1) this]
    obtain calls be2 m2 where dag: "DAGExecute env w be1 m = (Inr calls, be2, m2)"
      and m2: "manager_ready m2" and fr: "frame be2 = frame be1"
      and calls: "calls = [None] \<and> executive_inv be2 \<and>
          list_all2 (\<lambda>(k, st) (k', st'). k' = k \<and> dag_result (dag_responses w) st st')
            (m_executiveStates be1) (m_executiveStates be2) \<or>
        \<not> dag_answered w \<and> (\<exists>n. calls = replicate n (Some DAGError))"
      using w(2) by blast
    from calls show ?thesis
    proof (elim disjE conjE exE)
      assume c: "calls = [None]" "executive_inv be2" and
        rel: "list_all2 (\<lambda>(k, st) (k', st'). k' = k \<and> dag_result (dag_responses w) st st')
          (m_executiveStates be1) (m_executiveStates be2)"
      from rel have "list_all2 (\<lambda>(k, st) (k', st'). dag_result (dag_responses w) st st' \<or> st' = st)
          (m_executiveStates be1) (m_executiveStates be2)"
        by (rule list_all2_mono) auto
      with c show ?thesis using start True dag m2 fr by auto
    next
      fix n assume "\<not> dag_answered w" "calls = replicate n (Some DAGError)"
      then show ?thesis using start True dag m2 fr by (cases n) auto
    qed
  qed
qed

lemma asyncExecute_block:
  assumes m: "manager_ready m" and w: "permuting w" "dag_permuting w" "dag_messages w"
    and small: "length (block_hashes block) < 2 ^ 64"
    and run: "asyncExecute env w auth fuel (new_executive block start False sync) m = Some r"
  shows "block_outcome w block sync r"
proof -
  let ?be = "new_executive block start False sync"
  have fresh: "m_result ?be = None" "m_block ?be = block" by (simp_all add: new_executive_def)
  obtain x be1 where built: "buildExecutives w auth ?be = (x, be1)" by fastforce
  show ?thesis
  proof (cases x)
    case (Inl e)
    with run built buildExecutives_error [of w auth ?be e be1] m
      same_block_frame [OF buildExecutives_same [OF built]] show ?thesis
      by (auto simp: asyncExecute_def fresh block_outcome_def)
  next
    case (Inr d)
    note B = buildExecutives_built [OF built [unfolded Inr]]
    note sb = same_block_frame [OF B(2)]
    show ?thesis
    proof (cases "\<exists>ex \<in> set (executorView m). nextBlockError w ex")
      case True
      with run sb built Inr batchNextBlock_once [OF m, of w] m show ?thesis
        by (auto simp: asyncExecute_def fresh block_outcome_def)
    next
      case False
      from asyncExecute_cases [OF m w(2,3) small built [unfolded Inr] False, of fuel] run
      consider (bad) cs be m' where "\<not> dag_answered w" "r = (Inr cs, be, m')" "manager_ready m'"
          "frame be = frame be1" "cs \<in> {[], [(Some DAGError, None)]}"
        | (dmt) be2 m2 where "DMTExecute env w fuel 0 be2 m2 = Some r" "executive_inv be2" "manager_ready m2"
          "frame be2 = frame be1"
        by auto
      then show ?thesis
      proof cases
        case bad
        with frameD [OF bad(4)] sb show ?thesis by (auto simp: block_outcome_def)
      next
        case dmt
        then have "\<not> m_staticCall be2" using frameD(3) [OF dmt(4)] sb by simp
        with DMTExecute_outcome [OF w(1) dmt(2,3) dmt(1)] show ?thesis using dmt(4) B(1)
          by (rule execute_outcome_block) (use sb in simp_all)
      qed
    qed
  qed
qed

end

subsection \<open>Termination\<close>

text \<open>Executors that answer the requests of the parallel phase, and every other one, finally.\<close>

definition dag_final :: "world \<Rightarrow> bool" where
  "dag_final w \<longleftrightarrow> dag_answered w \<and>
     (\<forall>a \<in> dag_responses w. \<exists>msg. a = Some msg \<and> msgType msg \<in> {FINISHED, REVERT})"

lemma dag_final_messages: "dag_final w \<Longrightarrow> dag_messages w"
  unfolding dag_final_def dag_messages_def dag_responses_def by fastforce

lemma fresh_weight: "fresh_state [] st \<Longrightarrow> plain_state st \<and> weight st = 2"
  by (auto simp: fresh_state_def plain_state_def weight_def)

lemma dag_result_weight:
  assumes "dag_result (dag_responses w) st st' \<or> st' = st" and "fresh_state [] st" and "dag_final w"
  shows "plain_state st' \<and> weight st' \<le> 2"
proof (cases "st' = st")
  case True
  with fresh_weight [OF assms(2)] show ?thesis by simp
next
  case False
  with assms(1) have c: "callStack st' = [currentSeq st]" and msg: "message st' \<in> dag_responses w"
    using assms(2) by (auto simp: dag_result_def fresh_state_def split: if_splits)
  from msg assms(3) obtain msg where "message st' = Some msg" "msgType msg \<in> {FINISHED, REVERT}"
    unfolding dag_final_def by blast
  with c show ?thesis by (auto simp: plain_state_def weight_def)
qed

lemma total_weight_bound: "\<forall>st \<in> snd ` set ms. weight st \<le> n \<Longrightarrow> total_weight ms \<le> n * length ms"
  by (induction ms) (auto simp: total_weight_def)

lemma dag_result_states:
  assumes "list_all2 (\<lambda>(k, st) (k', st'). dag_result (dag_responses w) st st' \<or> st' = st) ms ms'"
    and "\<forall>st \<in> snd ` set ms. fresh_state [] st" and "dag_final w"
  shows "(\<forall>st \<in> snd ` set ms'. plain_state st) \<and> total_weight ms' \<le> 2 * length ms"
proof -
  have "plain_state st' \<and> weight st' \<le> 2" if "(k', st') \<in> set ms'" for k' st'
  proof -
    from that obtain i where i: "i < length ms'" "ms' ! i = (k', st')" by (auto simp: in_set_conv_nth)
    then have len: "i < length ms" using assms(1) by (simp add: list_all2_lengthD)
    obtain k st where st: "ms ! i = (k, st)" by fastforce
    then have "dag_result (dag_responses w) st st' \<or> st' = st"
      using list_all2_nthD [OF assms(1) len] i(2) by simp
    moreover have "fresh_state [] st" using assms(2) nth_mem [OF len] st by force
    ultimately show ?thesis using assms(3) by (rule dag_result_weight)
  qed
  then have plain: "\<forall>st \<in> snd ` set ms'. plain_state st" and le: "\<forall>st \<in> snd ` set ms'. weight st \<le> 2" by auto
  from total_weight_bound [OF le] plain show ?thesis using list_all2_lengthD [OF assms(1)] by simp
qed

context batch_environment
begin

lemma asyncExecute_terminates:
  assumes m: "manager_ready m" and w: "permuting w" "dag_permuting w"
    and final: "\<And>n ex msg. final_answer (batchRespond w n ex msg)" "dag_final w"
    and create: "keyLocks (createExecutionMessage w) = []"
    and ok: "\<And>ex. \<not> nextBlockError w ex" "\<And>ex. getHash w ex \<noteq> None"
    and block: "''0'' \<notin> set (block_targets block)" "length (block_hashes block) < 2 ^ 64"
    and fuel: "2 * length (block_hashes block) < fuel"
  shows "\<exists>header be' m'. asyncExecute env w auth fuel (new_executive block start False sync) m =
      Some (Inr [(None, Some header)], be', m') \<and> executed_block w block sync m' be' header"
proof -
  let ?be = "new_executive block start False sync"
  let ?run = "asyncExecute env w auth fuel ?be m"
  have dm: "dag_messages w" and da: "dag_answered w"
    using final(2) dag_final_messages by (auto simp: dag_final_def)
  have "\<not> (\<exists>e be. buildExecutives w auth ?be = (Inl e, be))"
    using buildExecutives_error [of w auth ?be] block(1) by (auto simp: new_executive_def)
  then obtain d be1 where built: "buildExecutives w auth ?be = (Inr d, be1)"
    by (cases "buildExecutives w auth ?be"; cases "fst (buildExecutives w auth ?be)") auto
  note B = buildExecutives_built [OF built, unfolded create]
  have fresh: "\<forall>st \<in> snd ` set (m_executiveStates be1). fresh_state [] st" using B(1) by (simp add: built_def)
  have "\<not> (\<exists>ex \<in> set (executorView m). nextBlockError w ex)" using ok(1) by blast
  from asyncExecute_cases [OF m w(2) dm block(2) built this, of fuel] da
  obtain be2 m2 where run: "?run = DMTExecute env w fuel 0 be2 m2" and inv: "executive_inv be2" "manager_ready m2"
    and rel: "list_all2 (\<lambda>(k, st) (k', st'). dag_result (dag_responses w) st st' \<or> st' = st)
       (m_executiveStates be1) (m_executiveStates be2)"
    by blast
  note light = dag_result_states [OF rel fresh final(2)]
  have "total_weight (m_executiveStates be2) < fuel"
    using light fuel built_length [OF B(1)] by simp
  from DMTExecute_terminates [OF w(1) final(1) inv conjunct1 [OF light] this, of 0]
  obtain cs be' m' where r: "?run = Some (Inr cs, be', m')" and cs: "(Some DMTError, None) \<notin> set cs"
    unfolding run by blast
  from asyncExecute_block [OF m w dm block(2) r] cs ok da r show ?thesis
    by (auto simp: block_outcome_def)
qed

end

subsection \<open>Read-only calls\<close>

definition call_outcome ::
  "Block \<Rightarrow> (exn + execute_callback list) \<times> BlockExecutive \<times> ExecutorManager \<Rightarrow> bool"
where
  "call_outcome block = (\<lambda>(x, be, m).
     manager_ready m \<and>
     (case x of
        Inl e \<Rightarrow> e = Throw UnexpectedKeyLockError \<or> e = OutOfRange \<and> ''0'' \<in> set (block_targets block)
      | Inr cs \<Rightarrow>
          cs = [(Some DMTError, None)] \<or>
          cs = [(None, None)] \<and> length (m_executiveResults be) = length (block_hashes block) \<and>
            (\<forall>r \<in> set (m_executiveResults be). receipt r \<noteq> None) \<and>
            receipts (m_block be) = receipts block @ map receipt (m_executiveResults be)))"

lemma asyncExecute_static:
  assumes "buildExecutives w auth (new_executive block start True sync) = (Inr d, be)"
  shows "asyncExecute env w auth fuel (new_executive block start True sync) m = DMTExecute env w fuel 0 be m"
  using assms same_block_frame [OF buildExecutives_built(2) [OF assms]]
  by (simp add: asyncExecute_def new_executive_def)

context batch_environment
begin

lemma asyncExecute_call:
  assumes m: "manager_ready m" and w: "permuting w"
    and run: "asyncExecute env w auth fuel (new_executive block start True sync) m = Some r"
  shows "call_outcome block r"
proof -
  let ?be = "new_executive block start True sync"
  have fresh: "m_result ?be = None" "m_block ?be = block" by (simp_all add: new_executive_def)
  obtain x be1 where built: "buildExecutives w auth ?be = (x, be1)" by fastforce
  show ?thesis
  proof (cases x)
    case (Inl e)
    with run built buildExecutives_error [of w auth ?be e be1] m show ?thesis
      by (auto simp: asyncExecute_def fresh call_outcome_def)
  next
    case (Inr d)
    note B = buildExecutives_built [OF built [unfolded Inr]]
    note sb = same_block_frame [OF B(2)]
    have "DMTExecute env w fuel 0 be1 m = Some r"
      using run unfolding asyncExecute_static [OF built [unfolded Inr]] .
    note out = DMTExecute_outcome [OF w built_executive_inv [OF B(1)] m this]
    have len: "answered_call be1 be \<Longrightarrow> length (m_executiveResults be) = length (block_hashes block)" for be
      unfolding answered_call_def built_hashes [OF B(1)] by (metis length_map)
    obtain y be' m' where r: "r = (y, be', m')" by (metis prod_cases3)
    show ?thesis
      using out sb len [of be'] by (cases y) (auto simp: r execute_outcome_def call_outcome_def answered_call_def)
  qed
qed

lemma asyncExecute_call_terminates:
  assumes m: "manager_ready m" and w: "permuting w"
    and final: "\<And>n ex msg. final_answer (batchRespond w n ex msg)"
    and create: "keyLocks (createExecutionMessage w) = []"
    and block: "''0'' \<notin> set (block_targets block)" and fuel: "2 * length (block_hashes block) < fuel"
  shows "\<exists>be' m'. asyncExecute env w auth fuel (new_executive block start True sync) m = Some (Inr [(None, None)], be', m')"
proof -
  let ?be = "new_executive block start True sync"
  have "\<not> (\<exists>e be. buildExecutives w auth ?be = (Inl e, be))"
    using buildExecutives_error [of w auth ?be] block by (auto simp: new_executive_def)
  then obtain d be1 where built: "buildExecutives w auth ?be = (Inr d, be1)"
    by (cases "buildExecutives w auth ?be"; cases "fst (buildExecutives w auth ?be)") auto
  note B = buildExecutives_built [OF built, unfolded create]
  have fresh: "\<forall>st \<in> snd ` set (m_executiveStates be1). fresh_state [] st" using B(1) by (simp add: built_def)
  then have plain: "\<forall>st \<in> snd ` set (m_executiveStates be1). plain_state st" using fresh_weight by blast
  have "\<forall>st \<in> snd ` set (m_executiveStates be1). weight st \<le> 2"
    using fresh fresh_weight by (metis order_refl)
  from total_weight_bound [OF this] have "total_weight (m_executiveStates be1) < fuel"
    using fuel built_length [OF B(1)] by simp
  from DMTExecute_terminates [OF w final built_executive_inv [OF B(1)] m plain this, of 0]
  obtain cs be' m' where r: "asyncExecute env w auth fuel ?be m = Some (Inr cs, be', m')"
    and cs: "(Some DMTError, None) \<notin> set cs"
    unfolding asyncExecute_static [OF built] by blast
  from asyncExecute_call [OF m w r] cs r show ?thesis by (auto simp: call_outcome_def)
qed

end

subsection \<open>A world for evaluation\<close>

definition sample_world :: world where
  "sample_world =
     \<lparr>batchRespond = (\<lambda>_ _ msg. Response (msg\<lparr>msgType := FINISHED\<rparr>)), arrival = (\<lambda>_. id),
      dagRespond = (\<lambda>_ msgs. (False, map (\<lambda>_. Some ((sample_message 0)\<lparr>msgType := FINISHED\<rparr>)) msgs)),
      dagArrival = id, nextBlockError = (\<lambda>_. False), getHash = (\<lambda>ex. Some (of_nat ex)),
      createExecutionMessage = sample_message 0, toHex = id, calculateTransactionRoot = (\<lambda>_. 1),
      calculateReceiptRoot = (\<lambda>_. 2), AUTH_COMMITTEE_ADDRESS = ''a''\<rparr>"

definition sample_block :: Block where
  "sample_block =
     \<lparr>blockHeader = \<lparr>number = 5, stateRoot = 0, gasUsed = 0, txsRoot = 0, receiptsRoot = 0\<rparr>,
      transactionsMetaData =
        [\<lparr>metaHash = 11, metaTo = ''c'', metaSource = '''', metaAttribute = [DAG]\<rparr>,
         \<lparr>metaHash = 12, metaTo = ''0xD'', metaSource = '''', metaAttribute = []\<rparr>],
      transactions = [], receipts = []\<rparr>"

lemma sample_world_ok:
  "permuting sample_world" "dag_permuting sample_world" "dag_final sample_world" "dag_messages sample_world"
  "final_answer (batchRespond sample_world n ex msg)" "keyLocks (createExecutionMessage sample_world) = []"
  "\<not> nextBlockError sample_world ex" "getHash sample_world ex \<noteq> None"
proof -
  show "dag_final sample_world"
    by (auto simp: dag_final_def dag_answered_def dag_responses_def sample_world_def)
  then show "dag_messages sample_world" by (rule dag_final_messages)
qed (simp_all add: permuting_def dag_permuting_def final_answer_def sample_world_def sample_message_def)

lemma sample_block_ok:
  "''0'' \<notin> set (block_targets sample_block)" "length (block_hashes sample_block) = 2"
  by (simp_all add: block_targets_def block_hashes_def sample_block_def)

subsection \<open>Properties\<close>





text \<open>
  (C34) The DAG attribute of a transaction is inherited by all later transactions of the block: a state is
  marked for the parallel phase exactly if its own transaction or an earlier one has it, and the
  phase takes place exactly if some transaction has it.
\<close>

theorem enableDAG_sticky:
  assumes "buildExecutives w auth (new_executive block start sc sync) = (Inr withDAG, be)"
  shows "(withDAG \<longleftrightarrow> (\<exists>as \<in> set (block_attributes block). DAG \<in> set as)) \<and>
    (\<forall>st \<in> snd ` set (m_executiveStates be).
       enableDAG st \<longleftrightarrow> (\<exists>j \<le> nat (contextID st). DAG \<in> set (block_attributes block ! j)))"
  using assms by (rule buildExecutives_flags)

theorem enableDAG_sticky_witness:
  "\<exists>be. buildExecutives sample_world False (new_executive sample_block 0 False False) = (Inr True, be) \<and>
     map (\<lambda>((to, _), st). (to, enableDAG st)) (m_executiveStates be) = [(''c'', True), (''d'', True)] \<and>
     (\<exists>j \<le> nat 1. DAG \<in> set (block_attributes sample_block ! j))"
proof -
  let ?b = "buildExecutives sample_world False (new_executive sample_block 0 False False)"
  have run: "?b = (Inr True, snd ?b)" and
    st: "map (\<lambda>((to, _), st). (to, enableDAG st)) (m_executiveStates (snd ?b)) = [(''c'', True), (''d'', True)]" and
    mem: "\<exists>st \<in> snd ` set (m_executiveStates (snd ?b)). contextID st = 1 \<and> enableDAG st"
    by code_simp+
  from enableDAG_sticky [OF run] mem have "\<exists>j \<le> nat 1. DAG \<in> set (block_attributes sample_block ! j)" by metis
  with run st show ?thesis by metis
qed

subsection \<open>The parallel phase\<close>



lemma dagStep_failed:
  assumes "\<And>ex msgs. dagRespond w ex msgs = (True, [])" and "totalCount d \<noteq> 0"
  shows "totalCount (fold (dagStep w) gs d) = totalCount d \<and> dagCalls (fold (dagStep w) gs d) = dagCalls d"
  using assms
proof (induction gs arbitrary: d)
  case (Cons g gs)
  obtain ex ctxs msgs where g: "g = (ex, ctxs, msgs)" by (metis prod_cases3)
  have "totalCount (dagStep w g d) = totalCount d" "dagCalls (dagStep w g d) = dagCalls d"
    using assms(1) Cons.prems(2) by (simp_all add: g dagStep_def dagCallback_def Let_def)
  with Cons show ?case by simp
qed simp

text \<open>
  (C35) The counter of open requests is lowered by the number of answers, not of requests: if the executors
  report an error, and no answers with it, the callback of a phase with marked states is never
  called, and neither is that of the block's execution.
\<close>

theorem DAGExecute_error_hangs:
  assumes "batch_environment env" and "executive_inv be" and "manager_ready m"
    and "\<And>ex msgs. dagRespond w ex msgs = (True, [])"
    and "\<exists>st \<in> snd ` set (m_executiveStates be). enableDAG st" and "length (m_executiveStates be) < 2 ^ 64"
  shows "\<exists>be' m'. DAGExecute env w be m = (Inr [], be', m')"
proof -
  let ?ms = "m_executiveStates be"
  define reqs where "reqs = filter (\<lambda>(_, st). enableDAG st) ?ms"
  have ne: "reqs \<noteq> []" using assms(5) by (force simp: reqs_def filter_empty_conv)
  have "length reqs < 2 ^ 64" using assms(6) by (metis le_less_trans length_filter_le reqs_def)
  then have "(of_nat (length reqs) :: 64 word) \<noteq> 0"
    using ne by (auto simp: word_of_nat_eq_0_iff dest: nat_dvd_not_less)
  then have none: "dagCalls (fold (dagStep w) gs \<lparr>dag_states = ms, totalCount = of_nat (length reqs),
      dagFailed = 0, dagCalls = []\<rparr>) = []" for gs ms
    using dagStep_failed [OF assms(4)] by simp
  have "states_inv ?ms" using assms(2) by (simp add: executive_inv_def)
  from batch_environment.dagSend_ok [OF assms(1) dagContracts_distinct [OF this] assms(3), of ?ms]
  obtain groups ms' m' where "dagSend env (dagContracts ?ms) ?ms m = (Inr groups, ms', m')" by blast
  with ne none show ?thesis
    by (simp add: DAGExecute_def Let_def reqs_def [symmetric] dagStep_def [symmetric])
qed

theorem DAGExecute_error_hangs_witness:
  "\<exists>be' m'. DAGExecute sample_env (sample_world\<lparr>dagRespond := \<lambda>_ _. (True, [])\<rparr>)
     (snd (buildExecutives sample_world False (new_executive sample_block 0 False False))) sample_manager =
       (Inr [], be', m')"
proof -
  let ?b = "buildExecutives sample_world False (new_executive sample_block 0 False False)"
  have run: "?b = (Inr True, snd ?b)" and
    mem: "\<exists>st \<in> snd ` set (m_executiveStates (snd ?b)). enableDAG st" by code_simp+
  note B = buildExecutives_built(1) [OF run]
  have "length (m_executiveStates (snd ?b)) < 2 ^ 64" using built_length [OF B] sample_block_ok(2) by simp
  then show ?thesis
    by (intro DAGExecute_error_hangs [OF sample.batch_environment_axioms built_executive_inv [OF B]
          sample_manager_ready _ mem]) simp_all
qed

subsection \<open>Notification\<close>

lemma notifyResults_ok:
  assumes "\<forall>r \<in> set rs. receipt r \<noteq> None" and "sync \<longrightarrow> index + length rs \<le> length txs"
  shows "\<exists>out. notifyResults h sync txs index rs = Inr out \<and> length out = length rs \<and>
    (\<forall>i < length rs. out ! i =
       \<lparr>transactionIndex = index + i, submitTxHash = resultHash (rs ! i), submitBlockHash = h,
        submitStatus = receiptStatus (the (receipt (rs ! i))), transactionReceipt = the (receipt (rs ! i)),
        submitNonce = (if sync then Some (txNonce (txs ! (index + i))) else None)\<rparr>)"
  using assms
proof (induction rs arbitrary: index)
  case (Cons r rs)
  obtain rc where rc: "receipt r = Some rc" using Cons.prems(1) by auto
  from Cons.IH [of "Suc index"] Cons.prems
  obtain out where "notifyResults h sync txs (Suc index) rs = Inr out" "length out = length rs"
    and out: "\<forall>i < length rs. out ! i =
       \<lparr>transactionIndex = Suc index + i, submitTxHash = resultHash (rs ! i), submitBlockHash = h,
        submitStatus = receiptStatus (the (receipt (rs ! i))), transactionReceipt = the (receipt (rs ! i)),
        submitNonce = (if sync then Some (txNonce (txs ! (Suc index + i))) else None)\<rparr>"
    by auto
  then show ?case using rc Cons.prems(2) by (auto simp: nth_Cons split: nat.split)
qed simp

lemma asyncNotify_ok:
  assumes "\<forall>r \<in> set (m_executiveResults be). receipt r \<noteq> None"
    and "m_syncBlock be \<longrightarrow> length (m_executiveResults be) \<le> length (transactions (m_block be))"
  shows "\<exists>rs. asyncNotify True headerHash be = Inr (Some (block_number be, rs)) \<and>
    length rs = length (m_executiveResults be) \<and>
    (\<forall>i < length rs. rs ! i =
       \<lparr>transactionIndex = i, submitTxHash = resultHash (m_executiveResults be ! i),
        submitBlockHash = headerHash (blockHeader (m_block be)),
        submitStatus = receiptStatus (the (receipt (m_executiveResults be ! i))),
        transactionReceipt = the (receipt (m_executiveResults be ! i)),
        submitNonce = (if m_syncBlock be then Some (txNonce (transactions (m_block be) ! i)) else None)\<rparr>)"
  using notifyResults_ok [OF assms(1), of "m_syncBlock be" 0 "transactions (m_block be)"
      "headerHash (blockHeader (m_block be))"] assms(2)
  by (auto simp: asyncNotify_def)

text \<open>
  (C33) After a successful execution the notifier is told, for every transaction of the block and in its order,
  the index, the hash, and the status and receipt that were appended to the block; for a synchronised block also
  the nonce, provided that the block holds the transactions themselves and not only their meta data.
\<close>

theorem asyncNotify_reports:
  assumes "executed_block w block sync m be header"
    and "sync \<longrightarrow> length (block_hashes block) \<le> length (transactions block)"
  shows "\<exists>rs. asyncNotify True headerHash be = Inr (Some (block_number be, rs)) \<and>
    length rs = length (block_hashes block) \<and>
    (\<forall>i < length rs.
       transactionIndex (rs ! i) = i \<and> submitTxHash (rs ! i) = fst (block_hashes block ! i) \<and>
       submitBlockHash (rs ! i) = headerHash (blockHeader (m_block be)) \<and>
       receipts (m_block be) ! (length (receipts block) + i) = Some (transactionReceipt (rs ! i)) \<and>
       submitStatus (rs ! i) = receiptStatus (transactionReceipt (rs ! i)) \<and>
       submitNonce (rs ! i) = (if sync then Some (txNonce (transactions block ! i)) else None))"
proof -
  have hs: "map (\<lambda>r. (resultHash r, source r)) (m_executiveResults be) = block_hashes block"
    and rc: "\<forall>r \<in> set (m_executiveResults be). receipt r \<noteq> None"
    and rcs: "receipts (m_block be) = receipts block @ map receipt (m_executiveResults be)"
    and keep: "m_syncBlock be = sync" "transactions (m_block be) = transactions block"
    using assms(1) by (simp_all add: executed_block_def)
  have len: "length (m_executiveResults be) = length (block_hashes block)" using arg_cong [OF hs, of length] by simp
  have "resultHash (m_executiveResults be ! i) = fst (block_hashes block ! i)" if "i < length (m_executiveResults be)" for i
    using that by (simp flip: hs)
  moreover have "receipts (m_block be) ! (length (receipts block) + i) = Some (the (receipt (m_executiveResults be ! i)))"
    if "i < length (m_executiveResults be)" for i
    using that rc nth_mem [OF that] by (simp add: rcs)
  ultimately show ?thesis using asyncNotify_ok [OF rc, of headerHash] assms(2) len keep by auto
qed

theorem asyncNotify_reports_witness:
  "\<exists>header be' m' rs. asyncExecute sample_env sample_world False 5 (new_executive sample_block 0 False False) sample_manager =
      Some (Inr [(None, Some header)], be', m') \<and>
     asyncNotify True stateRoot be' = Inr (Some (block_number be', rs)) \<and> length rs = 2"
proof -
  obtain header be' m' where run: "asyncExecute sample_env sample_world False 5
      (new_executive sample_block 0 False False) sample_manager = Some (Inr [(None, Some header)], be', m')"
    and ok: "executed_block sample_world sample_block False m' be' header"
    using sample.asyncExecute_terminates [OF sample_manager_ready sample_world_ok(1,2,5,3,6,7,8)
        sample_block_ok(1), of 5] sample_block_ok(2) by fastforce
  from asyncNotify_reports [OF ok, of stateRoot] run sample_block_ok(2) show ?thesis by auto
qed

end
