(* ===== verification/Ledger_Config.thy ===== *)
theory Ledger_Config
  imports Checksum_Address
begin

text \<open>
  \<open>asyncGetLedgerConfig\<close> of \<^verbatim>\<open>SchedulerImpl.cpp\<close>: six answers of the ledger are collected into one
  \<open>LedgerConfig\<close>. The closure \<open>collecter\<close> stores an answer, counts it and then checks whether all
  are there; \<open>collecter_count\<close> and \<open>collecter_check\<close> are its two halves. As in the fan-outs of a
  block, the answers are modelled one after the other, in any order, and as the interleaving
  relation \<open>collecter_step\<close>.

  The ledger, the defaults of a \<open>LedgerConfig\<close> and \<open>boost::lexical_cast<uint64_t>\<close> are code outside
  the repository and parameters.
\<close>

subsection \<open>The collecter\<close>

record LedgerConfig =
  consensusNodeList :: "string list"
  observerNodeList :: "string list"
  blockTxCountLimit :: "64 word"
  leaderSwitchPeriod :: "64 word"
  configBlockNumber :: int
  configHash :: h256

text \<open>The alternatives of the \<open>std::variant\<close>; a node list is a pointer.\<close>

datatype config_result =
    NodeList bool "string list option"
  | SystemConfig int string
  | ConfigNumber int
  | ConfigHash h256

type_synonym config_answer = "bool \<times> config_result"
type_synonym config_callback = "SchedulerError option \<times> LedgerConfig option"

record collecter =
  ledgerConfig :: LedgerConfig
  c_total :: nat
  c_success :: nat
  c_failed :: nat
  c_calls :: "config_callback list"

definition new_collecter :: "LedgerConfig \<Rightarrow> collecter" where
  "new_collecter config =
     \<lparr>ledgerConfig = config, c_total = 6, c_success = 0, c_failed = 0, c_calls = []\<rparr>"

text \<open>\<open>std::visit\<close>.\<close>

fun visit_result ::
  "(string \<Rightarrow> exn + 64 word) \<Rightarrow> config_result \<Rightarrow> LedgerConfig \<Rightarrow> exn + LedgerConfig"
where
  "visit_result lexical_cast (NodeList isSealer None) config = Inl NullDereference"
| "visit_result lexical_cast (NodeList isSealer (Some nodes)) config =
     Inr (if isSealer then config\<lparr>consensusNodeList := nodes\<rparr> else config\<lparr>observerNodeList := nodes\<rparr>)"
| "visit_result lexical_cast (SystemConfig type value) config =
     (if type = 0 then map_sum id (\<lambda>n. config\<lparr>blockTxCountLimit := n\<rparr>) (lexical_cast value)
      else if type = 1 then map_sum id (\<lambda>n. config\<lparr>leaderSwitchPeriod := n\<rparr>) (lexical_cast value)
      else Inl (Throw UnknownError))"
| "visit_result lexical_cast (ConfigNumber n) config = Inr (config\<lparr>configBlockNumber := n\<rparr>)"
| "visit_result lexical_cast (ConfigHash h) config = Inr (config\<lparr>configHash := h\<rparr>)"

definition collecter_count ::
  "(string \<Rightarrow> exn + 64 word) \<Rightarrow> config_answer \<Rightarrow> collecter \<Rightarrow> exn + collecter"
where
  "collecter_count lexical_cast answer c =
     (if fst answer then Inr (c\<lparr>c_failed := c_failed c + 1\<rparr>)
      else map_sum id (\<lambda>config. c\<lparr>ledgerConfig := config, c_success := c_success c + 1\<rparr>)
             (visit_result lexical_cast (snd answer) (ledgerConfig c)))"

definition collecter_check :: "collecter \<Rightarrow> collecter" where
  "collecter_check c =
     (if c_success c + c_failed c = c_total c
      then c\<lparr>c_calls := c_calls c @
               [if c_failed c > 0 then (Some UnknownError, None) else (None, Some (ledgerConfig c))]\<rparr>
      else c)"

text \<open>An exception leaves through the ledger's callback: the answer is not counted.\<close>

definition collect :: "(string \<Rightarrow> exn + 64 word) \<Rightarrow> config_answer \<Rightarrow> collecter \<Rightarrow> collecter" where
  "collect lexical_cast answer c =
     (case collecter_count lexical_cast answer c of Inl e \<Rightarrow> c | Inr c' \<Rightarrow> collecter_check c')"

subsection \<open>The ledger and its answers\<close>

record ledger =
  nodeListByType :: "bool \<Rightarrow> bool \<times> string list option"  \<comment> \<open>sealers or observers\<close>
  systemConfigByKey :: "int \<Rightarrow> bool \<times> string"              \<comment> \<open>transaction limit (0), leader period (1)\<close>
  ledgerBlockNumber :: "bool \<times> int"
  blockHashByNumber :: "int \<Rightarrow> bool \<times> h256"

text \<open>
  The handler of the block number asks for the hash with the number it got, also if there was an
  error, before it passes the number on.
\<close>

definition ledger_answers :: "ledger \<Rightarrow> config_answer list" where
  "ledger_answers l =
     [map_prod id (NodeList True) (nodeListByType l True),
      map_prod id (NodeList False) (nodeListByType l False),
      map_prod id (SystemConfig 0) (systemConfigByKey l 0),
      map_prod id (SystemConfig 1) (systemConfigByKey l 1),
      map_prod id ConfigHash (blockHashByNumber l (snd (ledgerBlockNumber l))),
      map_prod id ConfigNumber (ledgerBlockNumber l)]"

definition asyncGetLedgerConfig ::
  "(string \<Rightarrow> exn + 64 word) \<Rightarrow> LedgerConfig \<Rightarrow> ledger \<Rightarrow> (config_answer list \<Rightarrow> config_answer list) \<Rightarrow>
     config_callback list"
where
  "asyncGetLedgerConfig lexical_cast config l order =
     c_calls (fold (collect lexical_cast) (order (ledger_answers l)) (new_collecter config))"

subsection \<open>Interleaved handlers\<close>

text \<open>The state of a run: the collecter, the answers to come, and the handlers between their two halves.\<close>

type_synonym collecter_run = "collecter \<times> config_answer multiset \<times> nat"

inductive collecter_step :: "(string \<Rightarrow> exn + 64 word) \<Rightarrow> collecter_run \<Rightarrow> collecter_run \<Rightarrow> bool"
  for lexical_cast
where
  count: "collecter_count lexical_cast a c = Inr c' \<Longrightarrow>
    collecter_step lexical_cast (c, add_mset a todo, running) (c', todo, Suc running)"
| throw: "collecter_count lexical_cast a c = Inl e \<Longrightarrow>
    collecter_step lexical_cast (c, add_mset a todo, running) (c, todo, running)"
| check: "collecter_step lexical_cast (c, todo, Suc running) (collecter_check c, todo, running)"

inductive_cases collecter_stepE [elim]: "collecter_step lexical_cast x y"

subsection \<open>Sequential runs\<close>

text \<open>The answers that do not throw, the field an answer is for, and that the field has the answer's value.\<close>

fun accepted :: "(string \<Rightarrow> exn + 64 word) \<Rightarrow> config_result \<Rightarrow> bool" where
  "accepted lexical_cast (NodeList _ nodes) \<longleftrightarrow> nodes \<noteq> None"
| "accepted lexical_cast (SystemConfig type value) \<longleftrightarrow> type \<in> {0, 1} \<and> (\<exists>n. lexical_cast value = Inr n)"
| "accepted lexical_cast _ \<longleftrightarrow> True"

fun field :: "config_result \<Rightarrow> nat" where
  "field (NodeList isSealer _) = (if isSealer then 0 else 1)"
| "field (SystemConfig type _) = (if type = 0 then 2 else 3)"
| "field (ConfigNumber _) = 4"
| "field (ConfigHash _) = 5"

fun stored :: "(string \<Rightarrow> exn + 64 word) \<Rightarrow> config_result \<Rightarrow> LedgerConfig \<Rightarrow> bool" where
  "stored lexical_cast (NodeList isSealer nodes) c \<longleftrightarrow>
     nodes = Some (if isSealer then consensusNodeList c else observerNodeList c)"
| "stored lexical_cast (SystemConfig type value) c \<longleftrightarrow>
     lexical_cast value = Inr (if type = 0 then blockTxCountLimit c else leaderSwitchPeriod c)"
| "stored lexical_cast (ConfigNumber n) c \<longleftrightarrow> configBlockNumber c = n"
| "stored lexical_cast (ConfigHash h) c \<longleftrightarrow> configHash c = h"

definition counted_answer :: "(string \<Rightarrow> exn + 64 word) \<Rightarrow> config_answer \<Rightarrow> bool" where
  "counted_answer lexical_cast a \<longleftrightarrow> fst a \<or> accepted lexical_cast (snd a)"

lemma visit_result_accepted:
  "accepted lexical_cast r \<Longrightarrow> \<exists>c'. visit_result lexical_cast r c = Inr c'"
  "\<not> accepted lexical_cast r \<Longrightarrow> \<exists>e. visit_result lexical_cast r c = Inl e"
proof -
  have cast: "\<exists>e. lexical_cast v = Inl e" if "\<nexists>n. lexical_cast v = Inr n" for v
    using that by (cases "lexical_cast v") auto
  show "accepted lexical_cast r \<Longrightarrow> \<exists>c'. visit_result lexical_cast r c = Inr c'"
    by (cases r) auto
  show "\<not> accepted lexical_cast r \<Longrightarrow> \<exists>e. visit_result lexical_cast r c = Inl e"
    using cast by (cases r) (fastforce split: if_splits)+
qed

lemma visit_result_stored:
  assumes "visit_result lexical_cast r c = Inr c'"
  shows "stored lexical_cast r c'"
    and "field r' \<noteq> field r \<Longrightarrow> stored lexical_cast r' c \<Longrightarrow> stored lexical_cast r' c'"
proof -
  have cast: "\<exists>n. lexical_cast v = Inr n \<and> c' = f n"
    if "map_sum id f (lexical_cast v) = Inr c'" for v f
    using that by (cases "lexical_cast v") auto
  show "stored lexical_cast r c'"
    using assms cast by (cases "(lexical_cast, r, c)" rule: visit_result.cases) (fastforce split: if_splits)+
  show "field r' \<noteq> field r \<Longrightarrow> stored lexical_cast r' c \<Longrightarrow> stored lexical_cast r' c'"
    using assms cast by (cases "(lexical_cast, r, c)" rule: visit_result.cases; cases r')
      (fastforce split: if_splits)+
qed

lemma collecter_count_result:
  assumes "counted_answer lexical_cast a"
  shows "\<exists>config. collecter_count lexical_cast a c =
      Inr (c\<lparr>ledgerConfig := config, c_success := c_success c + (if fst a then 0 else 1),
             c_failed := c_failed c + (if fst a then 1 else 0)\<rparr>) \<and>
    (\<not> fst a \<longrightarrow> stored lexical_cast (snd a) config) \<and>
    (\<forall>r. field r \<noteq> field (snd a) \<longrightarrow> stored lexical_cast r (ledgerConfig c) \<longrightarrow> stored lexical_cast r config)"
proof (cases "fst a")
  case True
  then show ?thesis by (intro exI [of _ "ledgerConfig c"]) (simp add: collecter_count_def)
next
  case False
  then obtain config where "visit_result lexical_cast (snd a) (ledgerConfig c) = Inr config"
    using assms visit_result_accepted(1) by (force simp: counted_answer_def)
  with False visit_result_stored [OF this] show ?thesis
    by (intro exI [of _ config]) (simp add: collecter_count_def)
qed

lemma collecter_count_throws:
  "\<not> counted_answer lexical_cast a \<Longrightarrow> \<exists>e. collecter_count lexical_cast a c = Inl e"
  using visit_result_accepted(2) [of lexical_cast "snd a" "ledgerConfig c"]
  by (auto simp: collecter_count_def counted_answer_def)

lemma collect_all:
  assumes "\<forall>a \<in> set xs. counted_answer lexical_cast a" and "xs \<noteq> []"
    and "c_success c + c_failed c + length xs = c_total c" and "distinct (map (field \<circ> snd) xs)"
  shows "\<exists>config. c_calls (fold (collect lexical_cast) xs c) = c_calls c @
      [if c_failed c > 0 \<or> (\<exists>a \<in> set xs. fst a) then (Some UnknownError, None) else (None, Some config)] \<and>
    (\<forall>a \<in> set xs. \<not> fst a \<longrightarrow> stored lexical_cast (snd a) config) \<and>
    (\<forall>r. field r \<notin> (field \<circ> snd) ` set xs \<longrightarrow> stored lexical_cast r (ledgerConfig c) \<longrightarrow> stored lexical_cast r config)"
  using assms
proof (induction xs arbitrary: c)
  case (Cons a xs)
  obtain config where count: "collecter_count lexical_cast a c =
      Inr (c\<lparr>ledgerConfig := config, c_success := c_success c + (if fst a then 0 else 1),
             c_failed := c_failed c + (if fst a then 1 else 0)\<rparr>)"
    and st: "\<not> fst a \<longrightarrow> stored lexical_cast (snd a) config"
    and keep: "\<forall>r. field r \<noteq> field (snd a) \<longrightarrow> stored lexical_cast r (ledgerConfig c) \<longrightarrow> stored lexical_cast r config"
    using collecter_count_result [of lexical_cast a c] Cons.prems(1) by auto
  define c' where "c' = c\<lparr>ledgerConfig := config, c_success := c_success c + (if fst a then 0 else 1),
             c_failed := c_failed c + (if fst a then 1 else 0)\<rparr>"
  have sum: "c_success c' + c_failed c' + length xs = c_total c'" using Cons.prems(3) by (simp add: c'_def)
  have step: "collect lexical_cast a c = collecter_check c'" by (simp add: collect_def count c'_def)
  show ?case
  proof (cases "xs = []")
    case True
    with sum st keep show ?thesis
      by (intro exI [of _ config]) (auto simp: step collecter_check_def, auto simp: c'_def)
  next
    case False
    with sum have "collecter_check c' = c'" by (cases xs) (auto simp: collecter_check_def)
    moreover obtain config' where "c_calls (fold (collect lexical_cast) xs c') = c_calls c' @
        [if c_failed c' > 0 \<or> (\<exists>a \<in> set xs. fst a) then (Some UnknownError, None) else (None, Some config')]"
      "\<forall>a \<in> set xs. \<not> fst a \<longrightarrow> stored lexical_cast (snd a) config'"
      and keep': "\<forall>r. field r \<notin> (field \<circ> snd) ` set xs \<longrightarrow> stored lexical_cast r (ledgerConfig c') \<longrightarrow>
        stored lexical_cast r config'"
      using Cons.IH [OF _ False sum] Cons.prems(1,4) by auto
    moreover have "\<not> fst a \<longrightarrow> stored lexical_cast (snd a) config'"
      using st keep' Cons.prems(4) by (simp add: c'_def image_iff)
    ultimately show ?thesis
      using keep by (intro exI [of _ config']) (auto simp: step c'_def)
  qed
qed simp

lemma collect_short:
  assumes "c_success c + c_failed c + length (filter (counted_answer lexical_cast) xs) < c_total c"
  shows "c_calls (fold (collect lexical_cast) xs c) = c_calls c"
  using assms
proof (induction xs arbitrary: c)
  case (Cons a xs)
  show ?case
  proof (cases "counted_answer lexical_cast a")
    case True
    from collecter_count_result [OF True, of c] obtain config where
      count: "collecter_count lexical_cast a c =
      Inr (c\<lparr>ledgerConfig := config, c_success := c_success c + (if fst a then 0 else 1),
             c_failed := c_failed c + (if fst a then 1 else 0)\<rparr>)" (is "_ = Inr ?c") by blast
    have "collect lexical_cast a c = ?c"
      using Cons.prems True by (auto simp: collect_def count collecter_check_def)
    then show ?thesis using Cons.IH [of ?c] Cons.prems True by auto
  next
    case False
    from collecter_count_throws [OF False, of c] have "collect lexical_cast a c = c" by (auto simp: collect_def)
    with Cons False show ?thesis by simp
  qed
qed simp

subsection \<open>The six answers\<close>

definition config_of :: "(string \<Rightarrow> exn + 64 word) \<Rightarrow> ledger \<Rightarrow> LedgerConfig" where
  "config_of lexical_cast l =
     \<lparr>consensusNodeList = the (snd (nodeListByType l True)), observerNodeList = the (snd (nodeListByType l False)),
      blockTxCountLimit = projr (lexical_cast (snd (systemConfigByKey l 0))),
      leaderSwitchPeriod = projr (lexical_cast (snd (systemConfigByKey l 1))),
      configBlockNumber = snd (ledgerBlockNumber l),
      configHash = snd (blockHashByNumber l (snd (ledgerBlockNumber l)))\<rparr>"

lemma ledger_answers_fields: "map (field \<circ> snd) (ledger_answers l) = [0, 1, 2, 3, 5, 4]"
  by (simp add: ledger_answers_def)

lemma config_of_stored:
  assumes "\<forall>a \<in> set (ledger_answers l). stored lexical_cast (snd a) config"
  shows "config = config_of lexical_cast l"
  using assms by (cases config) (simp add: ledger_answers_def config_of_def)

lemma ledger_config_calls:
  assumes "\<And>xs. mset (order xs) = mset xs"
  shows "asyncGetLedgerConfig lexical_cast config l order =
    (if \<forall>a \<in> set (ledger_answers l). counted_answer lexical_cast a then
       [if \<exists>a \<in> set (ledger_answers l). fst a then (Some UnknownError, None)
        else (None, Some (config_of lexical_cast l))]
     else [])"
proof -
  let ?as = "ledger_answers l" and ?c = "new_collecter config"
  have m: "mset (order ?as) = mset ?as" and set: "set (order ?as) = set ?as"
    using assms mset_eq_setD by blast+
  have len: "length ?as = 6" by (simp add: ledger_answers_def)
  then have len': "length (order ?as) = 6" using mset_eq_length [OF m] by simp
  have "mset (map (field \<circ> snd) (order ?as)) = mset (map (field \<circ> snd) ?as)" using m by simp
  then have dist: "distinct (map (field \<circ> snd) (order ?as))"
    using mset_eq_imp_distinct_iff [of "map (field \<circ> snd) (order ?as)" "map (field \<circ> snd) ?as"]
    unfolding ledger_answers_fields by simp
  show ?thesis
  proof (cases "\<forall>a \<in> set ?as. counted_answer lexical_cast a")
    case True
    have "order ?as \<noteq> []" using len' by auto
    then obtain config' where calls: "asyncGetLedgerConfig lexical_cast config l order =
        [if \<exists>a \<in> set ?as. fst a then (Some UnknownError, None) else (None, Some config')]"
      and st: "\<forall>a \<in> set ?as. \<not> fst a \<longrightarrow> stored lexical_cast (snd a) config'"
      using collect_all [of "order ?as" lexical_cast ?c] True dist len' unfolding set
      by (auto simp: asyncGetLedgerConfig_def new_collecter_def)
    show ?thesis
    proof (cases "\<exists>a \<in> set ?as. fst a")
      case err: True
      with calls True show ?thesis by auto
    next
      case False
      with st have "config' = config_of lexical_cast l" by (intro config_of_stored) blast
      with calls True False show ?thesis by auto
    qed
  next
    case False
    have "length (filter (counted_answer lexical_cast) (order ?as)) < 6"
      using False length_filter_less [of _ "order ?as"] len' set by metis
    then have "asyncGetLedgerConfig lexical_cast config l order = []"
      using collect_short [of ?c lexical_cast "order ?as"]
      by (simp add: asyncGetLedgerConfig_def new_collecter_def)
    with False show ?thesis by auto
  qed
qed

text \<open>What the code relies on of \<open>lexical_cast\<close>: it reads the decimal text of a 64-bit number.\<close>

locale uint64_cast =
  fixes lexical_cast :: "string \<Rightarrow> exn + 64 word"
  assumes cast_decimal: "n < 2 ^ 64 \<Longrightarrow> lexical_cast (dec_nat n) = Inr (of_nat n)"
begin

lemma config_of_decimal:
  assumes "snd (systemConfigByKey l 0) = dec_nat limit" and "snd (systemConfigByKey l 1) = dec_nat period"
    and "limit < 2 ^ 64" and "period < 2 ^ 64"
  shows "unat (blockTxCountLimit (config_of lexical_cast l)) = limit"
    and "unat (leaderSwitchPeriod (config_of lexical_cast l)) = period"
    and "accepted lexical_cast (SystemConfig 0 (snd (systemConfigByKey l 0)))"
    and "accepted lexical_cast (SystemConfig 1 (snd (systemConfigByKey l 1)))"
  using assms cast_decimal by (simp_all add: config_of_def unat_of_nat)

end

text \<open>A cast that meets the contract: digits only, no overflow.\<close>

definition decimal_cast :: "string \<Rightarrow> exn + 64 word" where
  "decimal_cast s =
     (if s \<noteq> [] \<and> (\<forall>c \<in> set s. isdigit c) \<and> digits_val s < 2 ^ 64 then Inr (of_nat (digits_val s))
      else Inl BadLexicalCast)"

lemma dec_nat_nonempty: "dec_nat n \<noteq> []"
  by (simp add: dec_nat.simps [of n])

interpretation decimal: uint64_cast decimal_cast
  by unfold_locales (auto simp: decimal_cast_def dec_nat_nonempty digits_val_dec_nat dec_nat_digits)

definition sample_ledger :: ledger where
  "sample_ledger =
     \<lparr>nodeListByType = (\<lambda>sealer. (False, Some (if sealer then [''n1'', ''n2''] else []))),
      systemConfigByKey = (\<lambda>i. (False, if i = 0 then dec_nat 1000 else dec_nat 1)),
      ledgerBlockNumber = (False, 5), blockHashByNumber = (\<lambda>_. (False, 77))\<rparr>"

definition sample_config :: LedgerConfig where
  "sample_config =
     \<lparr>consensusNodeList = [], observerNodeList = [], blockTxCountLimit = 0, leaderSwitchPeriod = 0,
      configBlockNumber = 0, configHash = 0\<rparr>"

lemma sample_ledger_answers:
  "\<forall>a \<in> set (ledger_answers sample_ledger). counted_answer decimal_cast a \<and> \<not> fst a"
  using decimal.cast_decimal by (simp add: ledger_answers_def sample_ledger_def counted_answer_def)

subsection \<open>Properties\<close>

text \<open>
  (C36) Answers one at a time: if no handler throws, \<open>asyncGetLedgerConfig\<close> calls its callback exactly
  once, with an error exactly if some answer was one and otherwise with the configuration made of the six
  answers, whatever their order. If one handler throws (a value that is no number, a missing node
  list), it never calls it.
\<close>

theorem asyncGetLedgerConfig_outcome:
  assumes "\<And>xs. mset (order xs) = mset xs"
  shows "asyncGetLedgerConfig lexical_cast config l order =
    (if \<forall>a \<in> set (ledger_answers l). counted_answer lexical_cast a then
       [if \<exists>a \<in> set (ledger_answers l). fst a then (Some UnknownError, None)
        else (None, Some (config_of lexical_cast l))]
     else [])"
  using assms by (rule ledger_config_calls)

theorem asyncGetLedgerConfig_outcome_witness:
  "asyncGetLedgerConfig decimal_cast sample_config sample_ledger rev =
     [(None, Some (config_of decimal_cast sample_ledger))] \<and>
   asyncGetLedgerConfig decimal_cast sample_config (sample_ledger\<lparr>systemConfigByKey := \<lambda>_. (False, ''many'')\<rparr>) rev = []"
proof -
  have perm: "\<And>xs. mset (rev xs) = mset xs" by simp
  have bad: "\<not> counted_answer decimal_cast (False, SystemConfig 0 ''many'')"
    by (simp add: counted_answer_def decimal_cast_def isdigit_def less_eq_char_def)
  have "(False, SystemConfig 0 ''many'') \<in>
      set (ledger_answers (sample_ledger\<lparr>systemConfigByKey := \<lambda>_. (False, ''many'')\<rparr>))"
    by (simp add: ledger_answers_def)
  with bad asyncGetLedgerConfig_outcome [of rev, OF perm, of decimal_cast sample_config] sample_ledger_answers
  show ?thesis by auto
qed

text \<open>
  (C37) The transaction limit and the leader period that the ledger stores as decimal text are read
  back as the same numbers, for all values of 64 bits.
\<close>

theorem ledger_config_roundtrip:
  assumes "uint64_cast lexical_cast" and "\<And>xs. mset (order xs) = mset xs"
    and "nodeListByType l True = (False, Some sealers)" and "nodeListByType l False = (False, Some observers)"
    and "systemConfigByKey l 0 = (False, dec_nat limit)" and "systemConfigByKey l 1 = (False, dec_nat period)"
    and "ledgerBlockNumber l = (False, n)" and "blockHashByNumber l n = (False, h)"
    and "limit < 2 ^ 64" and "period < 2 ^ 64"
  shows "\<exists>c. asyncGetLedgerConfig lexical_cast config l order = [(None, Some c)] \<and>
    unat (blockTxCountLimit c) = limit \<and> unat (leaderSwitchPeriod c) = period \<and>
    consensusNodeList c = sealers \<and> observerNodeList c = observers \<and> configBlockNumber c = n \<and> configHash c = h"
proof -
  note dec = uint64_cast.config_of_decimal [OF assms(1) _ _ assms(9,10), of l]
  have all: "\<forall>a \<in> set (ledger_answers l). counted_answer lexical_cast a \<and> \<not> fst a"
    using dec(3,4) assms(3-8) by (simp add: ledger_answers_def counted_answer_def)
  then have "asyncGetLedgerConfig lexical_cast config l order = [(None, Some (config_of lexical_cast l))]"
    using ledger_config_calls [of order, OF assms(2)] by auto
  then show ?thesis using dec(1,2) assms(3-8) by (simp add: config_of_def)
qed

theorem ledger_config_roundtrip_witness:
  "\<exists>c. asyncGetLedgerConfig decimal_cast sample_config sample_ledger id = [(None, Some c)] \<and>
     unat (blockTxCountLimit c) = 1000 \<and> configBlockNumber c = 5"
  using ledger_config_roundtrip [OF decimal.uint64_cast_axioms, of id sample_ledger "[''n1'', ''n2'']" "[]" 1000 1 5 77
      sample_config]
  by (auto simp: sample_ledger_def)

lemma count_all:
  assumes "\<forall>a \<in> set xs. counted_answer lexical_cast a"
  shows "\<exists>c'. (collecter_step lexical_cast)\<^sup>*\<^sup>* (c, mset xs, k) (c', {#}, k + length xs) \<and>
    c_success c' + c_failed c' = c_success c + c_failed c + length xs \<and> c_total c' = c_total c \<and> c_calls c' = c_calls c"
  using assms
proof (induction xs arbitrary: c k)
  case (Cons a xs)
  obtain config where count: "collecter_count lexical_cast a c =
      Inr (c\<lparr>ledgerConfig := config, c_success := c_success c + (if fst a then 0 else 1),
             c_failed := c_failed c + (if fst a then 1 else 0)\<rparr>)" (is "_ = Inr ?c")
    using collecter_count_result [of lexical_cast a c] Cons.prems by auto
  have "collecter_step lexical_cast (c, mset (a # xs), k) (?c, mset xs, Suc k)"
    using collecter_step.count [OF count, of "mset xs" k] by simp
  moreover from Cons.IH [of ?c "Suc k"] Cons.prems obtain c' where
    "(collecter_step lexical_cast)\<^sup>*\<^sup>* (?c, mset xs, Suc k) (c', {#}, Suc k + length xs)"
    "c_success c' + c_failed c' = c_success ?c + c_failed ?c + length xs" "c_total c' = c_total ?c" "c_calls c' = c_calls ?c"
    by auto
  ultimately show ?case by (intro exI [of _ c'] conjI) (auto intro: converse_rtranclp_into_rtranclp)
qed auto

lemma check_all:
  "c_success c + c_failed c = c_total c \<Longrightarrow>
   \<exists>c'. (collecter_step lexical_cast)\<^sup>*\<^sup>* (c, {#}, k) (c', {#}, 0) \<and> length (c_calls c') = length (c_calls c) + k"
proof (induction k arbitrary: c)
  case (Suc k)
  have "c_success (collecter_check c) + c_failed (collecter_check c) = c_total (collecter_check c)"
    "length (c_calls (collecter_check c)) = Suc (length (c_calls c))"
    using Suc.prems by (simp_all add: collecter_check_def)
  with Suc.IH [of "collecter_check c"] obtain c' where
    "(collecter_step lexical_cast)\<^sup>*\<^sup>* (collecter_check c, {#}, k) (c', {#}, 0)"
    "length (c_calls c') = Suc (length (c_calls c)) + k" by auto
  moreover have "collecter_step lexical_cast (c, {#}, Suc k) (collecter_check c, {#}, k)"
    by (rule collecter_step.check)
  ultimately show ?case by (intro exI [of _ c'] conjI) (auto intro: converse_rtranclp_into_rtranclp)
qed auto

text \<open>
  (C40) Concurrent handlers: counting and checking are separate steps, so if all six answers are counted
  before the first check, each handler calls the callback. \<open>commitBlock\<close> removes a block in every
  such call.
\<close>

theorem ledger_config_callback_six_times:
  assumes "\<forall>a \<in> set (ledger_answers l). counted_answer lexical_cast a"
  shows "\<exists>c. (collecter_step lexical_cast)\<^sup>*\<^sup>* (new_collecter config, mset (ledger_answers l), 0) (c, {#}, 0) \<and>
    length (c_calls c) = 6"
proof -
  obtain c where c: "(collecter_step lexical_cast)\<^sup>*\<^sup>* (new_collecter config, mset (ledger_answers l), 0) (c, {#}, 6)"
    "c_success c + c_failed c = c_total c" "c_calls c = []"
  proof -
    have "length (ledger_answers l) = 6" by (simp add: ledger_answers_def)
    with count_all [OF assms, of "new_collecter config" 0] that show ?thesis
      by (auto simp: new_collecter_def)
  qed
  with check_all [OF c(2), of lexical_cast 6] show ?thesis by (auto intro: rtranclp_trans)
qed

theorem ledger_config_callback_six_times_witness:
  "\<exists>c. (collecter_step decimal_cast)\<^sup>*\<^sup>* (new_collecter sample_config, mset (ledger_answers sample_ledger), 0) (c, {#}, 0) \<and>
    length (c_calls c) = 6"
  using ledger_config_callback_six_times [of sample_ledger decimal_cast sample_config] sample_ledger_answers by blast

end
