(* ===== verification/Scheduler_Impl.thy ===== *)
theory Scheduler_Impl
  imports Block_Correctness Ledger_Config
begin

text \<open>
  The scheduler object, \<^verbatim>\<open>SchedulerImpl.h\<close> and \<^verbatim>\<open>SchedulerImpl.cpp\<close>: the queue \<open>m_blocks\<close> of blocks
  that are executed but not committed, the requests \<open>executeBlock\<close>, \<open>commitBlock\<close>, \<open>call\<close>, and the
  registrations.

  A request either answers at once or starts an asynchronous computation whose callback
  answers later; both are functions on the state that return the \<open>event\<close>s they cause. The mutexes
  \<open>m_executeMutex\<close> and \<open>m_commitMutex\<close> are taken with \<open>try_to_lock\<close> and are booleans. Their locks are owned by
  the callback closures: the code unlocks them before it answers, and if no callback is
  ever called, or an exception passes, the closures are destroyed and the destructor of
  \<open>std::unique_lock\<close> unlocks. \<open>m_blocksMutex\<close> guards single accesses of the queue, which are
  atomic here.

  Block numbers and context counters are 64-bit integers; numbers are only compared and subtracted and modelled as
  \<open>int\<close>, the counter of calls is a word.
\<close>

subsection \<open>State and events\<close>

record SchedulerImpl =
  m_blocks :: "BlockExecutive list"
  m_executeMutex :: bool
  m_commitMutex :: bool
  m_calledContextID :: "64 word"
  m_lastExecutedBlockNumber :: int
  m_executorManager :: ExecutorManager
  m_isAuthCheck :: bool
  m_blockNumberReceiver :: bool  \<comment> \<open>whether one is registered\<close>
  m_txNotifier :: bool           \<comment> \<open>whether one is registered\<close>

definition new_scheduler :: "ExecutorManager \<Rightarrow> bool \<Rightarrow> SchedulerImpl" where
  "new_scheduler executorManager isAuthCheck =
     \<lparr>m_blocks = [], m_executeMutex = False, m_commitMutex = False, m_calledContextID = 0,
      m_lastExecutedBlockNumber = 0, m_executorManager = executorManager, m_isAuthCheck = isAuthCheck,
      m_blockNumberReceiver = False, m_txNotifier = False\<rparr>"

datatype failure = Code SchedulerError | AddExecutorError | NotifierError

datatype event =
    ExecuteReply "failure option" "BlockHeader option"
  | CommitReply "failure option" "LedgerConfig option"
  | CallReply "failure option" "TransactionReceipt option"
  | RegisterReply "failure option"
  | NotifyTransactions int "TransactionSubmitResult list"
  | ReceiveBlockNumber int
  | GetCode ExecutorPtr string

subsection \<open>Execution of blocks\<close>

text \<open>The loop that looks for the executive of a number; it does not test for the end.\<close>

fun findBlock :: "int \<Rightarrow> BlockExecutive list \<Rightarrow> exn + BlockExecutive" where
  "findBlock requestNumber [] = Inl PastTheEnd"
| "findBlock requestNumber (it # rest) =
     (if block_number it \<noteq> requestNumber then findBlock requestNumber rest else Inr it)"

definition startExecute :: "Block \<Rightarrow> bool \<Rightarrow> SchedulerImpl \<Rightarrow> SchedulerImpl" where
  "startExecute block verify s =
     s\<lparr>m_blocks := m_blocks s @ [new_executive block 0 False verify], m_executeMutex := True\<rparr>"

definition executeBlock :: "Block \<Rightarrow> bool \<Rightarrow> SchedulerImpl \<Rightarrow> (exn + event list) \<times> SchedulerImpl" where
  "executeBlock block verify s =
     (let requestNumber = number (blockHeader block) in
      if m_executeMutex s then (Inr [ExecuteReply (Some (Code InvalidStatus)) None], s)
      else if m_blocks s \<noteq> [] then
        (let frontBlock = hd (m_blocks s); backBlock = last (m_blocks s) in
         if requestNumber \<ge> block_number frontBlock \<and> requestNumber \<le> block_number backBlock then
           (map_sum id (\<lambda>it. [ExecuteReply None (m_result it)]) (findBlock requestNumber (m_blocks s)), s)
         else if requestNumber - block_number backBlock \<noteq> 1 then
           (Inr [ExecuteReply (Some (Code InvalidBlockNumber)) None], s)
         else (Inr [], startExecute block verify s))
      else if m_lastExecutedBlockNumber s \<noteq> 0 \<and> m_lastExecutedBlockNumber s \<ge> requestNumber then
        (Inr [ExecuteReply (Some (Code InvalidBlockNumber)) None], s)
      else (Inr [], startExecute block verify s))"

text \<open>The callback that \<open>executeBlock\<close> hands to \<open>asyncExecute\<close>.\<close>

fun executeDone :: "execute_callback \<Rightarrow> SchedulerImpl \<Rightarrow> (exn + event list) \<times> SchedulerImpl" where
  "executeDone (Some _, _) s = (Inr [ExecuteReply (Some (Code UnknownError)) None], s\<lparr>m_executeMutex := False\<rparr>)"
| "executeDone (None, None) s = (Inl NullDereference, s)"
| "executeDone (None, Some header) s =
     (Inr [ExecuteReply None (Some header)],
      s\<lparr>m_lastExecutedBlockNumber := number header, m_executeMutex := False\<rparr>)"

text \<open>The execution that \<open>executeBlock\<close> starts, of the back of the queue, up to its callback.\<close>

definition runExecute ::
  "environment \<Rightarrow> world \<Rightarrow> nat \<Rightarrow> SchedulerImpl \<Rightarrow> ((exn + event list) \<times> SchedulerImpl) option"
where
  "runExecute env w fuel s =
     (case asyncExecute env w (m_isAuthCheck s) fuel (last (m_blocks s)) (m_executorManager s) of
        None \<Rightarrow> None
      | Some (r, be, m) \<Rightarrow>
          (let s = s\<lparr>m_blocks := butlast (m_blocks s) @ [be], m_executorManager := m\<rparr> in
           Some (case r of
                   Inl e \<Rightarrow> (Inl e, s\<lparr>m_executeMutex := False\<rparr>)
                 | Inr [] \<Rightarrow> (Inr [], s\<lparr>m_executeMutex := False\<rparr>)
                 | Inr (c # _) \<Rightarrow> executeDone c s)))"

subsection \<open>Commit\<close>

text \<open>Where the thread is that commits the front of the queue.\<close>

datatype commit_pc =
    NoCommit
  | Committing                                \<comment> \<open>\<open>asyncCommit\<close>, \<open>asyncGetLedgerConfig\<close> running\<close>
  | Notifying LedgerConfig                    \<comment> \<open>the notifier has been called\<close>
  | Popped "failure option" LedgerConfig      \<comment> \<open>the block is removed, the lock still held\<close>

definition commitBlock ::
  "BlockHeader \<Rightarrow> SchedulerImpl \<Rightarrow> (exn + event list) \<times> SchedulerImpl"
where
  "commitBlock header s =
     (let reply = (\<lambda>e. Inr [CommitReply (Some (Code e)) None]) in
      if m_commitMutex s then
        (case m_blocks s of [] \<Rightarrow> (Inl EmptyListFront, s) | _ # _ \<Rightarrow> (reply InvalidStatus, s))
      else
        (case m_blocks s of
           [] \<Rightarrow> (reply InvalidBlocks, s)
         | frontBlock # rest \<Rightarrow>
             if m_result frontBlock = None then (reply InvalidStatus, s)
             else if number header \<noteq> block_number frontBlock then (reply InvalidBlockNumber, s)
             else (Inr [], s\<lparr>m_commitMutex := True,
                            m_blocks := frontBlock\<lparr>m_block := (m_block frontBlock)\<lparr>blockHeader := header\<rparr>\<rparr> # rest\<rparr>)))"

text \<open>What the commit of one block meets outside the scheduler.\<close>

record commit_world =
  commitAnswers :: commit_answers
  theLedger :: ledger
  configOrder :: "config_answer list \<Rightarrow> config_answer list"
  defaultConfig :: LedgerConfig
  lexicalCast :: "string \<Rightarrow> exn + 64 word"
  headerHash :: "BlockHeader \<Rightarrow> h256"

definition popBlock ::
  "failure option \<Rightarrow> LedgerConfig \<Rightarrow> SchedulerImpl \<Rightarrow> (exn + event list) \<times> commit_pc \<times> SchedulerImpl"
where
  "popBlock err config s =
     (case m_blocks s of
        [] \<Rightarrow> (Inl EmptyListFront, NoCommit, s)
      | _ # rest \<Rightarrow> (Inr [], Popped err config, s\<lparr>m_blocks := rest\<rparr>))"

definition notifyBlock ::
  "commit_world \<Rightarrow> LedgerConfig \<Rightarrow> SchedulerImpl \<Rightarrow> (exn + event list) \<times> commit_pc \<times> SchedulerImpl"
where
  "notifyBlock cw config s =
     (if m_txNotifier s then
        (case m_blocks s of
           [] \<Rightarrow> (Inl EmptyListFront, NoCommit, s)
         | frontBlock # _ \<Rightarrow>
             (case asyncNotify (m_txNotifier s) (headerHash cw) frontBlock of
                Inl e \<Rightarrow> (Inl e, NoCommit, s\<lparr>m_commitMutex := False\<rparr>)
              | Inr None \<Rightarrow> (Inr [], NoCommit, s\<lparr>m_commitMutex := False\<rparr>)
              | Inr (Some (n, results)) \<Rightarrow> (Inr [NotifyTransactions n results], Notifying config, s)))
      else popBlock None config s)"

text \<open>The callbacks of \<open>asyncCommit\<close> and \<open>asyncGetLedgerConfig\<close>.\<close>

definition runCommit :: "commit_world \<Rightarrow> SchedulerImpl \<Rightarrow> (exn + event list) \<times> commit_pc \<times> SchedulerImpl" where
  "runCommit cw s =
     (let unlocked = s\<lparr>m_commitMutex := False\<rparr>; failure = [CommitReply (Some (Code UnknownError)) None] in
      case asyncCommit (manager_size (m_executorManager s)) (commitAnswers cw) of
        [] \<Rightarrow> (Inr [], NoCommit, unlocked)
      | Some _ # _ \<Rightarrow> (Inr failure, NoCommit, unlocked)
      | None # _ \<Rightarrow>
          (case asyncGetLedgerConfig (lexicalCast cw) (defaultConfig cw) (theLedger cw) (configOrder cw) of
             [] \<Rightarrow> (Inr [], NoCommit, unlocked)
           | (Some _, _) # _ \<Rightarrow> (Inr failure, NoCommit, unlocked)
           | (None, None) # _ \<Rightarrow> (Inl NullDereference, NoCommit, unlocked)
           | (None, Some config) # _ \<Rightarrow> notifyBlock cw config s))"

text \<open>The callback that the notifier calls, with the notifier's error.\<close>

definition notified ::
  "failure option \<Rightarrow> LedgerConfig \<Rightarrow> SchedulerImpl \<Rightarrow> (exn + event list) \<times> commit_pc \<times> SchedulerImpl"
where
  "notified err config s =
     (case popBlock err config s of
        (Inl e, pc, s') \<Rightarrow> (Inl e, pc, s')
      | (Inr _, pc, s') \<Rightarrow>
          (Inr (if m_blockNumberReceiver s then [ReceiveBlockNumber (configBlockNumber config)] else []), pc, s'))"

definition unlockCommit :: "failure option \<Rightarrow> LedgerConfig \<Rightarrow> SchedulerImpl \<Rightarrow> event list \<times> SchedulerImpl" where
  "unlockCommit err config s = ([CommitReply err (Some config)], s\<lparr>m_commitMutex := False\<rparr>)"

subsection \<open>Calls and registrations\<close>

definition call ::
  "environment \<Rightarrow> world \<Rightarrow> nat \<Rightarrow> Block \<Rightarrow> Transaction \<Rightarrow> SchedulerImpl \<Rightarrow>
     ((exn + event list) \<times> SchedulerImpl) option"
where
  "call env w fuel createBlock tx s =
     (let block = createBlock\<lparr>transactions := transactions createBlock @ [tx]\<rparr>;
          blockExecutive = new_executive block (uint (m_calledContextID s)) True False;
          s = s\<lparr>m_calledContextID := m_calledContextID s + 1\<rparr>
      in case asyncExecute env w (m_isAuthCheck s) fuel blockExecutive (m_executorManager s) of
           None \<Rightarrow> None
         | Some (r, be, m) \<Rightarrow>
             Some (case r of
                     Inl e \<Rightarrow> Inl e
                   | Inr [] \<Rightarrow> Inr []
                   | Inr ((Some _, _) # _) \<Rightarrow> Inr [CallReply (Some (Code UnknownError)) None]
                   | Inr ((None, _) # _) \<Rightarrow>
                       (case receipts (m_block be) of
                          [] \<Rightarrow> Inl OutOfRange
                        | rcpt # _ \<Rightarrow> Inr [CallReply None rcpt]),
                   s\<lparr>m_executorManager := m\<rparr>))"

definition registerExecutor ::
  "string \<Rightarrow> ExecutorPtr \<Rightarrow> SchedulerImpl \<Rightarrow> event list \<times> SchedulerImpl"
where
  "registerExecutor nm ex s =
     (case addExecutor nm ex (m_executorManager s) of
        (Inl _, m) \<Rightarrow> ([RegisterReply (Some AddExecutorError)], s\<lparr>m_executorManager := m\<rparr>)
      | (Inr _, m) \<Rightarrow> ([RegisterReply None], s\<lparr>m_executorManager := m\<rparr>))"

definition registerBlockNumberReceiver :: "SchedulerImpl \<Rightarrow> SchedulerImpl" where
  "registerBlockNumberReceiver s = s\<lparr>m_blockNumberReceiver := True\<rparr>"

definition registerTransactionNotifier :: "SchedulerImpl \<Rightarrow> SchedulerImpl" where
  "registerTransactionNotifier s = s\<lparr>m_txNotifier := True\<rparr>"

definition getCode :: "environment \<Rightarrow> string \<Rightarrow> SchedulerImpl \<Rightarrow> (exn + event list) \<times> SchedulerImpl" where
  "getCode env contract s =
     (case dispatchExecutor (pq_top env) contract (m_executorManager s) of
        (Inl e, m) \<Rightarrow> (Inl e, s\<lparr>m_executorManager := m\<rparr>)
      | (Inr None, m) \<Rightarrow> (Inl NullDereference, s\<lparr>m_executorManager := m\<rparr>)
      | (Inr (Some ex), m) \<Rightarrow> (Inr [GetCode ex contract], s\<lparr>m_executorManager := m\<rparr>))"

text \<open>These ignore their callback.\<close>

definition status :: "SchedulerImpl \<Rightarrow> event list \<times> SchedulerImpl" where
  "status s = ([], s)"

definition unregisterExecutor :: "string \<Rightarrow> SchedulerImpl \<Rightarrow> event list \<times> SchedulerImpl" where
  "unregisterExecutor nm s = ([], s)"

definition reset :: "SchedulerImpl \<Rightarrow> event list \<times> SchedulerImpl" where
  "reset s = ([], s)"

subsection \<open>Runs\<close>

text \<open>
  Requests of any number of threads and the asynchronous callbacks, interleaved. The blocks that are submitted satisfy
  \<open>submitted\<close>. A run remembers the numbers of the blocks removed by commits, in order.
\<close>

record scheduler_run =
  scheduler :: SchedulerImpl
  commit_thread :: commit_pc
  committed :: "int list"

definition world_ok :: "world \<Rightarrow> bool" where
  "world_ok w \<longleftrightarrow> permuting w \<and> dag_permuting w \<and> dag_messages w"

definition popped :: "SchedulerImpl \<Rightarrow> commit_pc \<Rightarrow> int list" where
  "popped s pc = (case pc of Popped _ _ \<Rightarrow> [block_number (hd (m_blocks s))] | _ \<Rightarrow> [])"

inductive scheduler_step ::
  "environment \<Rightarrow> (Block \<Rightarrow> bool) \<Rightarrow> scheduler_run \<Rightarrow> scheduler_run \<Rightarrow> bool"
  for env submitted
where
  execute: "submitted block \<Longrightarrow> executeBlock block verify (scheduler r) = (x, s) \<Longrightarrow>
    scheduler_step env submitted r (r\<lparr>scheduler := s\<rparr>)"
| execute_done: "m_executeMutex (scheduler r) \<Longrightarrow> world_ok w \<Longrightarrow>
    runExecute env w fuel (scheduler r) = Some (x, s) \<Longrightarrow>
    scheduler_step env submitted r (r\<lparr>scheduler := s\<rparr>)"
| commit_refused: "commitBlock header (scheduler r) = (x, s) \<Longrightarrow> x \<noteq> Inr [] \<Longrightarrow>
    scheduler_step env submitted r (r\<lparr>scheduler := s\<rparr>)"
| commit_start: "commitBlock header (scheduler r) = (Inr [], s) \<Longrightarrow>
    scheduler_step env submitted r (r\<lparr>scheduler := s, commit_thread := Committing\<rparr>)"
| commit_done: "commit_thread r = Committing \<Longrightarrow> runCommit cw (scheduler r) = (x, pc, s) \<Longrightarrow>
    scheduler_step env submitted r
      (r\<lparr>scheduler := s, commit_thread := pc, committed := committed r @ popped (scheduler r) pc\<rparr>)"
| notified: "commit_thread r = Notifying config \<Longrightarrow> notified err config (scheduler r) = (x, pc, s) \<Longrightarrow>
    scheduler_step env submitted r
      (r\<lparr>scheduler := s, commit_thread := pc, committed := committed r @ popped (scheduler r) pc\<rparr>)"
| unlock: "commit_thread r = Popped err config \<Longrightarrow> unlockCommit err config (scheduler r) = (evs, s) \<Longrightarrow>
    scheduler_step env submitted r (r\<lparr>scheduler := s, commit_thread := NoCommit\<rparr>)"
| call: "world_ok w \<Longrightarrow> call env w fuel createBlock tx (scheduler r) = Some (x, s) \<Longrightarrow>
    scheduler_step env submitted r (r\<lparr>scheduler := s\<rparr>)"
| register_executor: "registerExecutor nm ex (scheduler r) = (evs, s) \<Longrightarrow>
    scheduler_step env submitted r (r\<lparr>scheduler := s\<rparr>)"
| get_code: "getCode env contract (scheduler r) = (x, s) \<Longrightarrow>
    scheduler_step env submitted r (r\<lparr>scheduler := s\<rparr>)"
| register_receiver: "scheduler_step env submitted r (r\<lparr>scheduler := registerBlockNumberReceiver (scheduler r)\<rparr>)"
| register_notifier: "scheduler_step env submitted r (r\<lparr>scheduler := registerTransactionNotifier (scheduler r)\<rparr>)"

definition start_run :: "ExecutorManager \<Rightarrow> bool \<Rightarrow> scheduler_run" where
  "start_run m auth = \<lparr>scheduler = new_scheduler m auth, commit_thread = NoCommit, committed = []\<rparr>"

end
