(* ===== verification/Scheduler_Runs.thy ===== *)
theory Scheduler_Runs
  imports Scheduler_Impl
begin

text \<open>
  Properties of all runs of the scheduler: the queue of blocks stays a gap-free range, the locks and the
  commit thread agree, blocks leave the queue in the order of their numbers; and what
  happens when an execution fails.
\<close>

subsection \<open>One execution\<close>

lemma asyncExecute_no_executors:
  assumes "m_name2Executors m = []"
    and "asyncExecute env w auth fuel (new_executive block start False sync) m = Some (x, be, m')"
  shows "m' = m \<and> m_block be = block \<and> m_result be = None \<and> (x = Inr [] \<or> x = Inl OutOfRange)"
proof -
  let ?be = "new_executive block start False sync"
  obtain y be1 where b: "buildExecutives w auth ?be = (y, be1)" by fastforce
  note sb = same_block_frame [OF buildExecutives_same [OF b]]
  have "batchNextBlock (manager_size m) (map (nextBlockError w) (executorView m)) = []"
    using assms(1) by (simp add: batchNextBlock_def executorView_def)
  then show ?thesis
    using assms(2) b sb buildExecutives_error [of w auth ?be]
    by (cases y) (auto simp: asyncExecute_def new_executive_def)
qed

text \<open>What the scheduler relies on of an execution.\<close>

definition execute_effect :: "Block \<Rightarrow> exn + execute_callback list \<Rightarrow> BlockExecutive \<Rightarrow> bool" where
  "execute_effect block x be \<longleftrightarrow>
     blockHeader (m_block be) = blockHeader block \<and>
     (m_result be = None \<and> ((\<exists>e. x = Inl e) \<or> x = Inr [] \<or> (\<exists>e. x = Inr [(Some e, None)])) \<or>
      (\<exists>header. x = Inr [(None, Some header)] \<and> m_result be = Some header \<and>
         number header = number (blockHeader block)))"

lemma block_outcome_effect: "block_outcome w block sync (x, be, m) \<Longrightarrow> execute_effect block x be"
  by (cases x) (auto simp: block_outcome_def execute_effect_def executed_block_def)

context batch_environment
begin

lemma asyncExecute_effect:
  assumes "em_inv m" and "world_ok w" and "length (block_hashes block) < 2 ^ 64"
    and run: "asyncExecute env w auth fuel (new_executive block start False sync) m = Some (x, be, m')"
  shows "em_inv m' \<and> execute_effect block x be"
proof (cases "m_name2Executors m = []")
  case True
  from asyncExecute_no_executors [OF this run] assms(1) show ?thesis by (auto simp: execute_effect_def)
next
  case False
  then have "manager_ready m" using assms(1) by (simp add: manager_ready_def)
  from asyncExecute_block [OF this _ _ _ assms(3) run] assms(2)
  have "block_outcome w block sync (x, be, m')" by (simp add: world_ok_def)
  then show ?thesis
    using block_outcome_effect by (auto simp: block_outcome_def manager_ready_def)
qed

end

subsection \<open>The invariant\<close>

definition consecutive :: "int list \<Rightarrow> bool" where
  "consecutive = successively (\<lambda>a b. b = a + 1)"

lemma consecutive_simps [simp]:
  "consecutive []" "consecutive [n]" "consecutive (a # b # ns) \<longleftrightarrow> b = a + 1 \<and> consecutive (b # ns)"
  by (simp_all add: consecutive_def)

lemma consecutive_snoc:
  "consecutive (ns @ [n]) \<longleftrightarrow> consecutive ns \<and> (ns = [] \<or> n = last ns + 1)"
  by (auto simp: consecutive_def successively_append_iff)

lemma consecutive_tl: "consecutive (n # ns) \<Longrightarrow> consecutive ns"
  by (cases ns) simp_all

lemma consecutive_bounds_Cons:
  "consecutive (a # ns) \<Longrightarrow> n \<in> set (a # ns) \<Longrightarrow> a \<le> n \<and> n \<le> last (a # ns)"
proof (induction ns arbitrary: a n)
  case (Cons b ns)
  then have b: "b = a + 1" "consecutive (b # ns)" unfolding consecutive_simps by blast+
  note IH = Cons.IH [OF b(2)]
  show ?case
  proof (cases "n = a")
    case True
    with b(1) IH [of b] show ?thesis by simp
  next
    case False
    with Cons.prems(2) have "n \<in> set (b # ns)" by simp
    with IH [of n] b(1) show ?thesis by simp
  qed
qed simp

lemma consecutive_bounds: "consecutive ns \<Longrightarrow> n \<in> set ns \<Longrightarrow> hd ns \<le> n \<and> n \<le> last ns"
  using consecutive_bounds_Cons [of "hd ns" "tl ns" n] by (cases ns) simp_all

text \<open>The search of \<open>executeBlock\<close> finds every number between the first and the last.\<close>

lemma findBlock_found:
  assumes "consecutive (map block_number bs)" and "bs \<noteq> []"
    and "block_number (hd bs) \<le> n" and "n \<le> block_number (last bs)"
  shows "\<exists>b \<in> set bs. findBlock n bs = Inr b \<and> block_number b = n"
  using assms
proof (induction bs)
  case (Cons b bs)
  show ?case
  proof (cases "block_number b = n \<or> bs = []")
    case True
    with Cons.prems show ?thesis by auto
  next
    case False
    then obtain c cs where bs: "bs = c # cs" by (cases bs) auto
    with Cons False show ?thesis by (auto split: if_splits)
  qed
qed simp

text \<open>The header that an execution left belongs to its block, and was counted.\<close>

definition result_ok :: "int \<Rightarrow> BlockExecutive \<Rightarrow> bool" where
  "result_ok n be \<longleftrightarrow> (\<forall>h. m_result be = Some h \<longrightarrow> number h = block_number be \<and> number h \<le> n)"

definition sched_inv :: "(Block \<Rightarrow> bool) \<Rightarrow> SchedulerImpl \<Rightarrow> bool" where
  "sched_inv submitted s \<longleftrightarrow>
     em_inv (m_executorManager s) \<and> consecutive (map block_number (m_blocks s)) \<and>
     (\<forall>be \<in> set (m_blocks s). result_ok (m_lastExecutedBlockNumber s) be) \<and>
     (m_executeMutex s \<longrightarrow> m_blocks s \<noteq> [] \<and>
        (\<exists>block v. submitted block \<and> last (m_blocks s) = new_executive block 0 False v))"

definition run_inv :: "(Block \<Rightarrow> bool) \<Rightarrow> scheduler_run \<Rightarrow> bool" where
  "run_inv submitted r \<longleftrightarrow>
     (let s = scheduler r; pc = commit_thread r in
      sched_inv submitted s \<and> (m_commitMutex s \<longleftrightarrow> pc \<noteq> NoCommit) \<and>
      (pc = Committing \<or> (\<exists>config. pc = Notifying config) \<longrightarrow>
         m_blocks s \<noteq> [] \<and> m_result (hd (m_blocks s)) \<noteq> None))"

lemma new_executive_simps [simp]:
  "m_block (new_executive block start sc sync) = block" "m_result (new_executive block start sc sync) = None"
  by (simp_all add: new_executive_def)

lemma startExecute_inv:
  assumes "sched_inv submitted s" and "submitted block"
    and "m_blocks s = [] \<or> number (blockHeader block) = block_number (last (m_blocks s)) + 1"
  shows "sched_inv submitted (startExecute block verify s)"
proof -
  let ?s = "startExecute block verify s" and ?be = "new_executive block 0 False verify"
  have sel: "m_blocks ?s = m_blocks s @ [?be]" "m_executorManager ?s = m_executorManager s"
    "m_lastExecutedBlockNumber ?s = m_lastExecutedBlockNumber s"
    by (simp_all add: startExecute_def)
  have "consecutive (map block_number (m_blocks s))" using assms(1) by (simp add: sched_inv_def)
  then have "consecutive (map block_number (m_blocks ?s))"
    using assms(3) by (cases "m_blocks s = []") (simp_all add: sel consecutive_snoc last_map)
  moreover have "\<exists>block v. submitted block \<and> last (m_blocks ?s) = new_executive block 0 False v"
    unfolding sel using assms(2) by auto
  moreover have "result_ok n ?be" for n by (simp add: result_ok_def)
  then have "\<forall>be \<in> set (m_blocks ?s). result_ok (m_lastExecutedBlockNumber ?s) be"
    using assms(1) by (simp add: sched_inv_def sel)
  moreover have "em_inv (m_executorManager ?s)" "m_blocks ?s \<noteq> []"
    using assms(1) by (simp_all add: sched_inv_def sel)
  ultimately show ?thesis unfolding sched_inv_def by blast
qed

lemma executeBlock_cases:
  assumes "executeBlock block verify s = (x, s')"
  obtains (reply) "s' = s"
  | (start) "\<not> m_executeMutex s" "x = Inr []" "s' = startExecute block verify s"
      "m_blocks s = [] \<and> (m_lastExecutedBlockNumber s = 0 \<or> m_lastExecutedBlockNumber s < number (blockHeader block)) \<or>
       m_blocks s \<noteq> [] \<and> number (blockHeader block) = block_number (last (m_blocks s)) + 1"
  using assms by (auto simp: executeBlock_def Let_def split: if_splits)

lemma executeBlock_inv:
  assumes "sched_inv submitted s" and "submitted block" and "executeBlock block verify s = (x, s')"
  shows "sched_inv submitted s'"
  using assms(3)
proof (cases rule: executeBlock_cases)
  case start
  with assms show ?thesis by (auto intro: startExecute_inv)
qed (use assms in simp)

definition after_execute :: "BlockExecutive \<Rightarrow> ExecutorManager \<Rightarrow> SchedulerImpl \<Rightarrow> SchedulerImpl" where
  "after_execute be m s =
     s\<lparr>m_blocks := butlast (m_blocks s) @ [be], m_executorManager := m, m_executeMutex := False,
       m_lastExecutedBlockNumber :=
         (case m_result be of None \<Rightarrow> m_lastExecutedBlockNumber s | Some h \<Rightarrow> number h)\<rparr>"

lemma after_execute_simps [simp]:
  "m_blocks (after_execute be m s) = butlast (m_blocks s) @ [be]"
  "m_executorManager (after_execute be m s) = m" "m_executeMutex (after_execute be m s) = False"
  "m_commitMutex (after_execute be m s) = m_commitMutex s"
  "m_lastExecutedBlockNumber (after_execute be m s) =
     (case m_result be of None \<Rightarrow> m_lastExecutedBlockNumber s | Some h \<Rightarrow> number h)"
  by (simp_all add: after_execute_def)

lemma butlast_last_blocks: "bs \<noteq> [] \<Longrightarrow> map f bs = map f (butlast bs) @ [f (last bs)]"
  by (metis append_butlast_last_id list.simps(8,9) map_append)

context batch_environment
begin

lemma runExecute_effect:
  assumes inv: "sched_inv submitted s" and ex: "m_executeMutex s" and w: "world_ok w"
    and sub: "\<And>block. submitted block \<Longrightarrow> length (block_hashes block) < 2 ^ 64"
    and run: "runExecute env w fuel s = Some (x, s')"
  shows "m_blocks s \<noteq> [] \<and> m_result (last (m_blocks s)) = None \<and>
    (\<exists>be m. s' = after_execute be m s \<and> block_number be = block_number (last (m_blocks s)) \<and> em_inv m \<and>
       (\<forall>h. m_result be = Some h \<longrightarrow> number h = block_number be))"
proof -
  from inv ex obtain block v where ne: "m_blocks s \<noteq> []" and b: "submitted block"
    "last (m_blocks s) = new_executive block 0 False v" by (auto simp: sched_inv_def)
  obtain y be m where y: "asyncExecute env w (m_isAuthCheck s) fuel (last (m_blocks s)) (m_executorManager s) =
      Some (y, be, m)"
    using run by (auto simp: runExecute_def split: option.splits)
  have em: "em_inv (m_executorManager s)" using inv by (simp add: sched_inv_def)
  note eff = asyncExecute_effect [OF em w sub [OF b(1)] y [unfolded b(2)]]
  have "block_number be = block_number (last (m_blocks s))" using eff b(2) by (simp add: execute_effect_def)
  moreover have "\<forall>h. m_result be = Some h \<longrightarrow> number h = block_number be"
    using eff by (auto simp: execute_effect_def)
  moreover have "s' = after_execute be m s"
    using run y eff by (auto simp: runExecute_def execute_effect_def after_execute_def Let_def)
  moreover have "m_result (last (m_blocks s)) = None" by (simp add: b(2))
  ultimately show ?thesis using ne conjunct1 [OF eff] by blast
qed

lemma runExecute_inv:
  assumes inv: "sched_inv submitted s" and ex: "m_executeMutex s" and w: "world_ok w"
    and sub: "\<And>block. submitted block \<Longrightarrow> length (block_hashes block) < 2 ^ 64"
    and run: "runExecute env w fuel s = Some (x, s')"
  shows "sched_inv submitted s'"
proof -
  from runExecute_effect [OF assms] obtain be m where ne: "m_blocks s \<noteq> []"
    and num: "block_number be = block_number (last (m_blocks s))" and m: "em_inv m"
    and s': "s' = after_execute be m s"
    and res: "\<forall>h. m_result be = Some h \<longrightarrow> number h = block_number be" by blast
  have map: "map block_number (m_blocks s') = map block_number (m_blocks s)"
    unfolding butlast_last_blocks [OF ne, of block_number] by (simp add: s' num)
  have cons: "consecutive (map block_number (m_blocks s))" using inv by (simp add: sched_inv_def)
  have le: "block_number b \<le> block_number be" if "b \<in> set (m_blocks s)" for b
    using consecutive_bounds [OF cons, of "block_number b"] that ne num by (simp add: last_map)
  have last': "m_lastExecutedBlockNumber s' = m_lastExecutedBlockNumber s" if "m_result be = None"
    using that by (simp add: s')
  have last'': "m_lastExecutedBlockNumber s' = block_number be" if "m_result be = Some h" for h
    using that res by (simp add: s')
  have "result_ok (m_lastExecutedBlockNumber s') b" if b: "b \<in> set (m_blocks s')" for b
  proof (cases "b = be")
    case True
    with res last'' show ?thesis unfolding result_ok_def by (metis order_refl)
  next
    case False
    with b have "b \<in> set (butlast (m_blocks s))" unfolding s' by simp
    then have mem: "b \<in> set (m_blocks s)" by (rule in_set_butlastD)
    then have "result_ok (m_lastExecutedBlockNumber s) b" using inv by (simp add: sched_inv_def)
    with le [OF mem] last' last'' show ?thesis unfolding result_ok_def by (cases "m_result be") metis+
  qed
  then have "\<forall>b \<in> set (m_blocks s'). result_ok (m_lastExecutedBlockNumber s') b" by blast
  moreover have "em_inv (m_executorManager s')" "\<not> m_executeMutex s'" using m by (simp_all add: s')
  ultimately show ?thesis using cons unfolding sched_inv_def map by blast
qed

end

subsection \<open>The executor manager\<close>

lemma handleResponses_manager: "manager (snd (handleResponses respond xs b)) = manager b"
proof (induction respond xs b rule: handleResponses.induct)
  case (2 respond ctx ex msg arrivals b)
  obtain c b1 where c: "checkBatch (deliver ctx (respond ex msg) b) = (c, b1)" by fastforce
  then have "manager b1 = manager b"
    using checkBatch_manager [of "deliver ctx (respond ex msg) b"] by (simp add: deliver_def)
  with 2 [OF c [symmetric] refl] show ?case by (simp add: c case_prod_unfold Let_def)
qed simp

context batch_environment
begin

lemma visit_manager:
  assumes "em_inv (manager b)"
  shows "em_inv (manager (snd (snd (startBatch_visit env st b))))"
proof (cases "error st \<or> message st = None")
  case True
  with assms show ?thesis by (auto simp: startBatch_visit_def)
next
  case False
  then obtain msg where msg: "message st = Some msg" by auto
  obtain f st' be where sw: "switchMessage env msg st (executive b) = (f, st', be)" by (metis prod_cases3)
  have "em_inv (manager (snd (snd (sendMessage env m st' (b\<lparr>executive := be\<rparr>)))))" for m
    using priority_queue_top.dispatch_inv [OF env_queue assms, of "msgTo m"]
    by (auto simp: sendMessage_def Let_def split: prod.splits sum.splits option.splits)
  with False assms show ?thesis by (simp add: startBatch_visit_def msg sw split: sum.split flow.split)
qed

lemma startBatch_manager:
  assumes "em_inv m"
  shows "em_inv (snd (snd (startBatch env respond order be m)))"
proof -
  have "em_inv (manager (snd (snd (traverseExecutive (startBatch_visit env) (m_executiveStates be) (new_batch be m)))))"
    by (rule traverseExecutive_captured [where J = "\<lambda>b. em_inv (manager b)"])
       (use assms in \<open>auto intro: visit_manager simp: new_batch_def\<close>)
  then have "em_inv (manager (snd (sendBatch env be m)))"
    by (auto simp: sendBatch_def split: prod.splits sum.splits)
  moreover obtain x b where send: "sendBatch env be m = (x, b)" by fastforce
  moreover obtain c b1 where c: "checkBatch b = (c, b1)" by fastforce
  moreover have "manager b1 = manager b" using checkBatch_manager [of b] c by simp
  moreover note handleResponses_manager [of respond "order (sent b1)" b1]
  ultimately show ?thesis by (auto simp: startBatch_def split: sum.splits prod.splits)
qed

lemma DMTExecute_manager:
  "em_inv m \<Longrightarrow> DMTExecute env w fuel n be m = Some (x, be', m') \<Longrightarrow> em_inv m'"
proof (induction fuel arbitrary: n be m)
  case (Suc fuel)
  obtain cs b1 m1 where run: "startBatch env (batchRespond w n) (arrival w n) be m = (cs, b1, m1)"
    by (metis prod_cases3)
  then have m1: "em_inv m1" using startBatch_manager [OF Suc.prems(1), of "batchRespond w n" "arrival w n" be] by simp
  show ?case
  proof (cases "\<exists>cs'. cs = Inr None # cs' \<and> m_executiveStates b1 \<noteq> []")
    case True
    with Suc.prems(2) run Suc.IH [OF m1] show ?thesis by auto
  next
    case False
    with Suc.prems(2) run m1 show ?thesis
      by (auto split: list.splits sum.splits option.splits prod.splits if_splits)
  qed
qed simp

lemma asyncExecute_static_manager:
  assumes "em_inv m" and "asyncExecute env w auth fuel (new_executive block start True sync) m = Some (x, be, m')"
  shows "em_inv m'"
proof -
  obtain y be1 where b: "buildExecutives w auth (new_executive block start True sync) = (y, be1)" by fastforce
  show ?thesis
  proof (cases y)
    case (Inl e)
    with assms b show ?thesis by (auto simp: asyncExecute_def)
  next
    case (Inr d)
    from assms(2) show ?thesis
      unfolding asyncExecute_static [OF b [unfolded Inr]] by (rule DMTExecute_manager [OF assms(1)])
  qed
qed

end

subsection \<open>Steps of a run\<close>

text \<open>Operations that leave queue, locks and the last number alone.\<close>

definition same_queue :: "SchedulerImpl \<Rightarrow> SchedulerImpl \<Rightarrow> bool" where
  "same_queue s s' \<longleftrightarrow>
     m_blocks s' = m_blocks s \<and> m_executeMutex s' = m_executeMutex s \<and> m_commitMutex s' = m_commitMutex s \<and>
     m_lastExecutedBlockNumber s' = m_lastExecutedBlockNumber s"

lemma same_queue_inv:
  assumes "run_inv submitted r" and "same_queue (scheduler r) s" and "em_inv (m_executorManager s)"
  shows "run_inv submitted (r\<lparr>scheduler := s\<rparr>)"
  using assms by (simp add: run_inv_def sched_inv_def same_queue_def Let_def)

lemma registerExecutor_same:
  assumes "registerExecutor nm ex s = (evs, s')" and "em_inv (m_executorManager s)"
  shows "same_queue s s'" and "em_inv (m_executorManager s')"
  using assms addExecutor_inv [OF assms(2), of nm ex]
  by (auto simp: registerExecutor_def same_queue_def split: prod.splits sum.splits)

context batch_environment
begin

lemma getCode_same:
  assumes "getCode env contract s = (x, s')" and "em_inv (m_executorManager s)"
  shows "same_queue s s'" and "em_inv (m_executorManager s')"
  using assms priority_queue_top.dispatch_inv [OF env_queue assms(2), of contract]
  by (auto simp: getCode_def same_queue_def split: prod.splits sum.splits option.splits)

lemma call_same:
  assumes "call env w fuel createBlock tx s = Some (x, s')" and "em_inv (m_executorManager s)"
  shows "same_queue s s'" and "em_inv (m_executorManager s')"
proof -
  let ?block = "createBlock\<lparr>transactions := transactions createBlock @ [tx]\<rparr>"
  from assms(1) obtain y be m where
    run: "asyncExecute env w (m_isAuthCheck s) fuel (new_executive ?block (uint (m_calledContextID s)) True False)
      (m_executorManager s) = Some (y, be, m)"
    and s': "s' = s\<lparr>m_calledContextID := m_calledContextID s + 1, m_executorManager := m\<rparr>"
    by (auto simp: call_def Let_def split: option.splits)
  from asyncExecute_static_manager [OF assms(2) run] show "em_inv (m_executorManager s')" by (simp add: s')
  show "same_queue s s'" by (simp add: same_queue_def s')
qed

end

lemma commitBlock_cases:
  assumes "commitBlock header s = (x, s')"
  obtains (refused) "s' = s" "x \<noteq> Inr []"
  | (start) front rest where "\<not> m_commitMutex s" "x = Inr []" "m_blocks s = front # rest" "m_result front \<noteq> None"
      "number header = block_number front"
      "s' = s\<lparr>m_commitMutex := True,
              m_blocks := front\<lparr>m_block := (m_block front)\<lparr>blockHeader := header\<rparr>\<rparr> # rest\<rparr>"
  using assms by (auto simp: commitBlock_def Let_def split: if_splits list.splits)

text \<open>The ways a commit goes on: it ends without a change of the queue, calls the notifier, or pops.\<close>

lemma notifyBlock_result:
  assumes "notifyBlock cw config s = (x, pc, s')" and "m_blocks s \<noteq> []"
  shows "pc = NoCommit \<and> s' = s\<lparr>m_commitMutex := False\<rparr> \<or> (\<exists>config. pc = Notifying config) \<and> s' = s \<or>
    (\<exists>config. pc = Popped None config) \<and> s' = s\<lparr>m_blocks := tl (m_blocks s)\<rparr>"
  using assms
  by (auto simp: notifyBlock_def popBlock_def split: if_splits list.splits sum.splits option.splits prod.splits)

lemma runCommit_result:
  assumes "runCommit cw s = (x, pc, s')" and "m_blocks s \<noteq> []"
  shows "pc = NoCommit \<and> s' = s\<lparr>m_commitMutex := False\<rparr> \<or> (\<exists>config. pc = Notifying config) \<and> s' = s \<or>
    (\<exists>config. pc = Popped None config) \<and> s' = s\<lparr>m_blocks := tl (m_blocks s)\<rparr>"
proof (cases "\<exists>config. notifyBlock cw config s = (x, pc, s')")
  case True
  with notifyBlock_result assms(2) show ?thesis by blast
next
  case False
  with assms(1) show ?thesis
    by (auto simp: runCommit_def Let_def split: list.splits option.splits prod.splits)
qed

lemma notified_result:
  assumes "notified err config s = (x, pc, s')" and "m_blocks s \<noteq> []"
  shows "pc = Popped err config \<and> s' = s\<lparr>m_blocks := tl (m_blocks s)\<rparr>"
  using assms by (auto simp: notified_def popBlock_def split: list.splits)

text \<open>Replacing the header of the front block, and removing the front block.\<close>

lemma sched_invD:
  assumes "sched_inv submitted s"
  shows "em_inv (m_executorManager s)" and "consecutive (map block_number (m_blocks s))"
    and "\<forall>be \<in> set (m_blocks s). result_ok (m_lastExecutedBlockNumber s) be"
    and "m_executeMutex s \<Longrightarrow> \<exists>block v. submitted block \<and> last (m_blocks s) = new_executive block 0 False v"
    and "m_executeMutex s \<Longrightarrow> m_blocks s \<noteq> [] \<and> m_result (last (m_blocks s)) = None"
proof -
  show "m_executeMutex s \<Longrightarrow> m_blocks s \<noteq> [] \<and> m_result (last (m_blocks s)) = None"
    using assms by (auto simp: sched_inv_def)
qed (use assms in \<open>simp_all add: sched_inv_def\<close>)

lemma executing_not_front:
  assumes "sched_inv submitted s" and "m_blocks s = b # rest" and "m_result b \<noteq> None" and "m_executeMutex s"
  shows "rest \<noteq> []"
  using sched_invD(5) [OF assms(1,4)] assms(2,3) by auto

lemma sched_inv_front:
  assumes inv: "sched_inv submitted s" and s: "m_blocks s = b # rest" and res: "m_result b \<noteq> None"
    and s': "m_executorManager s' = m_executorManager s" "m_executeMutex s' = m_executeMutex s"
      "m_lastExecutedBlockNumber s' = m_lastExecutedBlockNumber s"
    and bs: "m_blocks s' = rest \<or> m_blocks s' = b' # rest \<and> block_number b' = block_number b \<and> m_result b' = m_result b"
  shows "sched_inv submitted s'"
proof -
  have cons: "consecutive (map block_number (m_blocks s'))"
  proof -
    have c: "consecutive (block_number b # map block_number rest)" using sched_invD(2) [OF inv] by (simp add: s)
    from bs show ?thesis
    proof (elim disjE conjE)
      assume "m_blocks s' = rest"
      with consecutive_tl [OF c] show ?thesis by simp
    next
      assume "m_blocks s' = b' # rest" "block_number b' = block_number b"
      with c show ?thesis by simp
    qed
  qed
  have "result_ok n b \<Longrightarrow> m_result b' = m_result b \<Longrightarrow> block_number b' = block_number b \<Longrightarrow> result_ok n b'" for n
    unfolding result_ok_def by metis
  then have ok: "\<forall>be \<in> set (m_blocks s'). result_ok (m_lastExecutedBlockNumber s') be"
    using sched_invD(3) [OF inv] bs unfolding s' by (auto simp: s)
  have ne: "m_executeMutex s \<Longrightarrow> rest \<noteq> []" by (rule executing_not_front [OF inv s res])
  then have last: "m_executeMutex s \<Longrightarrow> m_blocks s' \<noteq> [] \<and> last (m_blocks s') = last (m_blocks s)"
    using bs by (auto simp: s)
  show ?thesis
    unfolding sched_inv_def s' using sched_invD(1,4) [OF inv] cons ok [unfolded s'] last by (intro conjI impI) simp_all
qed

lemma commit_start_inv:
  assumes "sched_inv submitted s" and "m_blocks s = front # rest" "m_result front \<noteq> None"
    and "number header = block_number front"
  shows "sched_inv submitted (s\<lparr>m_commitMutex := True,
    m_blocks := front\<lparr>m_block := (m_block front)\<lparr>blockHeader := header\<rparr>\<rparr> # rest\<rparr>)"
  by (rule sched_inv_front [OF assms(1-3), where b' = "front\<lparr>m_block := (m_block front)\<lparr>blockHeader := header\<rparr>\<rparr>"])
     (use assms(4) in simp_all)

lemma pop_inv:
  assumes inv: "sched_inv submitted s" and front: "m_blocks s \<noteq> []" "m_result (hd (m_blocks s)) \<noteq> None"
  shows "sched_inv submitted (s\<lparr>m_blocks := tl (m_blocks s)\<rparr>)"
proof -
  obtain b rest where b: "m_blocks s = b # rest" using front(1) by (cases "m_blocks s") auto
  show ?thesis by (rule sched_inv_front [OF inv b]) (use front in \<open>simp_all add: b\<close>)
qed

subsection \<open>The chain that the scheduler implements\<close>

text \<open>
  What a client sees of the queue: the numbers of the blocks in it, and of those that were committed.
  A block is appended with the next number, or, to an empty queue, with one above all committed
  numbers; blocks are committed from the front.
\<close>

type_synonym chain = "int list \<times> int list"

inductive chain_step :: "chain \<Rightarrow> chain \<Rightarrow> bool" where
  append: "(if queue = [] then \<forall>m \<in> set done. m < n else n = last queue + 1) \<Longrightarrow>
    chain_step (queue, done) (queue @ [n], done)"
| commit: "chain_step (n # queue, done) (queue, done @ [n])"

definition chain_of :: "scheduler_run \<Rightarrow> chain" where
  "chain_of r = (map block_number (m_blocks (scheduler r)), committed r)"

text \<open>The committed numbers were executed before; \<open>0\<close> stands for no executed block.\<close>

definition order_inv :: "scheduler_run \<Rightarrow> bool" where
  "order_inv r \<longleftrightarrow>
     (\<forall>n \<in> set (committed r). 0 < n \<and> n \<le> m_lastExecutedBlockNumber (scheduler r)) \<and>
     (\<forall>b \<in> set (m_blocks (scheduler r)). 0 < block_number b) \<and>
     sorted_wrt (<) (committed r @ map block_number (m_blocks (scheduler r)))"

lemma run_invD:
  assumes "run_inv submitted r"
  shows "sched_inv submitted (scheduler r)" and "m_commitMutex (scheduler r) \<longleftrightarrow> commit_thread r \<noteq> NoCommit"
    and "commit_thread r = Committing \<Longrightarrow>
      m_blocks (scheduler r) \<noteq> [] \<and> m_result (hd (m_blocks (scheduler r))) \<noteq> None"
    and "commit_thread r = Notifying config \<Longrightarrow>
      m_blocks (scheduler r) \<noteq> [] \<and> m_result (hd (m_blocks (scheduler r))) \<noteq> None"
  using assms by (auto simp: run_inv_def Let_def)

text \<open>
  Every step has one of a few effects on the queue: none, a new block at the back, a new outcome at the
  back, a new header or no block at the front.
\<close>

inductive queue_effect :: "(Block \<Rightarrow> bool) \<Rightarrow> SchedulerImpl \<Rightarrow> SchedulerImpl \<Rightarrow> bool" for submitted where
  same: "m_blocks s' = m_blocks s \<Longrightarrow> m_lastExecutedBlockNumber s' = m_lastExecutedBlockNumber s \<Longrightarrow>
    m_executeMutex s' = m_executeMutex s \<Longrightarrow> queue_effect submitted s s'"
| append: "submitted block \<Longrightarrow> \<not> m_executeMutex s \<Longrightarrow>
    m_blocks s = [] \<and> (m_lastExecutedBlockNumber s = 0 \<or> m_lastExecutedBlockNumber s < number (blockHeader block)) \<or>
    m_blocks s \<noteq> [] \<and> number (blockHeader block) = block_number (last (m_blocks s)) + 1 \<Longrightarrow>
    queue_effect submitted s (startExecute block verify s)"
| executed: "m_executeMutex s \<Longrightarrow> m_blocks s \<noteq> [] \<Longrightarrow> block_number be = block_number (last (m_blocks s)) \<Longrightarrow>
    (\<forall>h. m_result be = Some h \<longrightarrow> number h = block_number be) \<Longrightarrow>
    queue_effect submitted s (after_execute be m s)"
| header: "m_blocks s = b # rest \<Longrightarrow> m_result b \<noteq> None \<Longrightarrow> block_number b' = block_number b \<Longrightarrow>
    m_result b' = m_result b \<Longrightarrow>
    queue_effect submitted s (s\<lparr>m_commitMutex := c, m_blocks := b' # rest\<rparr>)"

text \<open>The effect of a step of a run.\<close>

definition step_ok :: "(Block \<Rightarrow> bool) \<Rightarrow> scheduler_run \<Rightarrow> scheduler_run \<Rightarrow> bool" where
  "step_ok submitted r r' \<longleftrightarrow> run_inv submitted r' \<and>
     (committed r' = committed r \<and> queue_effect submitted (scheduler r) (scheduler r') \<or>
      (\<exists>b rest. m_blocks (scheduler r) = b # rest \<and> m_result b \<noteq> None \<and>
         scheduler r' = (scheduler r)\<lparr>m_blocks := rest\<rparr> \<and> committed r' = committed r @ [block_number b]))"

lemma step_ok_idle:
  assumes "run_inv submitted r" and "same_queue (scheduler r) s" and "em_inv (m_executorManager s)"
  shows "step_ok submitted r (r\<lparr>scheduler := s\<rparr>)"
  using same_queue_inv [OF assms] assms(2) by (auto simp: step_ok_def same_queue_def intro: queue_effect.same)

lemma step_ok_unlocked:
  assumes "run_inv submitted r"
  shows "step_ok submitted r
    (r\<lparr>scheduler := (scheduler r)\<lparr>m_commitMutex := False\<rparr>, commit_thread := NoCommit, committed := committed r\<rparr>)"
  using run_invD(1) [OF assms]
  by (auto simp: step_ok_def run_inv_def sched_inv_def Let_def intro: queue_effect.same)

lemma step_ok_pop:
  assumes inv: "run_inv submitted r" and lock: "m_commitMutex (scheduler r)"
    and front: "m_blocks (scheduler r) \<noteq> []" "m_result (hd (m_blocks (scheduler r))) \<noteq> None"
  shows "step_ok submitted r
    (r\<lparr>scheduler := (scheduler r)\<lparr>m_blocks := tl (m_blocks (scheduler r))\<rparr>, commit_thread := Popped err config,
       committed := committed r @ [block_number (hd (m_blocks (scheduler r)))]\<rparr>)" (is "step_ok _ _ ?r")
proof -
  obtain b rest where b: "m_blocks (scheduler r) = b # rest" using front(1) by (cases "m_blocks (scheduler r)") auto
  have "run_inv submitted ?r"
    using pop_inv [OF run_invD(1) [OF inv] front] lock by (simp add: run_inv_def Let_def)
  then show ?thesis using front b by (simp add: step_ok_def)
qed

lemma step_ok_execute:
  assumes inv: "run_inv submitted r" and sub: "submitted block"
    and run: "executeBlock block verify (scheduler r) = (x, s)"
  shows "step_ok submitted r (r\<lparr>scheduler := s\<rparr>)"
proof -
  have inv': "sched_inv submitted s" by (rule executeBlock_inv [OF run_invD(1) [OF inv] sub run])
  from run show ?thesis
  proof (cases rule: executeBlock_cases)
    case reply
    then show ?thesis
      using inv sched_invD(1) [OF run_invD(1) [OF inv]] by (intro step_ok_idle) (auto simp: same_queue_def)
  next
    case start
    have "run_inv submitted (r\<lparr>scheduler := s\<rparr>)"
      using inv inv' start(3) by (auto simp: run_inv_def Let_def startExecute_def)
    moreover have "queue_effect submitted (scheduler r) s"
      unfolding start(3) using sub start(1,4) by (rule queue_effect.append)
    ultimately show ?thesis by (simp add: step_ok_def)
  qed
qed

lemma step_ok_commit:
  assumes inv: "run_inv submitted r" and run: "commitBlock header (scheduler r) = (x, s)"
  shows "step_ok submitted r (r\<lparr>scheduler := s, commit_thread := (if x = Inr [] then Committing else commit_thread r)\<rparr>)"
  using run
proof (cases rule: commitBlock_cases)
  case refused
  have "step_ok submitted r (r\<lparr>scheduler := s\<rparr>)"
    using inv sched_invD(1) [OF run_invD(1) [OF inv]] refused(1) by (intro step_ok_idle) (auto simp: same_queue_def)
  then show ?thesis using refused by simp
next
  case (start front rest)
  have "queue_effect submitted (scheduler r) s"
    unfolding start(6) using start(3-5) by (intro queue_effect.header) auto
  then show ?thesis
    using commit_start_inv [OF run_invD(1) [OF inv] start(3-5)] start(2,4,6)
    by (simp add: step_ok_def run_inv_def Let_def)
qed

lemma step_ok_commit_done:
  assumes inv: "run_inv submitted r" and pc: "commit_thread r = Committing"
    and run: "runCommit cw (scheduler r) = (x, pc', s)"
  shows "step_ok submitted r
    (r\<lparr>scheduler := s, commit_thread := pc', committed := committed r @ popped (scheduler r) pc'\<rparr>)"
proof -
  note front = run_invD(3) [OF inv pc]
  have lock: "m_commitMutex (scheduler r)" using run_invD(2) [OF inv] pc by simp
  from runCommit_result [OF run conjunct1 [OF front]] show ?thesis
  proof (elim disjE conjE exE)
    assume "pc' = NoCommit" "s = (scheduler r)\<lparr>m_commitMutex := False\<rparr>"
    then show ?thesis using step_ok_unlocked [OF inv] by (simp add: popped_def)
  next
    fix config assume "s = scheduler r" "pc' = Notifying config"
    then show ?thesis
      using run_invD(1) [OF inv] front lock
      by (auto simp: step_ok_def run_inv_def Let_def popped_def intro: queue_effect.same)
  next
    fix config assume "s = (scheduler r)\<lparr>m_blocks := tl (m_blocks (scheduler r))\<rparr>" "pc' = Popped None config"
    then show ?thesis using step_ok_pop [OF inv lock] front by (simp add: popped_def)
  qed
qed

context batch_environment
begin

lemma step_ok_execute_done:
  assumes inv: "run_inv submitted r" and ex: "m_executeMutex (scheduler r)" and w: "world_ok w"
    and sub: "\<And>block. submitted block \<Longrightarrow> length (block_hashes block) < 2 ^ 64"
    and run: "runExecute env w fuel (scheduler r) = Some (x, s)"
  shows "step_ok submitted r (r\<lparr>scheduler := s\<rparr>)"
proof -
  let ?bs = "m_blocks (scheduler r)"
  note sinv = run_invD(1) [OF inv]
  have inv': "sched_inv submitted s" by (rule runExecute_inv [OF sinv ex w sub run])
  from runExecute_effect [OF sinv ex w sub run]
  obtain be m where ne: "?bs \<noteq> []" "m_result (last ?bs) = None" and s: "s = after_execute be m (scheduler r)"
    and be: "block_number be = block_number (last ?bs)" "\<forall>h. m_result be = Some h \<longrightarrow> number h = block_number be"
    by blast
  have "queue_effect submitted (scheduler r) s"
    unfolding s using ex ne(1) be by (rule queue_effect.executed)
  moreover have front: "m_blocks s \<noteq> [] \<and> m_result (hd (m_blocks s)) \<noteq> None" if "m_result (hd ?bs) \<noteq> None"
  proof -
    have "butlast ?bs \<noteq> []" using ne that by (cases ?bs) (auto split: if_splits)
    then have "hd (m_blocks s) = hd ?bs" using ne(1) by (simp add: s) (metis append_butlast_last_id hd_append2)
    then show ?thesis using that by (simp add: s)
  qed
  have "run_inv submitted (r\<lparr>scheduler := s\<rparr>)"
    using inv' run_invD(2-4) [OF inv] front by (auto simp: run_inv_def Let_def s)
  ultimately show ?thesis by (simp add: step_ok_def)
qed

lemma step_effect:
  assumes step: "scheduler_step env submitted r r'" and inv: "run_inv submitted r"
    and sub: "\<And>block. submitted block \<Longrightarrow> length (block_hashes block) < 2 ^ 64"
  shows "step_ok submitted r r'"
proof -
  note em = sched_invD(1) [OF run_invD(1) [OF inv]]
  note idle = step_ok_idle [OF inv]
  show ?thesis
    using step
  proof cases
    case (notified config err x pc s)
    note front = run_invD(4) [OF inv notified(2)]
    have "m_commitMutex (scheduler r)" using run_invD(2) [OF inv] notified(2) by simp
    with notified_result [OF notified(3) conjunct1 [OF front]] front show ?thesis
      using step_ok_pop [OF inv, of err config] by (simp add: notified(1) popped_def)
  next
    case (unlock err config evs s)
    then show ?thesis using step_ok_unlocked [OF inv] by (simp add: unlockCommit_def)
  next
    case (commit_refused header x s)
    then show ?thesis using step_ok_commit [OF inv commit_refused(2)] by simp
  next
    case (commit_start header s)
    then show ?thesis using step_ok_commit [OF inv commit_start(2)] by simp
  next
    case (call w fuel createBlock tx x s)
    then show ?thesis using idle call_same [OF call(3) em] by simp
  next
    case (register_executor nm ex evs s)
    then show ?thesis using idle registerExecutor_same [OF register_executor(2) em] by simp
  next
    case (get_code contract x s)
    then show ?thesis using idle getCode_same [OF get_code(2) em] by simp
  next
    case register_receiver
    then show ?thesis using em idle by (simp add: same_queue_def registerBlockNumberReceiver_def)
  next
    case register_notifier
    then show ?thesis using em idle by (simp add: same_queue_def registerTransactionNotifier_def)
  qed (use inv sub in \<open>auto intro: step_ok_execute step_ok_execute_done step_ok_commit_done\<close>)
qed

end

subsection \<open>Reachable runs\<close>

lemma sorted_wrt_last: "sorted_wrt (<) xs \<Longrightarrow> x \<in> set xs \<Longrightarrow> x \<le> last xs" for xs :: "int list"
  by (induction xs rule: rev_induct) (auto simp: sorted_wrt_append)

lemma sorted_wrt_snoc:
  "sorted_wrt (<) (xs @ [n]) \<longleftrightarrow> sorted_wrt (<) xs \<and> (\<forall>x \<in> set xs. x < n)" for n :: int
  by (auto simp: sorted_wrt_append)

text \<open>Effects on the queue are steps of the chain.\<close>

lemma append_order:
  assumes ord: "order_inv r" and pos: "0 < n"
    and n: "m_blocks (scheduler r) = [] \<and> (m_lastExecutedBlockNumber (scheduler r) = 0 \<or>
        m_lastExecutedBlockNumber (scheduler r) < n) \<or>
      m_blocks (scheduler r) \<noteq> [] \<and> n = block_number (last (m_blocks (scheduler r))) + 1"
  shows "sorted_wrt (<) (committed r @ map block_number (m_blocks (scheduler r)) @ [n])"
    and "chain_step (chain_of r) (map block_number (m_blocks (scheduler r)) @ [n], committed r)"
proof -
  let ?ns = "map block_number (m_blocks (scheduler r))"
  have srt: "sorted_wrt (<) (committed r @ ?ns)" using ord by (simp add: order_inv_def)
  have "\<forall>m \<in> set (committed r @ ?ns). m < n"
  proof (cases "m_blocks (scheduler r) = []")
    case True
    with n ord show ?thesis by (force simp: order_inv_def)
  next
    case False
    then have "last (committed r @ ?ns) = n - 1" using n by (simp add: last_map)
    with sorted_wrt_last [OF srt] show ?thesis by force
  qed
  then show "sorted_wrt (<) (committed r @ ?ns @ [n])"
    using srt sorted_wrt_snoc [of "committed r @ ?ns" n] by simp
  from \<open>\<forall>m \<in> set (committed r @ ?ns). m < n\<close> n
  show "chain_step (chain_of r) (?ns @ [n], committed r)"
    unfolding chain_of_def by (intro chain_step.append) (auto simp: last_map)
qed

lemma after_execute_numbers:
  assumes "m_blocks s \<noteq> []" and "block_number be = block_number (last (m_blocks s))"
  shows "map block_number (m_blocks (after_execute be m s)) = map block_number (m_blocks s)"
  unfolding butlast_last_blocks [OF assms(1), of block_number] using assms(2) by simp

definition queue_numbers :: "scheduler_run \<Rightarrow> int list" where
  "queue_numbers r = map block_number (m_blocks (scheduler r))"

lemma order_inv_alt:
  "order_inv r \<longleftrightarrow>
     (\<forall>n \<in> set (committed r). 0 < n \<and> n \<le> m_lastExecutedBlockNumber (scheduler r)) \<and>
     (\<forall>n \<in> set (queue_numbers r). 0 < n) \<and> sorted_wrt (<) (committed r @ queue_numbers r)"
  by (simp add: order_inv_def queue_numbers_def)

lemma queue_effect_order:
  assumes eff: "queue_effect submitted (scheduler r) (scheduler r')" and c: "committed r' = committed r"
    and ord: "order_inv r" and pos: "\<And>block. submitted block \<Longrightarrow> 0 < number (blockHeader block)"
  shows "order_inv r' \<and> (chain_of r' = chain_of r \<or> chain_step (chain_of r) (chain_of r'))"
  using eff
proof cases
  case same
  then show ?thesis using ord c by (simp add: order_inv_def chain_of_def)
next
  case (append block verify)
  let ?n = "number (blockHeader block)"
  have q: "queue_numbers r' = queue_numbers r @ [?n]"
    "m_lastExecutedBlockNumber (scheduler r') = m_lastExecutedBlockNumber (scheduler r)"
    by (simp_all add: append(1) startExecute_def queue_numbers_def)
  note new = append_order [OF ord pos [OF append(2)] append(4)]
  show ?thesis
    using new ord pos [OF append(2)] c q unfolding order_inv_alt
    by (simp add: chain_of_def flip: queue_numbers_def)
next
  case (executed be m)
  have q: "queue_numbers r' = queue_numbers r"
    unfolding queue_numbers_def executed(1) by (rule after_execute_numbers [OF executed(3,4)])
  have "n \<le> m_lastExecutedBlockNumber (scheduler r')" if n: "n \<in> set (committed r)" for n
  proof (cases "m_result be")
    case None
    with ord n show ?thesis by (simp add: executed(1) order_inv_def)
  next
    case (Some h)
    then have "number h = block_number (last (m_blocks (scheduler r)))" using executed(4,5) by metis
    with Some have "m_lastExecutedBlockNumber (scheduler r') = last (committed r @ queue_numbers r)"
      using executed(3) by (simp add: executed(1) queue_numbers_def last_map)
    with sorted_wrt_last [of "committed r @ queue_numbers r" n] n ord show ?thesis by (simp add: order_inv_alt)
  qed
  with ord c q show ?thesis by (simp add: order_inv_alt chain_of_def flip: queue_numbers_def)
next
  case (header b rest b' k)
  then show ?thesis using ord c by (simp add: order_inv_def chain_of_def)
qed

lemma step_ok_order:
  assumes ok: "step_ok submitted r r'" and inv: "run_inv submitted r" and ord: "order_inv r"
    and pos: "\<And>block. submitted block \<Longrightarrow> 0 < number (blockHeader block)"
  shows "order_inv r' \<and> (chain_of r' = chain_of r \<or> chain_step (chain_of r) (chain_of r'))"
  using ok unfolding step_ok_def
proof (elim conjE disjE exE)
  assume "committed r' = committed r" "queue_effect submitted (scheduler r) (scheduler r')"
  then show ?thesis using queue_effect_order ord pos by blast
next
  fix b rest
  assume b: "m_blocks (scheduler r) = b # rest" "m_result b \<noteq> None"
    "scheduler r' = (scheduler r)\<lparr>m_blocks := rest\<rparr>" "committed r' = committed r @ [block_number b]"
  have "result_ok (m_lastExecutedBlockNumber (scheduler r)) b"
    using sched_invD(3) [OF run_invD(1) [OF inv]] b(1) by simp
  with b(2) have "block_number b \<le> m_lastExecutedBlockNumber (scheduler r)"
    unfolding result_ok_def by fastforce
  then have "order_inv r'" using ord b by (simp add: order_inv_def)
  moreover have "chain_step (chain_of r) (chain_of r')"
    using chain_step.commit by (simp add: chain_of_def b)
  ultimately show ?thesis by blast
qed

lemma start_run_inv: "em_inv m \<Longrightarrow> run_inv submitted (start_run m auth) \<and> order_inv (start_run m auth)"
  by (simp add: run_inv_def start_run_def new_scheduler_def sched_inv_def order_inv_def)

context batch_environment
begin

lemma reachable_inv:
  assumes "(scheduler_step env submitted)\<^sup>*\<^sup>* r r'" and "run_inv submitted r"
    and "\<And>block. submitted block \<Longrightarrow> length (block_hashes block) < 2 ^ 64"
  shows "run_inv submitted r'"
  using assms(1)
proof (induction rule: rtranclp_induct)
  case (step y z)
  from step_effect [OF step(2,3) assms(3)] show ?case by (simp add: step_ok_def)
qed (rule assms(2))

lemma reachable_order:
  assumes "(scheduler_step env submitted)\<^sup>*\<^sup>* r r'" and "run_inv submitted r" and "order_inv r"
    and small: "\<And>block. submitted block \<Longrightarrow> length (block_hashes block) < 2 ^ 64"
    and pos: "\<And>block. submitted block \<Longrightarrow> 0 < number (blockHeader block)"
  shows "order_inv r'"
  using assms(1)
proof (induction rule: rtranclp_induct)
  case (step y z)
  have inv: "run_inv submitted y" by (rule reachable_inv [OF step(1) assms(2) small])
  from step_ok_order [OF step_effect [OF step(2) inv small] inv step(3) pos] show ?case by blast
qed (rule assms(3))

end

subsection \<open>A block whose execution failed\<close>

definition failed_front :: "int \<Rightarrow> scheduler_run \<Rightarrow> bool" where
  "failed_front n r \<longleftrightarrow>
     (\<exists>b rest. m_blocks (scheduler r) = b # rest \<and> m_result b = None \<and> block_number b = n \<and>
        (m_executeMutex (scheduler r) \<longrightarrow> rest \<noteq> []))"

lemma step_ok_failed:
  assumes ok: "step_ok submitted r r'" and failed: "failed_front n r"
  shows "failed_front n r' \<and> committed r' = committed r"
proof -
  obtain b rest where b: "m_blocks (scheduler r) = b # rest" "m_result b = None" "block_number b = n"
    "m_executeMutex (scheduler r) \<longrightarrow> rest \<noteq> []"
    using failed unfolding failed_front_def by blast
  from ok b have c: "committed r' = committed r" and eff: "queue_effect submitted (scheduler r) (scheduler r')"
    by (auto simp: step_ok_def)
  from eff have "failed_front n r'"
  proof cases
    case same
    with failed show ?thesis by (simp add: failed_front_def)
  next
    case (append block verify)
    with b show ?thesis by (simp add: failed_front_def startExecute_def)
  next
    case (executed be m)
    with b have "rest \<noteq> []" by simp
    with b executed(1) show ?thesis by (simp add: failed_front_def)
  next
    case (header b' rest' b'' k)
    with b show ?thesis by simp
  qed
  with c show ?thesis by blast
qed

lemma failed_front_replies:
  assumes "sched_inv submitted s" and "m_blocks s = b # rest" and "m_result b = None"
  shows "commitBlock header s = (Inr [CommitReply (Some (Code InvalidStatus)) None], s)"
    and "\<not> m_executeMutex s \<Longrightarrow> number (blockHeader block) = block_number b \<Longrightarrow>
      executeBlock block verify s = (Inr [ExecuteReply None None], s)"
proof -
  show "commitBlock header s = (Inr [CommitReply (Some (Code InvalidStatus)) None], s)"
    using assms(2,3) by (simp add: commitBlock_def Let_def)
  have le: "block_number b \<le> block_number (last (m_blocks s))"
    using consecutive_bounds [OF sched_invD(2) [OF assms(1)], of "block_number b"] assms(2)
    by (auto simp: last_map split: if_splits)
  show "executeBlock block verify s = (Inr [ExecuteReply None None], s)"
    if "\<not> m_executeMutex s" "number (blockHeader block) = block_number b"
    unfolding executeBlock_def Let_def using that assms(2,3) le by simp
qed

context batch_environment
begin

lemma failed_forever:
  assumes "(scheduler_step env submitted)\<^sup>*\<^sup>* r r'" and "run_inv submitted r" and "failed_front n r"
    and small: "\<And>block. submitted block \<Longrightarrow> length (block_hashes block) < 2 ^ 64"
  shows "failed_front n r' \<and> committed r' = committed r"
  using assms(1)
proof (induction rule: rtranclp_induct)
  case (step y z)
  have inv: "run_inv submitted y" by (rule reachable_inv [OF step(1) assms(2) small])
  from step_ok_failed [OF step_effect [OF step(2) inv small]] step(3) show ?case by auto
qed (use assms(3) in simp)

end

end
