(* ===== verification/Scheduler_Correctness.thy ===== *)
theory Scheduler_Correctness
  imports Scheduler_Runs
begin

text \<open>
  The properties of the scheduler object: of all its runs, of the life of one block from
  \<open>executeBlock\<close> to the answer of \<open>commitBlock\<close>, and of read-only calls.
\<close>

subsection \<open>Registered executors\<close>

lemma startBatch_names: "m_name2Executors (snd (snd (startBatch env respond order be m))) = m_name2Executors m"
proof -
  obtain x b where send: "sendBatch env be m = (x, b)" by fastforce
  then have b: "m_name2Executors (manager b) = m_name2Executors m"
    using sendBatch_frame [of env be m] by (simp add: batch_frame_def)
  obtain c b1 where c: "checkBatch b = (c, b1)" by fastforce
  then have "manager b1 = manager b" using checkBatch_manager [of b] by simp
  with b handleResponses_manager [of respond "order (sent b1)" b1] send c show ?thesis
    by (auto simp: startBatch_def split: sum.splits prod.splits)
qed

lemma DMTExecute_names:
  "DMTExecute env w fuel n be m = Some (x, be', m') \<Longrightarrow> m_name2Executors m' = m_name2Executors m"
proof (induction fuel arbitrary: n be m)
  case (Suc fuel)
  obtain cs b1 m1 where run: "startBatch env (batchRespond w n) (arrival w n) be m = (cs, b1, m1)"
    by (metis prod_cases3)
  then have m1: "m_name2Executors m1 = m_name2Executors m"
    using startBatch_names [of env "batchRespond w n" "arrival w n" be m] by simp
  show ?case
  proof (cases "\<exists>cs'. cs = Inr None # cs' \<and> m_executiveStates b1 \<noteq> []")
    case True
    with Suc.prems run Suc.IH [of "Suc n" b1 m1] m1 show ?thesis by auto
  next
    case False
    with Suc.prems run m1 show ?thesis
      by (auto split: list.splits sum.splits option.splits prod.splits if_splits)
  qed
qed simp

lemma dagSend_names: "m_name2Executors (snd (snd (dagSend env cs ms m))) = m_name2Executors m"
proof (induction env cs ms m rule: dagSend.induct)
  case (2 env c rest ms m)
  obtain x m1 where d: "dispatchExecutor (pq_top env) c m = (x, m1)" by fastforce
  then have m1: "m_name2Executors m1 = m_name2Executors m"
    using dispatchExecutor_names [of "pq_top env" c m] by simp
  show ?case
  proof (cases "\<exists>ex. x = Inr (Some ex)")
    case True
    with "2.IH" [OF d [symmetric]] d m1 show ?thesis by (auto simp: Let_def split: prod.splits sum.splits)
  next
    case False
    with d m1 show ?thesis by (auto split: sum.splits option.splits)
  qed
qed simp

lemma DAGExecute_names: "DAGExecute env w be m = (x, be', m') \<Longrightarrow> m_name2Executors m' = m_name2Executors m"
  using dagSend_names [of env "dagContracts (m_executiveStates be)" "m_executiveStates be" m]
  by (auto simp: DAGExecute_def Let_def split: prod.splits sum.splits)

lemma asyncExecute_names:
  assumes "asyncExecute env w auth fuel be m = Some (x, be', m')"
  shows "m_name2Executors m' = m_name2Executors m"
proof -
  obtain y be1 where b: "buildExecutives w auth be = (y, be1)" by fastforce
  obtain z be2 m2 where d: "DAGExecute env w be1 m = (z, be2, m2)" by (metis prod_cases3)
  note names = DMTExecute_names [of env w fuel 0 be1 m] DMTExecute_names [of env w fuel 0 be2 m2]
    DAGExecute_names [OF d]
  show ?thesis
    using assms b d names
    by (auto simp: asyncExecute_def split: if_splits sum.splits list.splits option.splits)
qed

subsection \<open>The life of a block\<close>

text \<open>The requests for one block without other steps in between; \<open>err\<close> is what the notifier reports.\<close>

definition executeWhole ::
  "environment \<Rightarrow> world \<Rightarrow> nat \<Rightarrow> Block \<Rightarrow> bool \<Rightarrow> SchedulerImpl \<Rightarrow> ((exn + event list) \<times> SchedulerImpl) option"
where
  "executeWhole env w fuel block verify s =
     (case executeBlock block verify s of
        (Inr [], s') \<Rightarrow> runExecute env w fuel s'
      | (x, s') \<Rightarrow> Some (x, s'))"

definition commitWhole ::
  "commit_world \<Rightarrow> failure option \<Rightarrow> BlockHeader \<Rightarrow> SchedulerImpl \<Rightarrow> (exn + event list) \<times> SchedulerImpl"
where
  "commitWhole cw err header s =
     (let finish = (\<lambda>evs err config s. case unlockCommit err config s of (evs', s') \<Rightarrow> (Inr (evs @ evs'), s')) in
      case commitBlock header s of
        (Inr [], s1) \<Rightarrow>
          (case runCommit cw s1 of
             (Inr evs, Notifying config, s2) \<Rightarrow>
               (case notified err config s2 of
                  (Inr evs', Popped err' config', s3) \<Rightarrow> finish (evs @ evs') err' config' s3
                | (x, _, s3) \<Rightarrow> (x, s3))
           | (Inr evs, Popped err' config', s2) \<Rightarrow> finish evs err' config' s2
           | (x, _, s2) \<Rightarrow> (x, s2))
      | (x, s1) \<Rightarrow> (x, s1))"

text \<open>A commit in which everybody agrees.\<close>

definition commit_agreed :: "nat \<Rightarrow> commit_answers \<Rightarrow> bool" where
  "commit_agreed n a \<longleftrightarrow>
     \<not> prewriteError a \<and> \<not> prepareStorageError a \<and> \<not> commitStorageError a \<and>
     length (prepareErrors a) = n \<and> True \<notin> set (prepareErrors a) \<and>
     length (commitErrors a) = n \<and> True \<notin> set (commitErrors a)"

lemma asyncCommit_agreed:
  assumes "0 < n" and "commit_agreed n a"
  shows "asyncCommit n a = [None]"
proof -
  have once: "handle_answers CommitError answers (count_result False (new_status (1 + n))) = [None]"
    if "length answers = n" "True \<notin> set answers" for answers
    using that assms(1) by (subst handle_answers_once) auto
  show ?thesis
    using assms(2) once [of "prepareErrors a"] once [of "commitErrors a"]
    by (auto simp: asyncCommit_def batchBlockCommit_def commit_agreed_def)
qed

definition ledger_agreed :: "commit_world \<Rightarrow> bool" where
  "ledger_agreed cw \<longleftrightarrow>
     (\<forall>xs. mset (configOrder cw xs) = mset xs) \<and>
     (\<forall>a \<in> set (ledger_answers (theLedger cw)). counted_answer (lexicalCast cw) a \<and> \<not> fst a)"

lemma ledger_agreed_config:
  "ledger_agreed cw \<Longrightarrow>
     asyncGetLedgerConfig (lexicalCast cw) (defaultConfig cw) (theLedger cw) (configOrder cw) =
       [(None, Some (config_of (lexicalCast cw) (theLedger cw)))]"
  using ledger_config_calls [of "configOrder cw" "lexicalCast cw" "defaultConfig cw" "theLedger cw"]
  by (auto simp: ledger_agreed_def)

lemma commitWhole_ok:
  assumes s: "\<not> m_commitMutex s" "m_blocks s = front # rest" "m_result front \<noteq> None"
    and num: "number header = block_number front" and n: "0 < manager_size (m_executorManager s)"
    and agreed: "commit_agreed (manager_size (m_executorManager s)) (commitAnswers cw)" "ledger_agreed cw"
    and rc: "\<forall>r \<in> set (m_executiveResults front). receipt r \<noteq> None"
    and sync: "m_syncBlock front \<longrightarrow> length (m_executiveResults front) \<le> length (transactions (m_block front))"
  defines "config \<equiv> config_of (lexicalCast cw) (theLedger cw)"
  shows "\<exists>results. length results = length (m_executiveResults front) \<and>
    commitWhole cw err header s =
      (Inr ((if m_txNotifier s then [NotifyTransactions (number header) results] @
               (if m_blockNumberReceiver s then [ReceiveBlockNumber (configBlockNumber config)] else []) else []) @
            [CommitReply (if m_txNotifier s then err else None) (Some config)]),
       s\<lparr>m_blocks := rest, m_commitMutex := False\<rparr>)"
proof -
  let ?front = "front\<lparr>m_block := (m_block front)\<lparr>blockHeader := header\<rparr>\<rparr>"
  define s1 where "s1 = s\<lparr>m_commitMutex := True, m_blocks := ?front # rest\<rparr>"
  have start: "commitBlock header s = (Inr [], s1)" using s num by (simp add: commitBlock_def Let_def s1_def)
  have run: "runCommit cw s1 = notifyBlock cw config s1"
    using asyncCommit_agreed [OF n agreed(1)] ledger_agreed_config [OF agreed(2)]
    by (simp add: runCommit_def Let_def s1_def config_def)
  obtain results where "asyncNotify True (headerHash cw) ?front = Inr (Some (number header, results))"
    "length results = length (m_executiveResults front)"
    using asyncNotify_ok [of ?front "headerHash cw"] rc sync by auto
  with start run show ?thesis
    by (intro exI [of _ results])
       (simp add: commitWhole_def Let_def notifyBlock_def notified_def popBlock_def unlockCommit_def s1_def)
qed

lemma executeWhole_ok:
  assumes idle: "m_blocks s = []" "\<not> m_executeMutex s"
    and num: "m_lastExecutedBlockNumber s = 0 \<or> m_lastExecutedBlockNumber s < number (blockHeader block)"
    and run: "asyncExecute env w (m_isAuthCheck s) fuel (new_executive block 0 False verify) (m_executorManager s) =
      Some (Inr [(None, Some header)], be, m)"
  shows "executeWhole env w fuel block verify s =
    Some (Inr [ExecuteReply None (Some header)],
      s\<lparr>m_blocks := [be], m_executorManager := m, m_lastExecutedBlockNumber := number header, m_executeMutex := False\<rparr>)"
proof -
  have "executeBlock block verify s = (Inr [], startExecute block verify s)"
    using idle num by (auto simp: executeBlock_def Let_def)
  then show ?thesis
    using run idle by (simp add: executeWhole_def runExecute_def startExecute_def Let_def)
qed

subsection \<open>Runs for evaluation\<close>

definition sample_commit :: commit_world where
  "sample_commit =
     \<lparr>commitAnswers = \<lparr>prewriteError = False, prepareStorageError = False, prepareErrors = [False],
        commitStorageError = False, commitErrors = [False], rollbackAnswers = []\<rparr>,
      theLedger = sample_ledger, configOrder = id, defaultConfig = sample_config,
      lexicalCast = decimal_cast, headerHash = stateRoot\<rparr>"

abbreviation sample_submitted :: "Block \<Rightarrow> bool" where
  "sample_submitted block \<equiv> block = sample_block"

lemma sample_manager_inv: "em_inv sample_manager" "manager_size sample_manager = 1"
  using sample_manager_ready
  by (simp_all add: manager_ready_def manager_size_def addExecutor_def empty_manager_def)

lemma sample_submitted_ok:
  "sample_submitted block \<Longrightarrow> length (block_hashes block) < 2 ^ 64"
  "sample_submitted block \<Longrightarrow> 0 < number (blockHeader block)"
  by (simp_all add: sample_block_ok(2)) (simp add: sample_block_def)

lemma sample_world_world_ok: "world_ok sample_world"
  by (simp add: world_ok_def sample_world_ok)

lemma sample_commit_ok: "commit_agreed 1 (commitAnswers sample_commit)" "ledger_agreed sample_commit"
  using sample_ledger_answers by (simp_all add: commit_agreed_def ledger_agreed_def sample_commit_def)

text \<open>The run after the execution of one block that ends with the outcome \<open>be\<close>.\<close>

definition after_block :: "BlockExecutive \<Rightarrow> ExecutorManager \<Rightarrow> scheduler_run" where
  "after_block be m =
     \<lparr>scheduler = after_execute be m (startExecute sample_block False (new_scheduler sample_manager False)),
      commit_thread = NoCommit, committed = []\<rparr>"

lemma sample_execution:
  assumes "world_ok w"
    and run: "asyncExecute sample_env w False 5 (new_executive sample_block 0 False False) sample_manager = Some (x, be, m)"
  shows "(scheduler_step sample_env sample_submitted)\<^sup>*\<^sup>* (start_run sample_manager False) (after_block be m)"
proof -
  let ?s = "new_scheduler sample_manager False" and ?r = "start_run sample_manager False"
  let ?s1 = "startExecute sample_block False ?s"
  let ?r1 = "?r\<lparr>scheduler := ?s1\<rparr>"
  have ex: "executeBlock sample_block False (scheduler ?r) = (Inr [], ?s1)"
    by (simp add: start_run_def executeBlock_def new_scheduler_def Let_def)
  have step1: "scheduler_step sample_env sample_submitted ?r ?r1"
    by (rule scheduler_step.execute [OF refl ex])
  have s1: "m_blocks ?s1 = [new_executive sample_block 0 False False]" "m_executeMutex ?s1"
    "m_executorManager ?s1 = sample_manager" "m_isAuthCheck ?s1 = False"
    by (simp_all add: startExecute_def new_scheduler_def)
  have "execute_effect sample_block x be"
    using sample.asyncExecute_effect [OF sample_manager_inv(1) assms(1) sample_submitted_ok(1) run] by simp
  then obtain y where "runExecute sample_env w 5 ?s1 = Some (y, after_execute be m ?s1)"
    using run s1 by (auto simp: runExecute_def Let_def after_execute_def execute_effect_def)
  then have step2: "scheduler_step sample_env sample_submitted ?r1 (?r1\<lparr>scheduler := after_execute be m ?s1\<rparr>)"
    using s1(2) assms(1) by (intro scheduler_step.execute_done) simp_all
  have "?r1\<lparr>scheduler := after_execute be m ?s1\<rparr> = after_block be m"
    by (simp add: after_block_def start_run_def)
  with step1 step2 show ?thesis by (metis (no_types, lifting) converse_rtranclp_into_rtranclp r_into_rtranclp)
qed

lemma after_block_simps [simp]:
  "m_blocks (scheduler (after_block be m)) = [be]" "m_executorManager (scheduler (after_block be m)) = m"
  "\<not> m_executeMutex (scheduler (after_block be m))" "\<not> m_commitMutex (scheduler (after_block be m))"
  "\<not> m_txNotifier (scheduler (after_block be m))" "commit_thread (after_block be m) = NoCommit"
  "committed (after_block be m) = []"
  by (simp_all add: after_block_def startExecute_def new_scheduler_def after_execute_def)

text \<open>A successful and a failed execution.\<close>

lemma sample_success:
  obtains header be m where
    "(scheduler_step sample_env sample_submitted)\<^sup>*\<^sup>* (start_run sample_manager False) (after_block be m)"
    "executed_block sample_world sample_block False m be header" "manager_size m = 1"
proof -
  obtain header be m where run: "asyncExecute sample_env sample_world False 5
      (new_executive sample_block 0 False False) sample_manager = Some (Inr [(None, Some header)], be, m)"
    and ok: "executed_block sample_world sample_block False m be header"
    using sample.asyncExecute_terminates [OF sample_manager_ready sample_world_ok(1,2,5,3,6,7,8)
        sample_block_ok(1), of 5] sample_block_ok(2) by fastforce
  have "manager_size m = 1"
    using asyncExecute_names [OF run] sample_manager_inv(2) by (simp only: manager_size_def)
  with that sample_execution [OF sample_world_world_ok run] ok show ?thesis by blast
qed

lemma sample_failure:
  obtains be m where
    "(scheduler_step sample_env sample_submitted)\<^sup>*\<^sup>* (start_run sample_manager False) (after_block be m)"
    "m_result be = None" "block_number be = 5"
proof -
  let ?w = "sample_world\<lparr>nextBlockError := \<lambda>_. True\<rparr>" and ?be = "new_executive sample_block 0 False False"
  have w: "world_ok ?w"
    using sample_world_world_ok
    by (simp add: world_ok_def permuting_def dag_permuting_def dag_messages_def)
  have build: "buildExecutives ?w False ?be = (Inr True, snd (buildExecutives ?w False ?be))" by code_simp
  define be where "be = snd (buildExecutives ?w False ?be)"
  note sb = same_block_frame [OF buildExecutives_same [OF build], folded be_def]
  have "executorView sample_manager \<noteq> []"
    using sample_manager_inv(2) length_executorView [of sample_manager] by (metis list.size(3) zero_neq_one)
  then have "batchNextBlock (manager_size sample_manager) (map (nextBlockError ?w) (executorView sample_manager)) =
      [Some UnknownError]"
    by (subst batchNextBlock_once [OF sample_manager_ready]) (auto simp: neq_Nil_conv)
  then have "asyncExecute sample_env ?w False 5 ?be sample_manager =
      Some (Inr [(Some NextBlockError, None)], be, sample_manager)"
    using build sb by (simp add: asyncExecute_def be_def [symmetric])
  from sample_execution [OF w this] that sb show ?thesis by (simp add: sample_block_def)
qed

subsection \<open>Properties\<close>

text \<open>
  (C4) In every run of the scheduler, with any requests and callbacks interleaved, the blocks in the queue have
  consecutive numbers, a block being executed is the last one and has no result yet, the
  executed ones have a header with their number, and a commit in progress is that of an executed
  first block. So the search of \<open>executeBlock\<close> for a number in the range of the queue never runs past its
  end: it answers with the result of the block with that number.
\<close>

theorem scheduler_queue_invariant:
  assumes "batch_environment env" and "em_inv m"
    and "\<And>block. submitted block \<Longrightarrow> length (block_hashes block) < 2 ^ 64"
    and "(scheduler_step env submitted)\<^sup>*\<^sup>* (start_run m auth) r"
  shows "run_inv submitted r \<and>
    (m_blocks (scheduler r) \<noteq> [] \<longrightarrow> \<not> m_executeMutex (scheduler r) \<longrightarrow>
     block_number (hd (m_blocks (scheduler r))) \<le> number (blockHeader block) \<longrightarrow>
     number (blockHeader block) \<le> block_number (last (m_blocks (scheduler r))) \<longrightarrow>
     (\<exists>b \<in> set (m_blocks (scheduler r)). block_number b = number (blockHeader block) \<and>
        executeBlock block verify (scheduler r) = (Inr [ExecuteReply None (m_result b)], scheduler r)))"
proof -
  have inv: "run_inv submitted r"
    using batch_environment.reachable_inv [OF assms(1,4)] start_run_inv [OF assms(2)] assms(3) by blast
  moreover note cons = sched_invD(2) [OF run_invD(1) [OF inv]]
  ultimately show ?thesis
    using findBlock_found [OF cons, of "number (blockHeader block)"]
    by (fastforce simp: executeBlock_def Let_def)
qed

theorem scheduler_queue_invariant_witness:
  "\<exists>be m. (scheduler_step sample_env sample_submitted)\<^sup>*\<^sup>* (start_run sample_manager False) (after_block be m) \<and>
     executeBlock sample_block True (scheduler (after_block be m)) =
       (Inr [ExecuteReply None (m_result be)], scheduler (after_block be m))"
proof -
  obtain header be m where run: "(scheduler_step sample_env sample_submitted)\<^sup>*\<^sup>* (start_run sample_manager False) (after_block be m)"
    and ok: "executed_block sample_world sample_block False m be header" by (rule sample_success)
  from ok have "block_number be = number (blockHeader sample_block)" by (simp add: executed_block_def)
  with scheduler_queue_invariant [OF sample.batch_environment_axioms sample_manager_inv(1) sample_submitted_ok(1) run,
      of sample_block True] run show ?thesis by auto
qed







text \<open>
  (C39) \<open>commitBlock\<close> reads the front of the queue when it does not get the lock. The lock is released only after
  the committed block was removed, so there is a run in which the queue is empty at that point and the access
  is undefined.
\<close>

theorem commit_reads_empty_queue:
  "\<exists>r. (scheduler_step sample_env sample_submitted)\<^sup>*\<^sup>* (start_run sample_manager False) r \<and>
     fst (commitBlock header (scheduler r)) = Inl EmptyListFront"
proof -
  obtain h be m where run: "(scheduler_step sample_env sample_submitted)\<^sup>*\<^sup>* (start_run sample_manager False) (after_block be m)"
    and ok: "executed_block sample_world sample_block False m be h" "manager_size m = 1" by (rule sample_success)
  let ?r = "after_block be m"
  obtain s1 where c: "commitBlock (blockHeader (m_block be)) (scheduler ?r) = (Inr [], s1)"
    and s1: "m_commitMutex s1" "length (m_blocks s1) = 1" "m_executorManager s1 = m" "\<not> m_txNotifier s1"
    using ok(1) by (simp add: commitBlock_def Let_def executed_block_def)
  have step1: "scheduler_step sample_env sample_submitted ?r (?r\<lparr>scheduler := s1, commit_thread := Committing\<rparr>)"
    by (rule scheduler_step.commit_start [OF c])
  have answers: "asyncCommit (manager_size m) (commitAnswers sample_commit) = [None]"
    using asyncCommit_agreed [of 1] sample_commit_ok(1) ok(2) by simp
  obtain x pc s2 where d: "runCommit sample_commit s1 = (x, pc, s2)" by (metis prod_cases3)
  then have s2: "m_commitMutex s2" "m_blocks s2 = []"
    using s1 answers ledger_agreed_config [OF sample_commit_ok(2)]
    by (auto simp: runCommit_def Let_def notifyBlock_def popBlock_def length_Suc_conv)
  let ?r1 = "?r\<lparr>scheduler := s1, commit_thread := Committing\<rparr>"
  have "scheduler_step sample_env sample_submitted ?r1
      (?r1\<lparr>scheduler := s2, commit_thread := pc, committed := committed ?r1 @ popped (scheduler ?r1) pc\<rparr>)"
    by (rule scheduler_step.commit_done) (use d in simp_all)
  with run step1 have "(scheduler_step sample_env sample_submitted)\<^sup>*\<^sup>* (start_run sample_manager False)
      (?r1\<lparr>scheduler := s2, commit_thread := pc, committed := committed ?r1 @ popped (scheduler ?r1) pc\<rparr>)"
    by (meson rtranclp.rtrancl_into_rtrancl)
  moreover have "fst (commitBlock header s2) = Inl EmptyListFront" using s2 by (simp add: commitBlock_def Let_def)
  ultimately show ?thesis by (intro exI conjI) (assumption, simp)
qed

text \<open>
  (C5) The life of a block: an idle scheduler whose executors answer finally and that
  accepts the block's number executes it, answering with a header of that number; when the
  storage, the executors and the ledger agree, the commit of a header with that number tells the
  notifier one result per transaction, tells the receiver the ledger's block number, answers with the ledger's
  configuration and leaves the scheduler idle with the block as its last executed one.
\<close>

theorem block_lifecycle:
  assumes "batch_environment env" and "manager_ready (m_executorManager s)"
    and "permuting w" and "dag_permuting w"
    and "\<And>n ex msg. final_answer (batchRespond w n ex msg)" and "dag_final w"
    and "keyLocks (createExecutionMessage w) = []"
    and "\<And>ex. \<not> nextBlockError w ex" and "\<And>ex. getHash w ex \<noteq> None"
    and "''0'' \<notin> set (block_targets block)" and "length (block_hashes block) < 2 ^ 64"
    and "2 * length (block_hashes block) < fuel"
    and "verify \<longrightarrow> length (block_hashes block) \<le> length (transactions block)"
    and "m_blocks s = []" and "\<not> m_executeMutex s" and "\<not> m_commitMutex s"
    and "m_lastExecutedBlockNumber s = 0 \<or> m_lastExecutedBlockNumber s < number (blockHeader block)"
    and "commit_agreed (manager_size (m_executorManager s)) (commitAnswers cw)" and "ledger_agreed cw"
    and "number header' = number (blockHeader block)"
  shows "\<exists>header s1 results s2 config. config = config_of (lexicalCast cw) (theLedger cw) \<and>
    executeWhole env w fuel block verify s = Some (Inr [ExecuteReply None (Some header)], s1) \<and>
    number header = number (blockHeader block) \<and>
    commitWhole cw err header' s1 =
      (Inr ((if m_txNotifier s then [NotifyTransactions (number (blockHeader block)) results] @
               (if m_blockNumberReceiver s then [ReceiveBlockNumber (configBlockNumber config)] else []) else []) @
            [CommitReply (if m_txNotifier s then err else None) (Some config)]), s2) \<and>
    length results = length (block_hashes block) \<and> m_blocks s2 = [] \<and> \<not> m_executeMutex s2 \<and> \<not> m_commitMutex s2 \<and>
    m_lastExecutedBlockNumber s2 = number (blockHeader block)"
proof -
  obtain header be m where run: "asyncExecute env w (m_isAuthCheck s) fuel (new_executive block 0 False verify)
      (m_executorManager s) = Some (Inr [(None, Some header)], be, m)"
    and ok: "executed_block w block verify m be header"
    using batch_environment.asyncExecute_terminates [OF assms(1-12)] by blast
  define s1 where "s1 = s\<lparr>m_blocks := [be], m_executorManager := m, m_lastExecutedBlockNumber := number header,
    m_executeMutex := False\<rparr>"
  have exec: "executeWhole env w fuel block verify s = Some (Inr [ExecuteReply None (Some header)], s1)"
    unfolding s1_def by (rule executeWhole_ok [OF assms(14,15,17) run])
  have size: "manager_size m = manager_size (m_executorManager s)"
    using asyncExecute_names [OF run] by (simp add: manager_size_def)
  have len: "length (m_executiveResults be) = length (block_hashes block)"
  proof -
    have "map (\<lambda>r. (resultHash r, source r)) (m_executiveResults be) = block_hashes block"
      using ok by (simp add: executed_block_def)
    from arg_cong [OF this, of length] show ?thesis by simp
  qed
  have be: "m_result be \<noteq> None" "number header' = block_number be" "number header = number (blockHeader block)"
    "\<forall>r \<in> set (m_executiveResults be). receipt r \<noteq> None"
    "m_syncBlock be \<longrightarrow> length (m_executiveResults be) \<le> length (transactions (m_block be))"
    using ok assms(13,20) len by (simp_all add: executed_block_def)
  have n: "0 < manager_size (m_executorManager s1)" and agreed: "commit_agreed (manager_size (m_executorManager s1)) (commitAnswers cw)"
    using manager_size_ready [OF assms(2)] assms(18) size by (simp_all add: s1_def)
  have "\<not> m_commitMutex s1" "m_blocks s1 = [be]" using assms(16) by (simp_all add: s1_def)
  from commitWhole_ok [OF this be(1,2) n agreed assms(19) be(4,5), of err] exec be(3) len assms(20)
  show ?thesis by (auto simp: s1_def)
qed

theorem block_lifecycle_witness:
  "\<exists>header s1 results s2 config.
     executeWhole sample_env sample_world 5 sample_block False
       ((new_scheduler sample_manager False)\<lparr>m_txNotifier := True\<rparr>) = Some (Inr [ExecuteReply None (Some header)], s1) \<and>
     commitWhole sample_commit None (blockHeader sample_block) s1 =
       (Inr [NotifyTransactions (number (blockHeader sample_block)) results, CommitReply None (Some config)], s2) \<and>
     length results = 2 \<and> m_blocks s2 = []"
proof -
  let ?s = "(new_scheduler sample_manager False)\<lparr>m_txNotifier := True\<rparr>"
  have "m_executorManager ?s = sample_manager" by (simp add: new_scheduler_def)
  then have m: "manager_ready (m_executorManager ?s)"
    "commit_agreed (manager_size (m_executorManager ?s)) (commitAnswers sample_commit)"
    using sample_manager_ready sample_commit_ok(1) sample_manager_inv(2) by simp_all
  have s: "m_blocks ?s = []" "\<not> m_executeMutex ?s" "\<not> m_commitMutex ?s"
    "m_lastExecutedBlockNumber ?s = 0" "m_txNotifier ?s" "\<not> m_blockNumberReceiver ?s"
    by (simp_all add: new_scheduler_def)
  show ?thesis
    using block_lifecycle [OF sample.batch_environment_axioms m(1) sample_world_ok(1,2,5,3,6,7,8) sample_block_ok(1)
        _ _ _ s(1-3) disjI1 [OF s(4)] m(2) sample_commit_ok(2) refl, of 5 False None] s(5,6) sample_block_ok(2)
    by auto
qed

lemma call_block:
  fixes tx :: Transaction
  assumes "transactionsMetaData createBlock = []" and "transactions createBlock = []"
  defines "block \<equiv> createBlock\<lparr>transactions := transactions createBlock @ [tx]\<rparr>"
  shows "block_targets block = [txTo tx]" and "length (block_hashes block) = 1" and "receipts block = receipts createBlock"
  using assms by (simp_all add: block_targets_def block_hashes_def)

text \<open>
  (C38) A read-only call leaves the queue of blocks, the locks and the last executed number alone and takes a new
  context number. If it answers without an error, it does so with a receipt; the only
  exceptions are the key-lock error and the index error of the address \<open>0\<close>. If the
  executors answer finally, three batches are enough and the answer is a receipt.
\<close>

theorem call_outcome_receipt:
  assumes "batch_environment env" and "manager_ready (m_executorManager s)" and "permuting w"
    and "transactionsMetaData createBlock = []" and "transactions createBlock = []" and "receipts createBlock = []"
  shows "(\<forall>x s'. call env w fuel createBlock tx s = Some (x, s') \<longrightarrow>
      same_queue s s' \<and> m_calledContextID s' = m_calledContextID s + 1 \<and>
      (x = Inl (Throw UnexpectedKeyLockError) \<or> x = Inl OutOfRange \<and> txTo tx = ''0'' \<or>
       x = Inr [CallReply (Some (Code UnknownError)) None] \<or> (\<exists>rc. x = Inr [CallReply None (Some rc)]))) \<and>
    ((\<forall>n ex msg. final_answer (batchRespond w n ex msg)) \<and> keyLocks (createExecutionMessage w) = [] \<and>
      txTo tx \<noteq> ''0'' \<and> 2 < fuel \<longrightarrow>
      (\<exists>rc s'. call env w fuel createBlock tx s = Some (Inr [CallReply None (Some rc)], s')))"
proof -
  let ?block = "createBlock\<lparr>transactions := transactions createBlock @ [tx]\<rparr>"
  let ?run = "asyncExecute env w (m_isAuthCheck s) fuel (new_executive ?block (uint (m_calledContextID s)) True False)
    (m_executorManager s)"
  note blk = call_block [OF assms(4,5), of tx]
  have shape: "call env w fuel createBlock tx s = map_option (\<lambda>(r, be, m).
      (case r of Inl e \<Rightarrow> Inl e | Inr [] \<Rightarrow> Inr [] | Inr ((Some _, _) # _) \<Rightarrow> Inr [CallReply (Some (Code UnknownError)) None]
       | Inr ((None, _) # _) \<Rightarrow> (case receipts (m_block be) of [] \<Rightarrow> Inl OutOfRange | rcpt # _ \<Rightarrow> Inr [CallReply None rcpt]),
       s\<lparr>m_calledContextID := m_calledContextID s + 1, m_executorManager := m\<rparr>)) ?run"
    by (cases ?run) (auto simp: call_def Let_def)
  have rc: "\<exists>rc. hd (receipts (m_block be)) = Some rc \<and> receipts (m_block be) \<noteq> []"
    if "call_outcome ?block (Inr [(None, None)], be, m)" for be m
  proof -
    from that have len: "length (m_executiveResults be) = 1" and rcs: "receipts (m_block be) = map receipt (m_executiveResults be)"
      and "\<forall>r \<in> set (m_executiveResults be). receipt r \<noteq> None"
      using blk assms(6) by (auto simp: call_outcome_def)
    then show ?thesis by (auto simp: length_Suc_conv)
  qed
  have part: "same_queue s s' \<and> m_calledContextID s' = m_calledContextID s + 1 \<and>
      (x = Inl (Throw UnexpectedKeyLockError) \<or> x = Inl OutOfRange \<and> txTo tx = ''0'' \<or>
       x = Inr [CallReply (Some (Code UnknownError)) None] \<or> (\<exists>rc. x = Inr [CallReply None (Some rc)]))"
    if c: "call env w fuel createBlock tx s = Some (x, s')" for x s'
  proof -
    obtain r be m where run: "?run = Some (r, be, m)" using c unfolding shape by auto
    note out = batch_environment.asyncExecute_call [OF assms(1-3) run]
    show ?thesis
      using c run out rc [of be m] blk(1) unfolding shape
      by (cases r) (auto simp: call_outcome_def same_queue_def neq_Nil_conv assms(6))
  qed
  have total: "\<exists>rc s'. call env w fuel createBlock tx s = Some (Inr [CallReply None (Some rc)], s')"
    if final: "\<forall>n ex msg. final_answer (batchRespond w n ex msg)" "keyLocks (createExecutionMessage w) = []"
      and tx: "txTo tx \<noteq> ''0''" and fuel: "2 < fuel"
  proof -
    obtain be m where run: "?run = Some (Inr [(None, None)], be, m)"
      using batch_environment.asyncExecute_call_terminates [OF assms(1-3), of ?block fuel
          "m_isAuthCheck s" "uint (m_calledContextID s)" False] final tx fuel blk by auto
    from rc [OF batch_environment.asyncExecute_call [OF assms(1-3) run]] run show ?thesis
      unfolding shape by (auto simp: neq_Nil_conv)
  qed
  from part total show ?thesis by blast
qed

definition sample_transaction :: Transaction where
  "sample_transaction =
     \<lparr>txHash = 21, txSender = ''u'', txTo = ''0xC'', txInput = '''', txSource = '''', txNonce = 1, txAttribute = []\<rparr>"

theorem call_outcome_receipt_witness:
  "\<exists>rc s'. call sample_env sample_world 3 (sample_block\<lparr>transactionsMetaData := []\<rparr>) sample_transaction
     (new_scheduler sample_manager False) = Some (Inr [CallReply None (Some rc)], s')"
proof -
  have "manager_ready (m_executorManager (new_scheduler sample_manager False))"
    using sample_manager_ready by (simp add: new_scheduler_def)
  moreover have "txTo sample_transaction \<noteq> ''0''" by (simp add: sample_transaction_def)
  ultimately show ?thesis
    using call_outcome_receipt [OF sample.batch_environment_axioms _ sample_world_ok(1),
        of "new_scheduler sample_manager False" "sample_block\<lparr>transactionsMetaData := []\<rparr>" 3 sample_transaction]
      sample_world_ok(5,6) by (simp add: sample_block_def)
qed

end
